(* ===== verification/Axil_Prelude.thy ===== *)
theory Axil_Prelude
  imports Main "HOL-Library.Word" "HOL-Library.Sublist"
begin

text \<open>
  Shared ground of the development: the C library functions the sources use
  (character classes, searching, bounded copies, hexadecimal output), the constants of
  the platform (glibc values of \<open>BUFSIZ\<close> and \<open>FD_SETSIZE\<close>), the flag words of
  \<open>include/ttypt/axil.h\<close>, and the generic lemmas the component theories share.

  Conventions.  A C string is the list of its bytes up to, not including, the
  terminating NUL; a byte is a \<^typ>\<open>char\<close>, read as an \<open>unsigned char\<close> by
  \<open>ccode\<close>.  A buffer that is handed over with its size is written by functions that
  return the bytes before the terminating NUL, so "fits in \<open>n\<close> bytes" is
  \<open>length s < n\<close>.  Character classes are those of the C locale.
\<close>

section \<open>Constants\<close>

definition BUFSIZ :: nat where
  "BUFSIZ = 8192"

definition FD_SETSIZE :: nat where
  "FD_SETSIZE = 1024"

definition ENV_KEY_LEN :: nat where
  "ENV_KEY_LEN = 128"

definition ENV_LEN :: nat where
  "ENV_LEN = BUFSIZ * 2"

definition ENV_VALUE_LEN :: nat where
  "ENV_VALUE_LEN = ENV_LEN - ENV_KEY_LEN - 2"

named_theorems c_consts "the values of the platform constants"

lemmas c_consts_defs [c_consts] =
  BUFSIZ_def FD_SETSIZE_def ENV_KEY_LEN_def ENV_LEN_def ENV_VALUE_LEN_def

abbreviation NUL :: char where
  "NUL \<equiv> CHR 0x00"

abbreviation CR :: char where
  "CR \<equiv> CHR 0x0D"

abbreviation LF :: char where
  "LF \<equiv> CHR 0x0A"

abbreviation TAB :: char where
  "TAB \<equiv> CHR 0x09"

abbreviation CRLF :: string where
  "CRLF \<equiv> [CR, LF]"

section \<open>Characters\<close>

abbreviation ccode :: "char \<Rightarrow> nat" where
  "ccode c \<equiv> of_char c"

lemma ccode_less [simp]: "ccode c < 256"
  by (metis of_char_mod_256 mod_less_divisor zero_less_numeral)

lemma ccode_inj: "ccode a = ccode b \<Longrightarrow> a = b"
  by (simp add: of_char_eq_iff)

lemma char_of_eq_iff: "char_of (n :: nat) = c \<longleftrightarrow> n mod 256 = ccode c"
  by (metis char_of_char of_char_of char_of_mod_256)

lemmas char_of_numeral_eq [simp] =
  char_of_eq_iff [of "numeral k" for k] trans [OF eq_commute char_of_eq_iff [of "numeral k" for k]]

definition isdigit :: "char \<Rightarrow> bool" where
  "isdigit c \<longleftrightarrow> 48 \<le> ccode c \<and> ccode c \<le> 57"

definition isupper :: "char \<Rightarrow> bool" where
  "isupper c \<longleftrightarrow> 65 \<le> ccode c \<and> ccode c \<le> 90"

definition islower :: "char \<Rightarrow> bool" where
  "islower c \<longleftrightarrow> 97 \<le> ccode c \<and> ccode c \<le> 122"

definition isalnum :: "char \<Rightarrow> bool" where
  "isalnum c \<longleftrightarrow> isdigit c \<or> isupper c \<or> islower c"

definition isxdigit :: "char \<Rightarrow> bool" where
  "isxdigit c \<longleftrightarrow> isdigit c \<or> (65 \<le> ccode c \<and> ccode c \<le> 70) \<or> (97 \<le> ccode c \<and> ccode c \<le> 102)"

definition isspace :: "char \<Rightarrow> bool" where
  "isspace c \<longleftrightarrow> ccode c = 32 \<or> (9 \<le> ccode c \<and> ccode c \<le> 13)"

definition tolower :: "char \<Rightarrow> char" where
  "tolower c = (if isupper c then char_of (ccode c + 32) else c)"

definition toupper :: "char \<Rightarrow> char" where
  "toupper c = (if islower c then char_of (ccode c - 32) else c)"

named_theorems cclass "the character classes, unfolded to byte ranges"

lemmas cclass_defs [cclass] =
  isdigit_def isupper_def islower_def isalnum_def isxdigit_def isspace_def

lemma ccode_tolower:
  "ccode (tolower c) = (if isupper c then ccode c + 32 else ccode c)"
  by (simp add: tolower_def isupper_def)

lemma ccode_toupper:
  "ccode (toupper c) = (if islower c then ccode c - 32 else ccode c)"
proof -
  have "ccode c - 32 < 256" using ccode_less [of c] by linarith
  then show ?thesis by (simp add: toupper_def)
qed

lemma toupper_idem [simp]: "toupper (toupper c) = toupper c"
  by (rule ccode_inj) (auto simp: ccode_toupper cclass)

lemma tolower_idem [simp]: "tolower (tolower c) = tolower c"
  by (rule ccode_inj) (auto simp: ccode_tolower cclass)

text \<open>\<open>"%02X"\<close> and \<open>"%02x"\<close>: two hexadecimal digits of a byte.\<close>

definition hexdig_upper :: "nat \<Rightarrow> char" where
  "hexdig_upper n = (if n < 10 then char_of (48 + n) else char_of (55 + n))"

definition hexdig_lower :: "nat \<Rightarrow> char" where
  "hexdig_lower n = (if n < 10 then char_of (48 + n) else char_of (87 + n))"

definition hex2_upper :: "char \<Rightarrow> string" where
  "hex2_upper c = [hexdig_upper (ccode c div 16), hexdig_upper (ccode c mod 16)]"

definition hex2_lower :: "char \<Rightarrow> string" where
  "hex2_lower c = [hexdig_lower (ccode c div 16), hexdig_lower (ccode c mod 16)]"

lemma length_hex2 [simp]: "length (hex2_upper c) = 2" "length (hex2_lower c) = 2"
  by (simp_all add: hex2_upper_def hex2_lower_def)

lemma ccode_div16_less [simp]: "ccode c div 16 < 16"
  using ccode_less [of c] by linarith

lemma ccode_split16: "ccode c = 16 * (ccode c div 16) + ccode c mod 16"
  by simp

section \<open>Strings\<close>

text \<open>\<open>snprintf\<close> and friends keep at most \<open>n - 1\<close> bytes of what they print.\<close>

definition snprintf_trunc :: "nat \<Rightarrow> string \<Rightarrow> string" where
  "snprintf_trunc n s = take (n - 1) s"

lemma length_snprintf_trunc: "0 < n \<Longrightarrow> length (snprintf_trunc n s) < n"
  by (auto simp: snprintf_trunc_def min_def)

lemma snprintf_trunc_prefix: "prefix (snprintf_trunc n s) s"
  by (simp add: snprintf_trunc_def take_is_prefix)

lemma snprintf_trunc_fits [simp]: "length s < n \<Longrightarrow> snprintf_trunc n s = s"
  by (simp add: snprintf_trunc_def)

text \<open>A C string seen in a byte buffer: everything before the first NUL.\<close>

definition cstr :: "string \<Rightarrow> string" where
  "cstr s = takeWhile (\<lambda>c. c \<noteq> NUL) s"

lemma cstr_no_nul [simp]: "NUL \<notin> set (cstr s)"
  by (auto simp: cstr_def dest: set_takeWhileD)

lemma cstr_id [simp]: "NUL \<notin> set s \<Longrightarrow> cstr s = s"
  by (auto simp: cstr_def takeWhile_eq_all_conv)

text \<open>\<open>strchr(s, c)\<close> as the offset of the first occurrence.\<close>

fun strchr :: "string \<Rightarrow> char \<Rightarrow> nat option" where
  "strchr [] c = None"
| "strchr (x # xs) c = (if x = c then Some 0 else map_option Suc (strchr xs c))"

lemma strchr_None_iff [simp]: "strchr s c = None \<longleftrightarrow> c \<notin> set s"
  by (induction s) auto

lemma strchr_SomeD:
  "strchr s c = Some i \<Longrightarrow> i < length s \<and> s ! i = c \<and> c \<notin> set (take i s)"
  by (induction s arbitrary: i) (auto split: if_splits)

lemma strchr_split:
  assumes "strchr s c = Some i"
  shows "s = take i s @ c # drop (Suc i) s"
  using strchr_SomeD [OF assms] id_take_nth_drop by auto

lemma strchr_append: "c \<notin> set xs \<Longrightarrow> strchr (xs @ c # ys) c = Some (length xs)"
  by (induction xs) auto

text \<open>\<open>strstr(s, pat)\<close> as an offset.\<close>

fun strstr :: "string \<Rightarrow> string \<Rightarrow> nat option" where
  "strstr [] p = (if p = [] then Some 0 else None)"
| "strstr (x # xs) p = (if prefix p (x # xs) then Some 0 else map_option Suc (strstr xs p))"

lemma strstr_bound: "strstr s p = Some i \<Longrightarrow> i + length p \<le> length s"
  by (induction s arbitrary: i) (auto split: if_splits dest: prefix_length_le)

lemma strstr_CRLF: "CR \<notin> set xs \<Longrightarrow> strstr (xs @ CRLF @ ys) CRLF = Some (length xs)"
  by (induction xs) auto

text \<open>The pieces between separators.\<close>

fun split_on :: "char \<Rightarrow> string \<Rightarrow> string list" where
  "split_on d [] = [[]]"
| "split_on d (c # cs) =
     (if c = d then [] # split_on d cs
      else case split_on d cs of [] \<Rightarrow> [[c]] | p # ps \<Rightarrow> (c # p) # ps)"

lemma split_on_Nil: "d \<notin> set a \<Longrightarrow> split_on d a = [a]"
  by (induction a) auto

lemma split_on_append: "d \<notin> set a \<Longrightarrow> split_on d (a @ d # b) = a # split_on d b"
  by (induction a) auto

lemma split_on_ne [simp]: "split_on d s \<noteq> []"
  by (induction s) (auto split: list.splits)

lemma split_on_prefix:
  "d \<notin> set w \<Longrightarrow> split_on d (w @ s) = (w @ hd (split_on d s)) # tl (split_on d s)"
  by (induction w) auto

lemma split_on_no_sep: "p \<in> set (split_on d s) \<Longrightarrow> d \<notin> set p"
  by (induction s arbitrary: p) (auto split: list.splits if_splits)

text \<open>\<open>"%d"\<close>, \<open>"%lu"\<close> and \<open>"%llx"\<close>.\<close>

fun show_nat :: "nat \<Rightarrow> string" where
  "show_nat n = (if n < 10 then [char_of (48 + n)] else show_nat (n div 10) @ [char_of (48 + n mod 10)])"

fun show_hex :: "nat \<Rightarrow> string" where
  "show_hex n = (if n < 16 then [hexdig_lower n] else show_hex (n div 16) @ [hexdig_lower (n mod 16)])"

declare show_nat.simps [simp del] show_hex.simps [simp del]

definition show_int :: "int \<Rightarrow> string" where
  "show_int i = (if i < 0 then CHR ''-'' # show_nat (nat (- i)) else show_nat (nat i))"

lemma show_nat_digits: "c \<in> set (show_nat n) \<Longrightarrow> isdigit c"
proof (induction n rule: show_nat.induct)
  case (1 n)
  have d: "isdigit (char_of (48 + m))" if "m < 10" for m :: nat
    using that by (simp add: cclass)
  show ?case
    using 1 d [of n] d [of "n mod 10"] by (subst (asm) show_nat.simps) (auto split: if_splits)
qed

lemma show_nat_ne [simp]: "show_nat n \<noteq> []"
  by (subst show_nat.simps) simp

section \<open>Flag words\<close>

text \<open>Descriptor, server, request and command flags (\<open>axil.h\<close>, lines 40 to 130).\<close>

unbundle bit_operations_syntax

type_synonym flagw = "32 word"

definition DF_CONNECTED :: flagw where "DF_CONNECTED = 1"

definition DF_WEBSOCKET :: flagw where "DF_WEBSOCKET = 4"

definition DF_TO_CLOSE :: flagw where "DF_TO_CLOSE = 8"

definition DF_ACCEPTED :: flagw where "DF_ACCEPTED = 16"

definition DF_AUTHENTICATED :: flagw where "DF_AUTHENTICATED = 32"

definition DF_TUNNEL :: flagw where "DF_TUNNEL = 64"

definition DF_WS_WAITING :: flagw where "DF_WS_WAITING = 128"

definition DF_WS_PROXY_PENDING :: flagw where "DF_WS_PROXY_PENDING = 256"

definition DF_EXTERN :: flagw where "DF_EXTERN = 512"

definition DF_HEAD :: flagw where "DF_HEAD = 1024"

named_theorems df_defs "the values of the descriptor flags"

lemmas df_defs_all [df_defs] =
  DF_CONNECTED_def DF_WEBSOCKET_def DF_TO_CLOSE_def DF_ACCEPTED_def DF_AUTHENTICATED_def
  DF_TUNNEL_def DF_WS_WAITING_def DF_WS_PROXY_PENDING_def DF_EXTERN_def DF_HEAD_def

text \<open>\<open>flags & f\<close> used as a condition.\<close>

definition has :: "flagw \<Rightarrow> flagw \<Rightarrow> bool" where
  "has fl f \<longleftrightarrow> fl AND f \<noteq> 0"

section \<open>Interface: bounded copies\<close>

text \<open>
  Several operations copy a value into a caller's buffer of \<open>n\<close> bytes.  What their
  callers rely on is the contract below; the providers are \<open>strlcpy\<close>-like copies.
\<close>

locale bounded_copy =
  fixes copy :: "nat \<Rightarrow> string \<Rightarrow> string"
  assumes copy_fits: "0 < n \<Longrightarrow> length (copy n s) < n"
    and copy_prefix: "prefix (copy n s) s"
    and copy_full: "length s < n \<Longrightarrow> copy n s = s"
begin

lemma copy_set: "set (copy n s) \<subseteq> set s"
  using copy_prefix [of n s] by (rule set_mono_prefix)

lemma copy_no_nul: "NUL \<notin> set s \<Longrightarrow> NUL \<notin> set (copy n s)"
  using copy_set by blast

lemma copy_truncated: "copy n s \<noteq> s \<Longrightarrow> n \<le> length s"
  using copy_full by (metis not_le)

end

interpretation snp: bounded_copy snprintf_trunc
  by unfold_locales (auto simp: length_snprintf_trunc snprintf_trunc_prefix)

section \<open>Interface: transition systems\<close>

text \<open>A component that runs as a sequence of steps: what holds at the start and is kept by every step
  holds in every state reached.\<close>

locale transition_system =
  fixes init :: "'s \<Rightarrow> bool" and step :: "'s \<Rightarrow> 's \<Rightarrow> bool" and inv :: "'s \<Rightarrow> bool"
  assumes init_inv: "init s \<Longrightarrow> inv s"
    and step_inv: "inv s \<Longrightarrow> step s s' \<Longrightarrow> inv s'"
begin

lemma steps_inv: "step\<^sup>*\<^sup>* s s' \<Longrightarrow> inv s \<Longrightarrow> inv s'"
  by (induction rule: rtranclp_induct) (auto intro: step_inv)

lemma reachable_inv: "init s \<Longrightarrow> step\<^sup>*\<^sup>* s s' \<Longrightarrow> inv s'"
  using steps_inv init_inv by blast

end

end
