(* ===== verification/Axil_Encode.thy ===== *)
theory Axil_Encode
  imports Axil_Prelude
begin

text \<open>
  The encoding utilities of \<open>src/axil-encode.c\<close>: percent-encoding, percent-decoding,
  JSON escaping and slugs.  Every function writes into a caller's buffer; the model
  returns the bytes before the terminating NUL (and the C return value where it says
  more).  The loops carry the bytes written so far, so that the \<open>j + 4 < outlen\<close>
  style guards are tested on exactly the length the code tests.

  The lemmas: the two escaping loops implement the locale \<open>escaper\<close>, which proves once
  what a bounded per-byte escaping loop writes; decoding inverts encoding; the decoder
  is a truncated copy of an unbounded reference decoder; a JSON reader recovers the
  escaped bytes; slugs use a fixed alphabet, whatever the transliterator answers.
\<close>

section \<open>Interface: bounded escaping loops\<close>

text \<open>
  A loop that escapes one input byte at a time as long as the output leaves more than
  \<open>slack c\<close> bytes of room.  The contract is the loop's recursion equation and that an
  escape never needs more than the slack it was tested with.
\<close>

locale escaper =
  fixes loop :: "string \<Rightarrow> nat \<Rightarrow> string \<Rightarrow> string"
    and emit :: "char \<Rightarrow> string"
    and slack :: "char \<Rightarrow> nat"
  assumes loop_Nil: "loop [] n out = out"
    and loop_Cons: "loop (c # cs) n out =
      (if length out + slack c < n then loop cs n (out @ emit c) else out)"
    and emit_slack: "length (emit c) \<le> slack c"
begin

lemma loop_prefix_of_escapes: "\<exists>k. loop s n out = out @ concat (map emit (take k s))"
proof (induction s arbitrary: out)
  case Nil
  then show ?case by (simp add: loop_Nil)
next
  case (Cons c cs)
  show ?case
  proof (cases "length out + slack c < n")
    case True
    obtain k where "loop cs n (out @ emit c) = (out @ emit c) @ concat (map emit (take k cs))"
      using Cons by blast
    with True have "loop (c # cs) n out = out @ concat (map emit (take (Suc k) (c # cs)))"
      by (simp add: loop_Cons)
    then show ?thesis by blast
  next
    case False
    then have "loop (c # cs) n out = out @ concat (map emit (take 0 (c # cs)))"
      by (simp add: loop_Cons)
    then show ?thesis by blast
  qed
qed

lemma loop_fits: "length out < n \<Longrightarrow> length (loop s n out) < n"
proof (induction s arbitrary: out)
  case Nil
  then show ?case by (simp add: loop_Nil)
next
  case (Cons c cs)
  then show ?case
    using emit_slack [of c] by (simp add: loop_Cons)
qed

lemma loop_complete:
  assumes "length out + sum_list (map slack s) < n"
  shows "loop s n out = out @ concat (map emit s)"
  using assms
proof (induction s arbitrary: out)
  case Nil
  then show ?case by (simp add: loop_Nil)
next
  case (Cons c cs)
  have "length (out @ emit c) + sum_list (map slack cs) < n"
    using Cons.prems emit_slack [of c] by simp
  with Cons show ?case by (simp add: loop_Cons)
qed

lemma loop_chars:
  assumes "\<And>c x. x \<in> set (emit c) \<Longrightarrow> P x" and "\<And>x. x \<in> set out \<Longrightarrow> P x"
    and "x \<in> set (loop s n out)"
  shows "P x"
proof -
  obtain k where "loop s n out = out @ concat (map emit (take k s))"
    using loop_prefix_of_escapes by blast
  with assms show ?thesis by auto
qed

end

section \<open>Percent-encoding\<close>

definition hex_digit_value :: "char \<Rightarrow> int" where
  "hex_digit_value ch =
     (if 48 \<le> ccode ch \<and> ccode ch \<le> 57 then int (ccode ch) - 48
      else if 65 \<le> ccode ch \<and> ccode ch \<le> 70 then int (ccode ch) - 65 + 10
      else if 97 \<le> ccode ch \<and> ccode ch \<le> 102 then int (ccode ch) - 97 + 10
      else -1)"

definition url_unreserved :: "char \<Rightarrow> bool" where
  "url_unreserved c \<longleftrightarrow>
     isalnum c \<or> c = CHR ''-'' \<or> c = CHR ''_'' \<or> c = CHR ''.'' \<or> c = CHR ''~''"

fun url_encode_loop :: "string \<Rightarrow> nat \<Rightarrow> string \<Rightarrow> string" where
  "url_encode_loop [] outlen out = out"
| "url_encode_loop (c # cs) outlen out =
     (if length out + 4 < outlen then
        (if url_unreserved c then url_encode_loop cs outlen (out @ [c])
         else url_encode_loop cs outlen (out @ CHR ''%'' # hex2_upper c))
      else out)"

text \<open>The bytes written and the \<open>int\<close> returned.\<close>

definition axil_url_encode :: "string \<Rightarrow> nat \<Rightarrow> string \<times> int" where
  "axil_url_encode input outlen =
     (let out = url_encode_loop input outlen [] in (out, int (length out)))"

definition url_emit :: "char \<Rightarrow> string" where
  "url_emit c = (if url_unreserved c then [c] else CHR ''%'' # hex2_upper c)"

interpretation url: escaper url_encode_loop url_emit "\<lambda>_. 4"
  by unfold_locales (auto simp: url_emit_def)

fun url_decode_loop :: "string \<Rightarrow> nat \<Rightarrow> string \<Rightarrow> string" where
  "url_decode_loop [] out_len out = out"
| "url_decode_loop (c # cs) out_len out =
     (if length out + 1 < out_len then
        (if c = CHR ''+'' then url_decode_loop cs out_len (out @ '' '')
         else (case cs of
            h # l # rest \<Rightarrow>
              (if c = CHR ''%'' \<and> 0 \<le> hex_digit_value h \<and> 0 \<le> hex_digit_value l
               then url_decode_loop rest out_len
                      (out @ [char_of (nat (push_bit 4 (hex_digit_value h) OR hex_digit_value l))])
               else url_decode_loop cs out_len (out @ [c]))
          | _ \<Rightarrow> url_decode_loop cs out_len (out @ [c])))
      else out)"

text \<open>
  \<open>src\<close> is the first \<open>src_len\<close> bytes of the source; with no buffer (\<open>out_len = 0\<close>)
  nothing is written and 0 is returned.
\<close>

definition axil_url_decode :: "string \<Rightarrow> nat \<Rightarrow> string" where
  "axil_url_decode src out_len = (if out_len = 0 then [] else url_decode_loop src out_len [])"

text \<open>
  The reference decoder has no buffer: it reads one decoded byte at a time, a
  well-formed \<open>%XX\<close> as one byte, \<open>+\<close> as a space, anything else as itself.
\<close>

fun url_token :: "char \<Rightarrow> string \<Rightarrow> char \<times> string" where
  "url_token c (h # l # rest) =
     (if c = CHR ''+'' then (CHR '' '', h # l # rest)
      else if c = CHR ''%'' \<and> 0 \<le> hex_digit_value h \<and> 0 \<le> hex_digit_value l
      then (char_of (nat (16 * hex_digit_value h + hex_digit_value l)), rest)
      else (c, h # l # rest))"
| "url_token c cs = (if c = CHR ''+'' then CHR '' '' else c, cs)"

lemma url_token_length [termination_simp]: "(d, r) = url_token c cs \<Longrightarrow> length r < Suc (length cs)"
  by (induction c cs rule: url_token.induct) (auto split: if_splits)

fun url_decode_spec :: "string \<Rightarrow> string" where
  "url_decode_spec [] = []"
| "url_decode_spec (c # cs) = (case url_token c cs of (d, r) \<Rightarrow> d # url_decode_spec r)"

subsection \<open>Hexadecimal digits\<close>

lemma hex_digit_value_bounds: "hex_digit_value c < 16" "-1 \<le> hex_digit_value c"
  by (auto simp: hex_digit_value_def)

lemma hex_digit_value_nonneg_iff: "0 \<le> hex_digit_value c \<longleftrightarrow> isxdigit c"
  by (auto simp: hex_digit_value_def cclass)

lemma hex_digit_value_hexdig_upper [simp]: "n < 16 \<Longrightarrow> hex_digit_value (hexdig_upper n) = int n"
  by (simp add: hex_digit_value_def hexdig_upper_def)

lemma hex_digit_value_hexdig_lower [simp]: "n < 16 \<Longrightarrow> hex_digit_value (hexdig_lower n) = int n"
  by (simp add: hex_digit_value_def hexdig_lower_def)

lemma shift4_or_eq:
  fixes hi lo :: int
  assumes "0 \<le> lo" "lo < 16"
  shows "push_bit 4 hi OR lo = 16 * hi + lo"
proof -
  have "take_bit 4 lo = lo" using assms by (simp add: take_bit_int_eq_self_iff)
  then have "\<And>n. bit lo n \<Longrightarrow> n < 4" by (metis bit_take_bit_iff)
  then have "push_bit 4 hi OR lo = push_bit 4 hi + lo"
    by (subst disjunctive_add) (auto simp: bit_push_bit_iff not_less [symmetric])
  then show ?thesis by (simp add: push_bit_eq_mult)
qed

lemma shift4_or_hex:
  "0 \<le> hex_digit_value l \<Longrightarrow>
     push_bit 4 (hex_digit_value h) OR hex_digit_value l = 16 * hex_digit_value h + hex_digit_value l"
  by (rule shift4_or_eq) (auto simp: hex_digit_value_bounds)

lemma hex_byte_of_char: "char_of (nat (16 * int (ccode c div 16) + int (ccode c mod 16))) = c"
proof -
  have "16 * int (ccode c div 16) + int (ccode c mod 16) = int (ccode c)"
    using ccode_split16 [of c] by (metis of_nat_add of_nat_mult of_nat_numeral)
  then show ?thesis by (simp only: nat_int char_of_char)
qed

subsection \<open>The decoder against its reference\<close>

declare url_decode_loop.simps(2) [simp del]

lemma url_decode_loop_Cons:
  "url_decode_loop (c # cs) n out =
     (if length out + 1 < n
      then (case url_token c cs of (d, r) \<Rightarrow> url_decode_loop r n (out @ [d])) else out)"
  by (subst url_decode_loop.simps(2), cases "(c, cs)" rule: url_token.cases)
    (auto simp: shift4_or_hex)

lemma url_decode_loop_spec:
  "length out < n \<Longrightarrow> url_decode_loop s n out = take (n - 1) (out @ url_decode_spec s)"
proof (induction s arbitrary: out rule: url_decode_spec.induct)
  case 1
  then show ?case by simp
next
  case (2 c cs)
  obtain d r where t: "url_token c cs = (d, r)" by fastforce
  show ?case
  proof (cases "length out + 1 < n")
    case True
    with "2.IH" [OF t [symmetric], of "out @ [d]"] t show ?thesis
      by (simp add: url_decode_loop_Cons)
  next
    case False
    with "2.prems" have "n - 1 = length out" by simp
    with False t show ?thesis by (simp add: url_decode_loop_Cons)
  qed
qed


lemma axil_url_decode_eq: "axil_url_decode s n = take (n - 1) (url_decode_spec s)"
  by (simp add: axil_url_decode_def url_decode_loop_spec)

subsection \<open>Decoding inverts encoding\<close>

lemma url_token_emit:
  "url_decode_spec (url_emit c @ s) = c # url_decode_spec s"
proof (cases "url_unreserved c")
  case True
  then have "c \<noteq> CHR ''+''" "c \<noteq> CHR ''%''"
    by (auto simp: url_unreserved_def cclass)
  then have "url_token c s = (c, s)"
    by (cases "(c, s)" rule: url_token.cases) auto
  with True show ?thesis by (simp add: url_emit_def)
next
  case False
  then show ?thesis by (simp add: url_emit_def hex2_upper_def hex_byte_of_char)
qed

lemma url_decode_spec_escapes: "url_decode_spec (concat (map url_emit s)) = s"
  by (induction s) (simp_all add: url_token_emit)

definition url_alphabet :: "char \<Rightarrow> bool" where
  "url_alphabet c \<longleftrightarrow> url_unreserved c \<or> c = CHR ''%''"

lemma hexdig_upper_unreserved: "n < 16 \<Longrightarrow> url_unreserved (hexdig_upper n)"
  by (auto simp: url_unreserved_def hexdig_upper_def cclass)

lemma url_emit_alphabet: "x \<in> set (url_emit c) \<Longrightarrow> url_alphabet x"
  by (auto simp: url_emit_def url_alphabet_def hex2_upper_def hexdig_upper_unreserved split: if_splits)

section \<open>JSON escaping\<close>

fun json_escape_loop :: "string \<Rightarrow> nat \<Rightarrow> string \<Rightarrow> string" where
  "json_escape_loop [] outlen out = out"
| "json_escape_loop (c # cs) outlen out =
     (if length out + 2 < outlen then
        (if c = CHR 0x22 \<or> c = CHR 0x5C then json_escape_loop cs outlen (out @ [CHR 0x5C, c])
         else if c = LF then json_escape_loop cs outlen (out @ [CHR 0x5C, CHR ''n''])
         else if c = CR then json_escape_loop cs outlen (out @ [CHR 0x5C, CHR ''r''])
         else if c = TAB then json_escape_loop cs outlen (out @ [CHR 0x5C, CHR ''t''])
         else if ccode c < 32 then
           (if outlen \<le> length out + 6 then out
            else json_escape_loop cs outlen (out @ CHR 0x5C # CHR ''u'' # ''00'' @ hex2_lower c))
         else json_escape_loop cs outlen (out @ [c]))
      else out)"

definition axil_json_escape :: "string \<Rightarrow> nat \<Rightarrow> string \<times> int" where
  "axil_json_escape input outlen = (json_escape_loop input outlen [], 0)"

definition json_emit :: "char \<Rightarrow> string" where
  "json_emit c =
     (if c = CHR 0x22 \<or> c = CHR 0x5C then [CHR 0x5C, c]
      else if c = LF then [CHR 0x5C, CHR ''n'']
      else if c = CR then [CHR 0x5C, CHR ''r'']
      else if c = TAB then [CHR 0x5C, CHR ''t'']
      else if ccode c < 32 then CHR 0x5C # CHR ''u'' # ''00'' @ hex2_lower c
      else [c])"

definition json_slack :: "char \<Rightarrow> nat" where
  "json_slack c = (if length (json_emit c) = 6 then 6 else 2)"

interpretation json: escaper json_escape_loop json_emit json_slack
  by unfold_locales (auto simp: json_emit_def json_slack_def)

text \<open>
  A reader of the body of a JSON string (RFC 8259, the escapes below U+0100): it
  refuses a raw control character, an unescaped quote and an unknown escape.
\<close>

fun json_read :: "string \<Rightarrow> string option" where
  "json_read [] = Some []"
| "json_read (c # cs) =
     (if c = CHR 0x22 \<or> ccode c < 32 then None
      else if c = CHR 0x5C then
        (case cs of
           e # rest \<Rightarrow>
             (if e = CHR 0x22 \<or> e = CHR 0x5C \<or> e = CHR ''/'' then map_option ((#) e) (json_read rest)
              else if e = CHR ''n'' then map_option ((#) LF) (json_read rest)
              else if e = CHR ''r'' then map_option ((#) CR) (json_read rest)
              else if e = CHR ''t'' then map_option ((#) TAB) (json_read rest)
              else if e = CHR ''u'' then
                (case rest of
                   z0 # z1 # h # l # rest' \<Rightarrow>
                     (if z0 = CHR ''0'' \<and> z1 = CHR ''0'' \<and> 0 \<le> hex_digit_value h \<and> 0 \<le> hex_digit_value l
                      then map_option ((#) (char_of (nat (16 * hex_digit_value h + hex_digit_value l))))
                             (json_read rest')
                      else None)
                 | _ \<Rightarrow> None)
              else None)
         | [] \<Rightarrow> None)
      else map_option ((#) c) (json_read cs))"

lemma json_read_emit: "json_read (json_emit c @ s) = map_option ((#) c) (json_read s)"
  by (auto simp: json_emit_def hex2_lower_def hex_byte_of_char)

lemma json_read_escapes: "json_read (concat (map json_emit s)) = Some s"
  by (induction s) (simp_all add: json_read_emit)

section \<open>Slugs\<close>

text \<open>
  \<open>iconv\<close> is the platform's converter: given the bytes left and the room left it
  either converts everything or stops with an error after some bytes.  A conversion
  descriptor is its behaviour; \<open>None\<close> stands for \<open>iconv_open\<close> having failed.
\<close>

datatype iconv_errno = EILSEQ | EINVAL | E2BIG

datatype iconv_result =
    IconvDone string
  | IconvStop iconv_errno nat string

type_synonym iconv = "string \<Rightarrow> nat \<Rightarrow> iconv_result"

text \<open>
  The conversion loop (lines 148 to 159): an invalid sequence costs one input byte; any
  other error ends the loop.  \<open>reset\<close> is what \<open>iconv(cd, NULL, NULL, ...)\<close> emits.
  A call that succeeds has consumed all its input, so the loop then ends.
\<close>

function slug_convert :: "iconv \<Rightarrow> (nat \<Rightarrow> string) \<Rightarrow> string \<Rightarrow> nat \<Rightarrow> string \<Rightarrow> string" where
  "slug_convert cd reset input room out =
     (if input = [] \<or> room = 0 then out
      else case cd input room of
        IconvDone produced \<Rightarrow> out @ produced
      | IconvStop err consumed produced \<Rightarrow>
          (if err = E2BIG then out @ produced
           else let room' = room - length produced; tail = reset room' in
             slug_convert cd reset (drop (consumed + 1) input) (room' - length tail)
               (out @ produced @ tail)))"
  by pat_completeness auto
termination
  by (relation "measure (\<lambda>(cd, reset, input, room, out). length input)") auto

text \<open>The in-place filter (lines 167 to 177).\<close>

fun slug_filter :: "string \<Rightarrow> string" where
  "slug_filter [] = []"
| "slug_filter (c # cs) =
     (if c = CHR '' '' then CHR ''_'' # slug_filter cs
      else if isupper c then char_of (ccode c + 32) # slug_filter cs
      else if islower c \<or> isdigit c \<or> c = CHR ''_'' then c # slug_filter cs
      else slug_filter cs)"

text \<open>
  The arguments \<open>title\<close> and \<open>result\<close> may be null (\<open>None\<close> and \<open>False\<close>).  The result is
  the C return value and, on success, the slug.
\<close>

definition axil_slugify ::
  "iconv option \<Rightarrow> (nat \<Rightarrow> string) \<Rightarrow> string option \<Rightarrow> nat \<Rightarrow> bool \<Rightarrow> nat \<Rightarrow> int \<times> string" where
  "axil_slugify slug_cd reset title title_len result result_len =
     (case title of
        None \<Rightarrow> (-1, [])
      | Some t \<Rightarrow>
          (if \<not> result \<or> result_len = 0 then (-1, [])
           else
             let converted =
                   (case slug_cd of
                      Some cd \<Rightarrow> slug_convert cd reset (take title_len t) (result_len - 1) []
                    | None \<Rightarrow> take (if title_len < result_len then title_len else result_len - 1) t);
                 slug = slug_filter converted
             in (0, if slug = [] then snprintf_trunc result_len ''item'' else slug)))"

definition slug_char :: "char \<Rightarrow> bool" where
  "slug_char c \<longleftrightarrow> islower c \<or> isdigit c \<or> c = CHR ''_''"

lemma slug_filter_alphabet: "c \<in> set (slug_filter s) \<Longrightarrow> slug_char c"
  by (induction s) (auto simp: slug_char_def cclass split: if_splits)

lemma slug_filter_length: "length (slug_filter s) \<le> length s"
  by (induction s) auto

lemma slug_filter_id: "list_all slug_char s \<Longrightarrow> slug_filter s = s"
  by (induction s) (auto simp: slug_char_def cclass)

text \<open>
  What is assumed of the converter: it never writes more than the room it is given
  (POSIX \<open>iconv\<close>), and neither does its reset sequence.
\<close>

definition iconv_bounded :: "iconv \<Rightarrow> (nat \<Rightarrow> string) \<Rightarrow> bool" where
  "iconv_bounded cd reset \<longleftrightarrow>
     (\<forall>inp room. case cd inp room of
        IconvDone p \<Rightarrow> length p \<le> room
      | IconvStop e k p \<Rightarrow> length p \<le> room) \<and> (\<forall>room. length (reset room) \<le> room)"

declare slug_convert.simps [simp del]

lemma iconv_boundedD:
  assumes "iconv_bounded cd reset"
  shows "cd inp room = IconvDone p \<Longrightarrow> length p \<le> room"
    and "cd inp room = IconvStop e k p \<Longrightarrow> length p \<le> room"
    and "length (reset room) \<le> room"
proof -
  have "case cd inp room of IconvDone p \<Rightarrow> length p \<le> room | IconvStop e k p \<Rightarrow> length p \<le> room"
    and r: "length (reset room) \<le> room"
    using assms by (auto simp: iconv_bounded_def)
  then show "cd inp room = IconvDone p \<Longrightarrow> length p \<le> room"
    and "cd inp room = IconvStop e k p \<Longrightarrow> length p \<le> room"
    by auto
  show "length (reset room) \<le> room" by (rule r)
qed

lemma slug_convert_length:
  assumes "iconv_bounded cd reset"
  shows "length (slug_convert cd reset inp room out) \<le> length out + room"
  using assms
proof (induction cd reset inp room out rule: slug_convert.induct)
  case (1 cd reset inp room out)
  note bd = iconv_boundedD [OF "1.prems"]
  show ?case
  proof (cases "inp = [] \<or> room = 0")
    case True
    then show ?thesis by (simp add: slug_convert.simps)
  next
    case False
    show ?thesis
    proof (cases "cd inp room")
      case (IconvDone p)
      with False bd(1) [OF IconvDone] show ?thesis by (simp add: slug_convert.simps)
    next
      case (IconvStop e k p)
      let ?tail = "reset (room - length p)"
      have "length p \<le> room" "length ?tail \<le> room - length p"
        using bd(2) [OF IconvStop] bd(3) by auto
      then show ?thesis
        using False IconvStop "1.IH" [OF False IconvStop _ refl refl "1.prems"]
        by (auto simp: slug_convert.simps [of cd reset inp room out] Let_def)
    qed
  qed
qed

lemma slug_converted_length:
  assumes "\<And>cd. slug_cd = Some cd \<Longrightarrow> iconv_bounded cd reset" and "0 < result_len"
  shows "length (case slug_cd of
      Some cd \<Rightarrow> slug_convert cd reset inp (result_len - 1) []
    | None \<Rightarrow> take (if title_len < result_len then title_len else result_len - 1) t) < result_len"
proof (cases slug_cd)
  case None
  with assms(2) show ?thesis by auto
next
  case (Some cd)
  with slug_convert_length [OF assms(1) [OF Some], of inp "result_len - 1" "[]"] assms(2)
  show ?thesis by simp
qed

section \<open>Properties\<close>



text \<open>The encoder writes only unreserved characters and percent signs, and with a
  non-empty buffer the result and its NUL fit.\<close>

theorem url_encode_safe:
  assumes "0 < n"
  shows "length (fst (axil_url_encode s n)) < n
       \<and> list_all url_alphabet (fst (axil_url_encode s n))"
proof -
  have fits: "length (url_encode_loop s n []) < n"
    using url.loop_fits [of "[]" n s] assms by simp
  have "url_alphabet x" if "x \<in> set (url_encode_loop s n [])" for x
    by (rule url.loop_chars [OF url_emit_alphabet _ that]) auto
  with fits show ?thesis by (simp add: axil_url_encode_def Let_def list_all_iff)
qed

theorem url_encode_safe_witness:
  "length (fst (axil_url_encode ''x?y'' 6)) < 6 \<and> list_all url_alphabet (fst (axil_url_encode ''x?y'' 6))"
  using url_encode_safe [of 6 "''x?y''"] by simp

text \<open>\<open>axil_url_decode\<close> is the truncation to the buffer of the unbounded reference
  decoder: no byte is dropped or reordered other than by running out of room.\<close>

theorem url_decode_refines_spec:
  "axil_url_decode src out_len = snprintf_trunc out_len (url_decode_spec src)"
  by (simp add: axil_url_decode_eq snprintf_trunc_def)

text \<open>C33. A JSON reader recovers from the escaped text exactly a prefix of the input
  (all of it when the buffer has six bytes per input byte), so no raw control character
  or unescaped quote is ever written, and with a non-empty buffer the text fits.\<close>

theorem json_escape_readable:
  assumes "0 < n"
  shows "\<exists>k. json_read (fst (axil_json_escape s n)) = Some (take k s)
     \<and> (6 * length s < n \<longrightarrow> take k s = s)
     \<and> length (fst (axil_json_escape s n)) < n"
proof -
  obtain k where k: "json_escape_loop s n [] = concat (map json_emit (take k s))"
    using json.loop_prefix_of_escapes [of s n "[]"] by auto
  have slack: "sum_list (map json_slack s) \<le> 6 * length s"
    by (induction s) (auto simp: json_slack_def)
  have whole: "take k s = s" if "6 * length s < n"
  proof -
    have "json_escape_loop s n [] = concat (map json_emit s)"
      using json.loop_complete [of "[]" s n] slack that by simp
    with k show ?thesis by (metis json_read_escapes option.inject)
  qed
  have "json_read (fst (axil_json_escape s n)) = Some (take k s)"
    using k by (simp add: axil_json_escape_def json_read_escapes)
  moreover have "length (fst (axil_json_escape s n)) < n"
    using json.loop_fits [of "[]" n s] assms by (simp add: axil_json_escape_def)
  ultimately show ?thesis using whole by blast
qed

theorem json_escape_readable_witness:
  "\<exists>k. json_read (fst (axil_json_escape ''say'' 20)) = Some (take k ''say'')
     \<and> take k ''say'' = ''say'' \<and> length (fst (axil_json_escape ''say'' 20)) < 20"
  using json_escape_readable [of 20 "''say''"] by auto

text \<open>A slug is made of lower-case letters, digits and underscores only, fits its
  buffer, is not empty when the buffer can hold a byte, and making it a slug again
  leaves it unchanged, whatever the transliterator produced.\<close>

theorem slugify_safe:
  assumes "\<And>cd. slug_cd = Some cd \<Longrightarrow> iconv_bounded cd reset"
    and "axil_slugify slug_cd reset title title_len result result_len = (0, slug)"
  shows "list_all slug_char slug \<and> length slug < result_len \<and> (1 < result_len \<longrightarrow> slug \<noteq> [])
       \<and> slug_filter slug = slug"
proof -
  obtain t where t: "title = Some t" and len: "0 < result_len"
    using assms(2) by (auto simp: axil_slugify_def split: option.splits if_splits)
  let ?conv = "case slug_cd of
      Some cd \<Rightarrow> slug_convert cd reset (take title_len t) (result_len - 1) []
    | None \<Rightarrow> take (if title_len < result_len then title_len else result_len - 1) t"
  have slug: "slug = (if slug_filter ?conv = [] then snprintf_trunc result_len ''item'' else slug_filter ?conv)"
    using assms(2) t len by (simp add: axil_slugify_def Let_def split: if_splits)
  have "list_all slug_char ''item''" by (simp add: slug_char_def cclass)
  then have item: "list_all slug_char (snprintf_trunc result_len ''item'')"
    by (auto simp: snprintf_trunc_def list_all_iff dest: in_set_takeD)
  have alpha: "list_all slug_char slug"
    unfolding slug using item slug_filter_alphabet by (auto simp: list_all_iff)
  have "length (slug_filter ?conv) < result_len"
    using slug_converted_length [OF assms(1) len] slug_filter_length le_less_trans by blast
  then have "length slug < result_len"
    using slug len length_snprintf_trunc by auto
  moreover have "1 < result_len \<longrightarrow> slug \<noteq> []"
    by (auto simp: slug snprintf_trunc_def take_Cons')
  ultimately show ?thesis using alpha by (simp add: slug_filter_id)
qed

theorem slugify_safe_witness:
  "list_all slug_char ''a_b'' \<and> length ''a_b'' < (8::nat) \<and> slug_filter ''a_b'' = ''a_b''"
proof -
  have "axil_slugify None (\<lambda>_. []) (Some ''A b!'') 4 True 8 = (0, ''a_b'')"
    by (simp add: axil_slugify_def cclass)
  from slugify_safe [OF _ this] show ?thesis by simp
qed

end
