(* ===== verification/Axil_Path.thy ===== *)
theory Axil_Path
  imports Axil_Encode
begin

text \<open>
  The request-target checks of \<open>src/libaxil.c\<close>: \<open>request_path_is_safe\<close>, which
  decodes the path again and again until nothing changes and refuses traversal, and the
  part of \<open>request_handle\<close> that turns the target into \<open>document_uri\<close> and the query.

  The lemmas: one decoding pass is the lenient percent-decoder or a refusal; the loop
  ends because every pass that decodes something shortens the path; an accepted path
  has no \<open>..\<close> segment, no control byte and no backslash, however often it is decoded.
\<close>

section \<open>The safety check\<close>

definition path_hex :: "char \<Rightarrow> int" where
  "path_hex c = (if isdigit c then int (ccode c) - 48 else int (ccode (tolower c)) - 97 + 10)"

definition path_bad_byte :: "char \<Rightarrow> bool" where
  "path_bad_byte c \<longleftrightarrow> c = NUL \<or> c = CHR 0x5C \<or> ccode c < 32 \<or> ccode c = 127"

text \<open>
  One pass over \<open>current\<close> (lines 1404 to 1432).  \<open>None\<close> is \<open>return 0\<close>; otherwise the
  decoded bytes and whether anything was decoded.
\<close>

fun path_decode_pass :: "string \<Rightarrow> string \<Rightarrow> bool \<Rightarrow> (string \<times> bool) option" where
  "path_decode_pass [] decoded changed = Some (decoded, changed)"
| "path_decode_pass (c # cs) decoded changed =
     (if c = CHR ''%'' then
        (case cs of
           h # l # rest \<Rightarrow>
             (if isxdigit h \<and> isxdigit l then
                (let b = char_of (nat (push_bit 4 (path_hex h) OR path_hex l)) in
                 if path_bad_byte b then None else path_decode_pass rest (decoded @ [b]) True)
              else None)
         | _ \<Rightarrow> None)
      else if path_bad_byte c then None
      else path_decode_pass cs (decoded @ [c]) changed)"

text \<open>The segment scan (lines 1434 to 1443): \<open>True\<close> when some segment is \<open>..\<close>.\<close>

fun dotdot_scan :: "string \<Rightarrow> string \<Rightarrow> bool" where
  "dotdot_scan segment [] = (segment = ''..'')"
| "dotdot_scan segment (c # cs) =
     (if c = CHR ''/'' then (if segment = ''..'' then True else dotdot_scan [] cs)
      else dotdot_scan (segment @ [c]) cs)"

lemma path_decode_pass_length:
  "path_decode_pass s acc ch = Some (d, ch') \<Longrightarrow>
     length d \<le> length acc + length s \<and> (ch' \<and> \<not> ch \<longrightarrow> length d < length acc + length s)"
  by (induction s acc ch rule: path_decode_pass.induct)
    (fastforce simp: Let_def split: if_splits list.splits)+

text \<open>The outer loop (lines 1400 to 1448).\<close>

function path_fixpoint :: "string \<Rightarrow> bool" where
  "path_fixpoint current =
     (case path_decode_pass current [] False of
        None \<Rightarrow> False
      | Some (decoded, changed) \<Rightarrow>
          (if dotdot_scan [] decoded then False
           else if \<not> changed then (case decoded of [] \<Rightarrow> False | c # _ \<Rightarrow> c = CHR ''/'')
           else path_fixpoint decoded))"
  by pat_completeness auto
termination
  by (relation "measure length") (auto dest: path_decode_pass_length)

declare path_fixpoint.simps [simp del]

definition target_path :: "string \<Rightarrow> string" where
  "target_path target = takeWhile (\<lambda>c. c \<noteq> CHR ''?'') target"

definition request_path_is_safe :: "string \<Rightarrow> bool" where
  "request_path_is_safe target =
     (let path = target_path target in
      if path = [] \<or> BUFSIZ \<le> length path then False else path_fixpoint path)"

section \<open>From the target to the document URI\<close>

text \<open>
  Lines 2335 to 2357 of \<open>request_handle\<close>: the connection is closed, or 414 is sent, or
  the request goes on with a document URI and a query string.
\<close>

datatype target_result =
    TargetClosed
  | TargetTooLong
  | Target string string

definition request_target :: "string \<Rightarrow> target_result" where
  "request_target target =
     (if \<not> request_path_is_safe target then TargetClosed
      else if BUFSIZ \<le> length target then TargetTooLong
      else
        let document_uri = axil_url_decode target BUFSIZ in
        if NUL \<in> set document_uri then TargetClosed
        else (case strchr document_uri (CHR ''?'') of
                Some i \<Rightarrow> Target (take i document_uri) (drop (Suc i) document_uri)
              | None \<Rightarrow> Target document_uri []))"

section \<open>Specification\<close>

text \<open>The segments of a path, and the decoder a later stage may apply once more.\<close>

fun segments :: "string \<Rightarrow> string list" where
  "segments [] = [[]]"
| "segments (c # cs) =
     (if c = CHR ''/'' then [] # segments cs
      else (case segments cs of [] \<Rightarrow> [[c]] | s # ss \<Rightarrow> (c # s) # ss))"

fun pct_decode :: "string \<Rightarrow> string" where
  "pct_decode (c # h # l # rest) =
     (if c = CHR ''%'' \<and> isxdigit h \<and> isxdigit l
      then char_of (nat (16 * hex_digit_value h + hex_digit_value l)) # pct_decode rest
      else c # pct_decode (h # l # rest))"
| "pct_decode [a, b] = [a, b]"
| "pct_decode [a] = [a]"
| "pct_decode [] = []"

definition clean_path :: "string \<Rightarrow> bool" where
  "clean_path s \<longleftrightarrow> ''..'' \<notin> set (segments s) \<and> list_all (\<lambda>c. \<not> path_bad_byte c) s"

subsection \<open>Segments\<close>

lemma segments_nonempty [simp]: "segments s \<noteq> []"
  by (induction s) (auto split: list.splits)

lemma dotdot_scan_segments:
  "dotdot_scan seg s \<longleftrightarrow> seg @ hd (segments s) = ''..'' \<or> ''..'' \<in> set (tl (segments s))"
proof (induction s arbitrary: seg)
  case Nil
  then show ?case by simp
next
  case (Cons c cs)
  obtain t ts where t: "segments cs = t # ts"
    by (metis neq_Nil_conv segments_nonempty)
  show ?case
    using Cons [of "[]"] Cons [of "seg @ [c]"] t by (auto simp del: dotdot_scan.simps(1))
qed

lemma dotdot_scan_iff: "dotdot_scan [] s \<longleftrightarrow> ''..'' \<in> set (segments s)"
  by (cases "segments s") (auto simp: dotdot_scan_segments)

lemma segments_slash: "segments (a @ CHR ''/'' # b) = segments a @ segments b"
  by (induction a) (auto split: list.splits)

lemma segments_no_slash: "CHR ''/'' \<notin> set s \<Longrightarrow> segments s = [s]"
  by (induction s) auto

subsection \<open>One pass\<close>

lemma path_hex_eq: "isxdigit c \<Longrightarrow> path_hex c = hex_digit_value c"
  by (auto simp: path_hex_def hex_digit_value_def ccode_tolower cclass)

lemma path_hex_byte:
  "isxdigit h \<Longrightarrow> isxdigit l \<Longrightarrow>
     push_bit 4 (path_hex h) OR path_hex l = 16 * hex_digit_value h + hex_digit_value l"
  by (simp add: path_hex_eq shift4_or_hex hex_digit_value_nonneg_iff)

lemma isxdigit_percent [simp]: "\<not> isxdigit (CHR ''%'')" "\<not> isxdigit (CHR ''/'')" "\<not> isxdigit (CHR ''?'')"
    "\<not> isxdigit (CHR ''.'')"
  by (simp_all add: cclass)

lemma pct_decode_plain: "c \<noteq> CHR ''%'' \<Longrightarrow> pct_decode (c # cs) = c # pct_decode cs"
  by (cases "c # cs" rule: pct_decode.cases) auto

lemma pct_decode_id: "CHR ''%'' \<notin> set s \<Longrightarrow> pct_decode s = s"
  by (induction s) (auto simp: pct_decode_plain)

lemma path_decode_pass_Some:
  "path_decode_pass s acc ch = Some (d, ch') \<Longrightarrow>
     d = acc @ pct_decode s \<and> list_all (\<lambda>c. \<not> path_bad_byte c) (pct_decode s)
     \<and> (ch' \<longleftrightarrow> ch \<or> CHR ''%'' \<in> set s)"
  by (induction s acc ch rule: path_decode_pass.induct)
    (fastforce simp: Let_def pct_decode_plain path_hex_byte split: if_splits list.splits)+


lemma path_decode_pass_raw:
  "path_decode_pass s acc ch = Some (d, ch') \<Longrightarrow> list_all (\<lambda>c. \<not> path_bad_byte c) s"
proof (induction s acc ch rule: path_decode_pass.induct)
  case (2 c cs acc ch)
  have hex: "\<not> path_bad_byte x" if "isxdigit x" for x
    using that by (auto simp: path_bad_byte_def cclass)
  have pct: "\<not> path_bad_byte (CHR ''%'')" by (simp add: path_bad_byte_def)
  from 2 hex pct show ?case
    by (fastforce simp: Let_def split: if_splits list.splits)
qed simp

lemma pct_decode_split:
  "\<not> isxdigit x \<Longrightarrow> pct_decode (a @ x # b) = pct_decode a @ pct_decode (x # b)"
proof (induction a rule: pct_decode.induct)
  case (1 c h l rest)
  then show ?case by auto
next
  case (2 u v)
  then show ?case by (cases b) auto
next
  case (3 u)
  then show ?case by (cases b) auto
next
  case 4
  then show ?case by simp
qed

lemma split_at_slash:
  obtains "CHR ''/'' \<notin> set s" | x y where "s = x @ CHR ''/'' # y" "CHR ''/'' \<notin> set x" "length y < length s"
  by (cases "CHR ''/'' \<in> set s") (auto dest!: split_list_first)

lemma dotdot_survives_decoding:
  "''..'' \<in> set (segments s) \<Longrightarrow> ''..'' \<in> set (segments (pct_decode s))"
proof (induction s rule: length_induct)
  case (1 s)
  show ?case
  proof (cases rule: split_at_slash [of s])
    case 1
    with "1.prems" have "s = ''..''" by (simp add: segments_no_slash)
    then show ?thesis by simp
  next
    case (2 x y)
    have dec: "pct_decode s = pct_decode x @ CHR ''/'' # pct_decode y"
      using 2 pct_decode_split [of "CHR ''/''" x y] by (simp add: pct_decode_plain)
    have "x = ''..'' \<or> ''..'' \<in> set (segments y)"
      using "1.prems" 2 by (auto simp: segments_slash segments_no_slash)
    then show ?thesis
    proof
      assume "x = ''..''"
      then show ?thesis by (simp add: dec segments_slash)
    next
      assume "''..'' \<in> set (segments y)"
      with "1.IH" 2(3) have "''..'' \<in> set (segments (pct_decode y))" by blast
      then show ?thesis by (simp add: dec segments_slash)
    qed
  qed
qed

subsection \<open>The loop\<close>

lemma path_fixpoint_clean: "path_fixpoint s \<Longrightarrow> clean_path ((pct_decode ^^ Suc n) s)"
proof (induction s arbitrary: n rule: path_fixpoint.induct)
  case (1 s)
  obtain d ch where pass: "path_decode_pass s [] False = Some (d, ch)"
    using "1.prems" by (auto simp: path_fixpoint.simps [of s] split: option.splits)
  have d: "d = pct_decode s" "list_all (\<lambda>c. \<not> path_bad_byte c) d" "ch \<longleftrightarrow> CHR ''%'' \<in> set s"
    using path_decode_pass_Some [OF pass] by auto
  have nodots: "\<not> dotdot_scan [] d"
    using "1.prems" pass by (auto simp: path_fixpoint.simps [of s] split: if_splits)
  then have clean: "clean_path d"
    using d(2) by (simp add: clean_path_def dotdot_scan_iff)
  show ?case
  proof (cases ch)
    case False
    then have "pct_decode s = s" using d(3) by (simp add: pct_decode_id)
    then have "(pct_decode ^^ Suc n) s = s" by (induction n) simp_all
    with clean d(1) \<open>pct_decode s = s\<close> show ?thesis by simp
  next
    case True
    then have "path_fixpoint d"
      using "1.prems" pass nodots by (simp add: path_fixpoint.simps [of s])
    show ?thesis
    proof (cases n)
      case 0
      with clean d(1) show ?thesis by simp
    next
      case (Suc m)
      have "clean_path ((pct_decode ^^ Suc m) d)"
        using "1.IH" [OF pass refl nodots] True \<open>path_fixpoint d\<close> by simp
      then show ?thesis unfolding Suc d(1) by (simp add: funpow_swap1)
    qed
  qed
qed

lemma path_fixpoint_raw: "path_fixpoint s \<Longrightarrow> clean_path s"
proof -
  assume fp: "path_fixpoint s"
  then obtain d ch where "path_decode_pass s [] False = Some (d, ch)"
    by (auto simp: path_fixpoint.simps [of s] split: option.splits)
  then have "list_all (\<lambda>c. \<not> path_bad_byte c) s" by (rule path_decode_pass_raw)
  moreover have "''..'' \<notin> set (segments (pct_decode s))"
    using path_fixpoint_clean [OF fp, of 0] by (simp add: clean_path_def)
  ultimately show ?thesis
    using dotdot_survives_decoding by (auto simp: clean_path_def)
qed

lemma path_fixpoint_absolute:
  "path_fixpoint s \<Longrightarrow> \<exists>n rest. (pct_decode ^^ n) s = CHR ''/'' # rest \<and> CHR ''%'' \<notin> set rest"
proof (induction s rule: path_fixpoint.induct)
  case (1 s)
  obtain d ch where pass: "path_decode_pass s [] False = Some (d, ch)"
    using "1.prems" by (auto simp: path_fixpoint.simps [of s] split: option.splits)
  have d: "d = pct_decode s" "ch \<longleftrightarrow> CHR ''%'' \<in> set s"
    using path_decode_pass_Some [OF pass] by auto
  have nodots: "\<not> dotdot_scan [] d"
    using "1.prems" pass by (auto simp: path_fixpoint.simps [of s] split: if_splits)
  show ?case
  proof (cases ch)
    case False
    then have "d = s" using d by (simp add: pct_decode_id)
    moreover obtain rest where "d = CHR ''/'' # rest"
      using "1.prems" pass nodots False
      by (auto simp: path_fixpoint.simps [of s] split: list.splits if_splits)
    ultimately show ?thesis using False d(2) by (intro exI [of _ 0]) auto
  next
    case True
    then have "path_fixpoint d"
      using "1.prems" pass nodots by (simp add: path_fixpoint.simps [of s])
    then obtain n rest where "(pct_decode ^^ n) d = CHR ''/'' # rest" "CHR ''%'' \<notin> set rest"
      using "1.IH" [OF pass refl nodots] True by blast
    then show ?thesis by (intro exI [of _ "Suc n"] exI [of _ rest]) (simp add: d(1) funpow_swap1)
  qed
qed

lemma path_fixpoint_plain:
  assumes "CHR ''%'' \<notin> set s"
  shows "path_fixpoint s \<longleftrightarrow> clean_path s \<and> s \<noteq> [] \<and> hd s = CHR ''/''"
proof -
  have pass: "path_decode_pass s acc ch =
      (if list_all (\<lambda>c. \<not> path_bad_byte c) s then Some (acc @ s, ch) else None)" for acc ch
    using assms by (induction s arbitrary: acc) auto
  show ?thesis
    by (subst path_fixpoint.simps)
      (auto simp: pass clean_path_def dotdot_scan_iff split: list.splits)
qed


subsection \<open>The document URI\<close>

text \<open>
  The decoder that makes \<open>document_uri\<close> also turns \<open>+\<close> into a space; otherwise it is
  the decoder of the safety check.
\<close>

definition plus_eq :: "char \<Rightarrow> char \<Rightarrow> bool" where
  "plus_eq a b \<longleftrightarrow> a = b \<or> a = CHR '' '' \<and> b = CHR ''+''"

lemma url_decode_spec_pct: "list_all2 plus_eq (url_decode_spec s) (pct_decode s)"
proof (induction s rule: url_decode_spec.induct)
  case 1
  then show ?case by simp
next
  case (2 c cs)
  obtain d r where t: "url_token c cs = (d, r)" by fastforce
  have "\<exists>d'. pct_decode (c # cs) = d' # pct_decode r \<and> plus_eq d d'"
    using t by (cases "(c, cs)" rule: url_token.cases)
      (auto simp: plus_eq_def hex_digit_value_nonneg_iff split: if_splits)
  with t "2.IH" [OF t [symmetric]] show ?case by auto
qed

lemma url_decode_spec_length: "length (url_decode_spec s) \<le> length s"
proof (induction s rule: url_decode_spec.induct)
  case (2 c cs)
  obtain d r where t: "url_token c cs = (d, r)" by fastforce
  with "2.IH" [OF t [symmetric]] url_token_length [OF t [symmetric]] show ?case by simp
qed simp

lemma plus_eq_dots: "list_all2 plus_eq a b \<Longrightarrow> a = ''..'' \<longleftrightarrow> b = ''..''"
  by (auto simp: plus_eq_def list_all2_Cons1 list_all2_Cons2)

lemma plus_eq_segments:
  "list_all2 plus_eq a b \<Longrightarrow> list_all2 (list_all2 plus_eq) (segments a) (segments b)"
proof (induction rule: list_all2_induct)
  case Nil
  then show ?case by simp
next
  case (Cons x xs y ys)
  obtain s ss where s: "segments xs = s # ss" by (metis neq_Nil_conv segments_nonempty)
  obtain t ts where t: "segments ys = t # ts" by (metis neq_Nil_conv segments_nonempty)
  have "x = CHR ''/'' \<longleftrightarrow> y = CHR ''/''" using Cons.hyps(1) by (auto simp: plus_eq_def)
  with Cons s t show ?case by auto
qed

lemma list_all2_butlast: "list_all2 P xs ys \<Longrightarrow> list_all2 P (butlast xs) (butlast ys)"
  by (simp add: list_all2_conv_all_nth nth_butlast)

lemma plus_eq_dotdot_mem:
  "list_all2 (list_all2 plus_eq) ss ts \<Longrightarrow> ''..'' \<in> set ss \<longleftrightarrow> ''..'' \<in> set ts"
  by (induction rule: list_all2_induct) (auto dest: plus_eq_dots)

lemma plus_eq_bytes:
  "list_all2 plus_eq a b \<Longrightarrow>
     list_all (\<lambda>c. \<not> path_bad_byte c) a \<longleftrightarrow> list_all (\<lambda>c. \<not> path_bad_byte c) b"
  by (induction rule: list_all2_induct) (auto simp: plus_eq_def path_bad_byte_def)

lemma plus_eq_clean: "list_all2 plus_eq a b \<Longrightarrow> clean_path a \<longleftrightarrow> clean_path b"
  using plus_eq_bytes plus_eq_dotdot_mem [OF plus_eq_segments] by (simp add: clean_path_def)

lemma plus_eq_takeWhile:
  "list_all2 plus_eq a b \<Longrightarrow>
     list_all2 plus_eq (takeWhile (\<lambda>c. c \<noteq> CHR ''?'') a) (takeWhile (\<lambda>c. c \<noteq> CHR ''?'') b)"
  by (induction rule: list_all2_induct) (auto simp: plus_eq_def)

lemma strchr_takeWhile:
  "takeWhile (\<lambda>x. x \<noteq> c) s = (case strchr s c of Some i \<Rightarrow> take i s | None \<Rightarrow> s)"
proof (induction s)
  case (Cons a s)
  then show ?case by (cases "strchr s c") (simp_all del: strchr_None_iff)
qed simp

lemma request_target_uri:
  assumes "request_target t = Target uri q"
  shows "list_all2 plus_eq uri (takeWhile (\<lambda>c. c \<noteq> CHR ''?'') (pct_decode (target_path t)))"
    and "path_fixpoint (target_path t)"
proof -
  let ?q = "\<lambda>c. c \<noteq> CHR ''?''"
  have safe: "request_path_is_safe t" and short: "length t < BUFSIZ"
    using assms by (auto simp: request_target_def split: if_splits)
  then show "path_fixpoint (target_path t)"
    by (auto simp: request_path_is_safe_def Let_def split: if_splits)
  have "axil_url_decode t BUFSIZ = url_decode_spec t"
    using url_decode_spec_length [of t] short by (simp add: axil_url_decode_eq)
  then have uri: "uri = takeWhile ?q (url_decode_spec t)"
    using assms safe short
    by (cases "strchr (url_decode_spec t) (CHR ''?'')")
      (simp_all add: request_target_def strchr_takeWhile Let_def split: if_splits
        del: strchr_None_iff)
  have "takeWhile ?q (pct_decode t) = takeWhile ?q (pct_decode (target_path t))"
  proof (cases "CHR ''?'' \<in> set t")
    case True
    then obtain a b where ab: "t = a @ CHR ''?'' # b" "CHR ''?'' \<notin> set a"
      by (meson split_list_first)
    then have path: "target_path t = a"
      by (auto simp: target_path_def takeWhile_tail takeWhile_append)
    have "pct_decode t = pct_decode a @ CHR ''?'' # pct_decode b"
      using ab pct_decode_split [of "CHR ''?''" a b] by (simp add: pct_decode_plain)
    with path show ?thesis
      by (simp add: takeWhile_tail)
  next
    case False
    then have "target_path t = t" by (auto simp: target_path_def takeWhile_eq_all_conv)
    then show ?thesis by simp
  qed
  with plus_eq_takeWhile [OF url_decode_spec_pct [of t]]
  show "list_all2 plus_eq uri (takeWhile ?q (pct_decode (target_path t)))"
    by (simp add: uri)
qed

lemma segments_prefix: "prefix (butlast (segments a)) (segments (a @ b))"
proof (induction a)
  case (Cons c cs)
  obtain s ss where s: "segments cs = s # ss" by (metis neq_Nil_conv segments_nonempty)
  obtain t ts where t: "segments (cs @ b) = t # ts" by (metis neq_Nil_conv segments_nonempty)
  from Cons s t show ?case by (auto split: if_splits)
qed simp

section \<open>Properties\<close>

text \<open>C1. An accepted request path is free of traversal at every depth of decoding: however
  many times a later stage percent-decodes it, no segment is \<open>..\<close> and no byte is NUL, a
  control character, DEL or a backslash; and decoding it until nothing changes gives a path
  that starts with a slash.\<close>

theorem safe_path_never_traverses:
  assumes "request_path_is_safe target"
  shows "clean_path ((pct_decode ^^ n) (target_path target))
       \<and> (\<exists>m rest. (pct_decode ^^ m) (target_path target) = CHR ''/'' # rest \<and> CHR ''%'' \<notin> set rest)"
proof -
  have fp: "path_fixpoint (target_path target)"
    using assms by (auto simp: request_path_is_safe_def Let_def split: if_splits)
  then have "clean_path ((pct_decode ^^ n) (target_path target))"
    using path_fixpoint_raw path_fixpoint_clean by (cases n) auto
  with path_fixpoint_absolute [OF fp] show ?thesis by blast
qed

lemma example_safe_path: "request_path_is_safe ''/a%2Fb?..''"
  by (simp add: request_path_is_safe_def target_path_def BUFSIZ_def path_fixpoint.simps
      path_hex_def cclass path_bad_byte_def tolower_def)

theorem safe_path_never_traverses_witness:
  "clean_path ((pct_decode ^^ 2) (target_path ''/a%2Fb?..''))"
  using safe_path_never_traverses [OF example_safe_path, of 2] by blast

text \<open>Nothing legitimate is refused: a target whose path holds no percent sign is accepted
  exactly when the path is absolute, clean and shorter than the buffer.\<close>

theorem plain_path_accepted_iff:
  assumes "CHR ''%'' \<notin> set (target_path target)"
  shows "request_path_is_safe target \<longleftrightarrow>
     length (target_path target) < BUFSIZ \<and> clean_path (target_path target)
     \<and> (\<exists>rest. target_path target = CHR ''/'' # rest)"
  using path_fixpoint_plain [OF assms]
  by (cases "target_path target") (auto simp: request_path_is_safe_def Let_def)

theorem plain_path_accepted_iff_witness:
  "request_path_is_safe ''/index.html?q=1'' \<and> \<not> request_path_is_safe ''/a/../b''"
  using plain_path_accepted_iff [of "''/index.html?q=1''"] plain_path_accepted_iff [of "''/a/../b''"]
  by (simp add: target_path_def clean_path_def path_bad_byte_def BUFSIZ_def)



lemma example_target: "request_target ''/a%20b?x=+'' = Target ''/a b'' ''x= ''"
proof -
  have "request_path_is_safe ''/a%20b?x=+''"
    by (simp add: request_path_is_safe_def target_path_def BUFSIZ_def path_fixpoint.simps
        path_hex_def cclass path_bad_byte_def)
  moreover have "axil_url_decode ''/a%20b?x=+'' BUFSIZ = ''/a b?x= ''"
    by (simp add: axil_url_decode_eq BUFSIZ_def hex_digit_value_def)
  ultimately show ?thesis by (simp add: request_target_def BUFSIZ_def)
qed


text \<open>The last segment is not covered: a path that encodes a question mark right after
  \<open>..\<close> passes the check, and the request is then served under a URI that ends in
  \<open>..\<close>.\<close>

theorem encoded_question_mark_hides_dotdot:
  "request_target ''/..%3f'' = Target ''/..'' [] \<and> ''..'' \<in> set (segments ''/..'')"
proof -
  have "request_path_is_safe ''/..%3f''"
    by (simp add: request_path_is_safe_def target_path_def BUFSIZ_def path_fixpoint.simps
        path_hex_def tolower_def cclass path_bad_byte_def)
  moreover have "axil_url_decode ''/..%3f'' BUFSIZ = ''/..?''"
    by (simp add: axil_url_decode_eq BUFSIZ_def hex_digit_value_def)
  ultimately show ?thesis by (simp add: request_target_def BUFSIZ_def)
qed

end
