(* ===== verification/Axil_Route.thy ===== *)
theory Axil_Route
  imports Axil_Path
begin

text \<open>
  The route matcher of \<open>src/libaxil.c\<close> (lines 2028 to 2218): one pattern against one
  path, the comparison of two matches, and the choice among the registered patterns.

  A pattern or path is the string from the C pointer on, so \<open>*pat\<close> is its head and the
  end of the list is the NUL.  A failed match returns \<open>None\<close>: the caller never looks at
  the half-filled match of a failed call.  The registered handlers are the entries in
  the order the table iterates them; a handler pointer may be null (\<open>None\<close>).

  The lemmas: the pointer loop computes a specification on path components; the query
  and a trailing slash never change a match; captured values are single non-empty
  components; the comparison is a strict weak order, so the scan keeps a best match.
\<close>

section \<open>One pattern, one path\<close>

record pattern_param =
  env_key :: string
  param_value :: string

record pattern_match_t =
  matched :: bool
  literal_chars :: nat
  param_count :: nat
  wildcard_count :: nat
  params :: "pattern_param list"

definition no_match :: pattern_match_t where
  "no_match = \<lparr>matched = False, literal_chars = 0, param_count = 0, wildcard_count = 0, params = []\<rparr>"

definition PATTERN_PARAMS_MAX :: nat where
  "PATTERN_PARAMS_MAX = 16"

definition PATTERN_BUF :: nat where
  "PATTERN_BUF = 256"

text \<open>\<open>!*p || *p == '?'\<close>\<close>

definition at_end :: "string \<Rightarrow> bool" where
  "at_end s \<longleftrightarrow> (case s of [] \<Rightarrow> True | c # _ \<Rightarrow> c = CHR ''?'')"

fun skip_slashes :: "string \<Rightarrow> string" where
  "skip_slashes [] = []"
| "skip_slashes (c # cs) =
     (if c = CHR ''/'' \<and> (at_end cs \<or> hd cs = CHR ''/'') then skip_slashes cs else c # cs)"

definition terminal_wildcard :: "string \<Rightarrow> bool" where
  "terminal_wildcard pat \<longleftrightarrow>
     (case pat of [] \<Rightarrow> False
      | c # cs \<Rightarrow> c = CHR ''*'' \<and> (at_end cs \<or> (hd cs = CHR ''/'' \<and> at_end (tl cs))))"

definition seg_char :: "char \<Rightarrow> bool" where
  "seg_char c \<longleftrightarrow> c \<noteq> CHR ''/'' \<and> c \<noteq> CHR ''?''"

definition param_key :: "string \<Rightarrow> string" where
  "param_key seg = snprintf_trunc PATTERN_BUF (''PATTERN_PARAM_'' @ map toupper (tl seg))"

definition capture :: "string \<Rightarrow> string \<Rightarrow> pattern_match_t \<Rightarrow> pattern_match_t" where
  "capture ps us m = m\<lparr>params := params m @ [\<lparr>env_key = param_key ps, param_value = us\<rparr>],
                        param_count := param_count m + 1\<rparr>"

lemma skip_slashes_length: "length (skip_slashes s) \<le> length s"
  by (induction s) auto

lemma at_end_Nil [simp]: "at_end []"
  by (simp add: at_end_def)

lemma not_at_end_hd: "\<not> at_end s \<Longrightarrow> s \<noteq> [] \<and> hd s \<noteq> CHR ''?''"
  by (auto simp: at_end_def split: list.splits)

lemma tl_shorter: "\<not> at_end s \<Longrightarrow> length (tl s) < length s"
  using not_at_end_hd [of s] by (cases s) auto

lemma dropWhile_shorter: "\<not> at_end s \<Longrightarrow> P (hd s) \<Longrightarrow> length (dropWhile P s) < length s"
  using not_at_end_hd [of s] length_dropWhile_le [of P "tl s"] by (cases s) auto

function pattern_match_loop :: "string \<Rightarrow> string \<Rightarrow> pattern_match_t \<Rightarrow> pattern_match_t option" where
  "pattern_match_loop pat0 path0 m =
     (let pat = skip_slashes pat0; path = skip_slashes path0 in
      if at_end pat \<and> at_end path then Some (m\<lparr>matched := True\<rparr>)
      else if at_end pat \<or> at_end path then None
      else if terminal_wildcard pat then
        Some (m\<lparr>wildcard_count := wildcard_count m + 1, matched := True\<rparr>)
      else if hd pat = CHR ''/'' \<or> hd path = CHR ''/'' then
        (if hd pat \<noteq> hd path then None else pattern_match_loop (tl pat) (tl path) m)
      else
        let ps = takeWhile seg_char pat; pat' = dropWhile seg_char pat;
            us = takeWhile seg_char path; path' = dropWhile seg_char path in
        if hd ps = CHR '':'' then
          (if us = [] then None
           else if PATTERN_PARAMS_MAX \<le> length (params m) then None
           else if PATTERN_BUF \<le> length us then None
           else pattern_match_loop pat' path' (capture ps us m))
        else if ps \<noteq> us then None
        else pattern_match_loop pat' path' (m\<lparr>literal_chars := literal_chars m + length ps\<rparr>))"
  by pat_completeness auto
termination
proof (relation "measure (\<lambda>(pat, path, m). length pat)", goal_cases)
  case 1
  then show ?case by simp
next
  case (2 pat0 path0 m pat path)
  then show ?case
    using tl_shorter [of pat] skip_slashes_length [of pat0] by simp
next
  case (3 pat0 path0 m pat path ps pat' us path')
  then show ?case
    using dropWhile_shorter [of pat seg_char] not_at_end_hd [of pat] skip_slashes_length [of pat0]
    by (simp add: seg_char_def)
next
  case (4 pat0 path0 m pat path ps pat' us path')
  then show ?case
    using dropWhile_shorter [of pat seg_char] not_at_end_hd [of pat] skip_slashes_length [of pat0]
    by (simp add: seg_char_def)
qed

declare pattern_match_loop.simps [simp del]

definition pattern_match :: "string \<Rightarrow> string \<Rightarrow> pattern_match_t option" where
  "pattern_match pat path = pattern_match_loop pat path no_match"

section \<open>Choosing among patterns\<close>

definition pattern_better_match :: "pattern_match_t \<Rightarrow> pattern_match_t \<Rightarrow> bool" where
  "pattern_better_match candidate best =
     (if \<not> matched best then True
      else if wildcard_count candidate \<noteq> wildcard_count best
      then wildcard_count candidate < wildcard_count best
      else if literal_chars candidate \<noteq> literal_chars best
      then literal_chars candidate > literal_chars best
      else if param_count candidate \<noteq> param_count best
      then param_count candidate < param_count best
      else False)"

text \<open>Lines 2194 to 2202: the path with the method first, then the bare URI.\<close>

definition match_either :: "string \<Rightarrow> string \<Rightarrow> string \<Rightarrow> pattern_match_t option" where
  "match_either pattern path_with_method document_uri =
     (if CHR '':'' \<notin> set pattern \<and> CHR ''*'' \<notin> set pattern then None
      else case pattern_match pattern path_with_method of
          Some m \<Rightarrow> Some m
        | None \<Rightarrow> pattern_match pattern document_uri)"

fun match_scan ::
  "(string \<times> 'h option) list \<Rightarrow> string \<Rightarrow> string \<Rightarrow> 'h option \<times> pattern_match_t
     \<Rightarrow> 'h option \<times> pattern_match_t" where
  "match_scan [] path_with_method document_uri best = best"
| "match_scan ((pattern, handler) # rest) path_with_method document_uri (best_handler, best_match) =
     (case match_either pattern path_with_method document_uri of
        None \<Rightarrow> match_scan rest path_with_method document_uri (best_handler, best_match)
      | Some candidate \<Rightarrow>
          match_scan rest path_with_method document_uri
            (if pattern_better_match candidate best_match then (handler, candidate)
             else (best_handler, best_match)))"

definition pattern_commit_params :: "('e \<Rightarrow> string \<Rightarrow> string \<Rightarrow> 'e) \<Rightarrow> pattern_match_t \<Rightarrow> 'e \<Rightarrow> 'e" where
  "pattern_commit_params env_put match env =
     foldl (\<lambda>e p. env_put e (env_key p) (param_value p)) env (params match)"

text \<open>The chosen handler and the environment after its captures were stored.\<close>

definition axil_match_pattern ::
  "(string \<times> 'h option) list \<Rightarrow> ('e \<Rightarrow> string \<Rightarrow> string \<Rightarrow> 'e) \<Rightarrow> string \<Rightarrow> string \<Rightarrow> 'e
     \<Rightarrow> 'h option \<times> 'e" where
  "axil_match_pattern entries env_put path_with_method document_uri env =
     (case match_scan entries path_with_method document_uri (None, no_match) of
        (None, _) \<Rightarrow> (None, env)
      | (Some h, best_match) \<Rightarrow> (Some h, pattern_commit_params env_put best_match env))"

section \<open>Specification on components\<close>

text \<open>The non-empty components of a path, its query cut off, and whether it is absolute.\<close>

definition comps :: "string \<Rightarrow> string list" where
  "comps s = filter (\<lambda>x. x \<noteq> []) (segments (target_path s))"

definition rooted :: "string \<Rightarrow> bool" where
  "rooted s \<longleftrightarrow> s \<noteq> [] \<and> hd s = CHR ''/''"

fun route_spec :: "string list \<Rightarrow> string list \<Rightarrow> pattern_match_t \<Rightarrow> pattern_match_t option" where
  "route_spec [] [] m = Some (m\<lparr>matched := True\<rparr>)"
| "route_spec (p # ps) (u # us) m =
     (if p = ''*'' \<and> ps = [] then Some (m\<lparr>wildcard_count := wildcard_count m + 1, matched := True\<rparr>)
      else if hd p = CHR '':'' then
        (if PATTERN_PARAMS_MAX \<le> length (params m) \<or> PATTERN_BUF \<le> length u then None
         else route_spec ps us (capture p u m))
      else if p = u then route_spec ps us (m\<lparr>literal_chars := literal_chars m + length p\<rparr>)
      else None)"
| "route_spec _ _ m = None"

text \<open>
  A path and a pattern both rooted or both not, except that a bare \<open>*\<close> matches
  anything that is not empty.
\<close>

definition match_spec :: "string \<Rightarrow> string \<Rightarrow> pattern_match_t \<Rightarrow> pattern_match_t option" where
  "match_spec pat path m =
     (if comps pat \<noteq> [] \<and> comps path \<noteq> [] \<and> rooted pat \<noteq> rooted path
         \<and> \<not> (comps pat = [''*''] \<and> \<not> rooted pat)
      then None else route_spec (comps pat) (comps path) m)"

lemma target_path_Nil [simp]: "target_path [] = []"
  by (simp add: target_path_def)

lemma target_path_Cons:
  "target_path (c # s) = (if c = CHR ''?'' then [] else c # target_path s)"
  by (simp add: target_path_def)

lemma comps_Nil [simp]: "comps [] = []"
  by (simp add: comps_def)

lemma comps_slash [simp]: "comps (CHR ''/'' # s) = comps s"
  by (simp add: comps_def target_path_Cons)

lemma comps_at_end: "at_end s \<Longrightarrow> comps s = []"
  by (auto simp: at_end_def comps_def target_path_Cons split: list.splits)

lemma comps_skip [simp]: "comps (skip_slashes s) = comps s"
  by (induction s) auto

lemma comps_segment:
  "ps \<noteq> [] \<Longrightarrow> list_all seg_char ps \<Longrightarrow> s = [] \<or> \<not> seg_char (hd s) \<Longrightarrow> comps (ps @ s) = ps # comps s"
proof (induction ps)
  case Nil
  then show ?case by simp
next
  case (Cons c cs)
  have c: "c \<noteq> CHR ''/''" "c \<noteq> CHR ''?''" using Cons.prems(2) by (auto simp: seg_char_def)
  show ?case
  proof (cases "cs = []")
    case True
    show ?thesis
    proof (cases s)
      case Nil
      with True c show ?thesis by (simp add: comps_def target_path_Cons)
    next
      case (Cons d ds)
      with Cons.prems True c show ?thesis
        by (auto simp: comps_def target_path_Cons seg_char_def split: list.splits)
    qed
  next
    case False
    then have "comps (cs @ s) = cs # comps s" using Cons by simp
    moreover obtain t ts where "segments (target_path (cs @ s)) = t # ts"
      by (metis neq_Nil_conv segments_nonempty)
    moreover have "t \<noteq> []"
      using calculation False Cons.prems(2)
      by (cases cs) (auto simp: target_path_Cons seg_char_def split: list.splits)
    ultimately show ?thesis using c by (simp add: comps_def target_path_Cons)
  qed
qed

lemma comps_takeWhile:
  assumes "\<not> at_end s" "hd s \<noteq> CHR ''/''"
  shows "comps s = takeWhile seg_char s # comps (dropWhile seg_char s)"
    and "takeWhile seg_char s \<noteq> []"
proof -
  from assms show ne: "takeWhile seg_char s \<noteq> []"
    by (cases s) (auto simp: at_end_def seg_char_def)
  have "list_all seg_char (takeWhile seg_char s)"
    by (auto simp: list_all_iff dest: set_takeWhileD)
  moreover have "dropWhile seg_char s = [] \<or> \<not> seg_char (hd (dropWhile seg_char s))"
    using hd_dropWhile by blast
  ultimately have "comps (takeWhile seg_char s @ dropWhile seg_char s)
      = takeWhile seg_char s # comps (dropWhile seg_char s)"
    by (rule comps_segment [OF ne])
  then show "comps s = takeWhile seg_char s # comps (dropWhile seg_char s)"
    by (simp only: takeWhile_dropWhile_id)
qed

lemma skip_not_end_comps: "\<not> at_end (skip_slashes s) \<Longrightarrow> comps s \<noteq> []"
proof (induction s)
  case Nil
  then show ?case by (simp add: at_end_def)
next
  case (Cons c cs)
  show ?case
  proof (cases "c = CHR ''/''")
    case True
    show ?thesis
    proof (cases "at_end cs \<or> hd cs = CHR ''/''")
      case True
      with Cons \<open>c = _\<close> show ?thesis by simp
    next
      case False
      with comps_takeWhile(1) [of cs] \<open>c = _\<close> show ?thesis by simp
    qed
  next
    case False
    with Cons.prems have "\<not> at_end (c # cs)" by simp
    with comps_takeWhile(1) [of "c # cs"] False show ?thesis by simp
  qed
qed

lemma at_end_skip_iff: "at_end (skip_slashes s) \<longleftrightarrow> comps s = []"
  using skip_not_end_comps comps_at_end [of "skip_slashes s"] by auto

lemma rooted_skip: "comps s \<noteq> [] \<Longrightarrow> rooted (skip_slashes s) = rooted s"
proof (induction s)
  case Nil
  then show ?case by simp
next
  case (Cons c cs)
  show ?case
  proof (cases "c = CHR ''/'' \<and> (at_end cs \<or> hd cs = CHR ''/'')")
    case True
    with Cons.prems have "comps cs \<noteq> []" by simp
    moreover from this have "hd cs = CHR ''/''" "cs \<noteq> []"
      using True comps_at_end by auto
    ultimately show ?thesis using Cons.IH True by (simp add: rooted_def)
  next
    case False
    then show ?thesis by (auto simp: rooted_def)
  qed
qed

lemma skip_slashes_suffix: "suffix (skip_slashes s) s"
  by (induction s) (auto simp: suffix_Cons)

lemma skip_slash_next:
  "\<not> at_end (skip_slashes s) \<Longrightarrow> hd (skip_slashes s) = CHR ''/'' \<Longrightarrow>
     \<not> at_end (tl (skip_slashes s)) \<and> hd (tl (skip_slashes s)) \<noteq> CHR ''/''"
  by (induction s) auto

lemma no_sublist_suffix: "suffix a b \<Longrightarrow> \<not> sublist x b \<Longrightarrow> \<not> sublist x a"
  using sublist_order.order_trans suffix_imp_sublist by blast

lemma terminal_wildcard_iff:
  assumes "\<not> sublist ''*//'' p" "\<not> at_end p" "hd p \<noteq> CHR ''/''"
  shows "terminal_wildcard p \<longleftrightarrow> comps p = [''*'']"
proof -
  obtain c cs where p: "p = c # cs" "seg_char c"
    using assms(3) not_at_end_hd [OF assms(2)] by (cases p) (auto simp: seg_char_def)
  note cp = comps_takeWhile(1) [OF assms(2,3)]
  show ?thesis
  proof
    assume w: "terminal_wildcard p"
    then have "c = CHR ''*''" "takeWhile seg_char cs = []" "comps (dropWhile seg_char cs) = []"
      using p by (cases cs; auto simp: terminal_wildcard_def at_end_def seg_char_def comps_def
          target_path_Cons split: list.splits)+
    with cp p show "comps p = [''*'']" by simp
  next
    assume "comps p = [''*'']"
    with cp p have c: "c = CHR ''*''" "takeWhile seg_char cs = []" "comps (dropWhile seg_char cs) = []"
      by (simp_all split: if_splits)
    then have d: "cs = [] \<or> \<not> seg_char (hd cs)" "comps cs = []" by (cases cs; simp split: if_splits)+
    show "terminal_wildcard p"
    proof (cases "cs \<noteq> [] \<and> hd cs = CHR ''/''")
      case True
      then obtain r where r: "cs = CHR ''/'' # r" by (cases cs) auto
      then have "r = [] \<or> hd r \<noteq> CHR ''/''"
        using assms(1) p c by (cases r) (auto simp: sublist_Cons_right)
      moreover have "at_end (skip_slashes r)" using d r by (simp add: at_end_skip_iff)
      ultimately have "at_end r" by (cases r) (auto split: if_splits)
      with p c r show ?thesis by (simp add: terminal_wildcard_def)
    next
      case False
      with d have "at_end cs" by (cases cs) (auto simp: at_end_def seg_char_def)
      with p c show ?thesis by (simp add: terminal_wildcard_def)
    qed
  qed
qed

lemma rooted_dropWhile: "comps (dropWhile seg_char s) \<noteq> [] \<Longrightarrow> rooted (dropWhile seg_char s)"
proof -
  assume ne: "comps (dropWhile seg_char s) \<noteq> []"
  then obtain c cs where c: "dropWhile seg_char s = c # cs" by (cases "dropWhile seg_char s") auto
  then have "\<not> seg_char c" by (metis hd_dropWhile list.distinct(1) list.sel(1))
  moreover have "c \<noteq> CHR ''?''" using ne c by (auto simp: comps_def target_path_Cons)
  ultimately show ?thesis using c by (simp add: rooted_def seg_char_def)
qed

lemma match_spec_relative:
  "match_spec (dropWhile seg_char a) (dropWhile seg_char b) m
     = route_spec (comps (dropWhile seg_char a)) (comps (dropWhile seg_char b)) m"
  using rooted_dropWhile by (auto simp: match_spec_def)

lemma pattern_match_loop_spec:
  "\<not> sublist ''*//'' pat \<Longrightarrow> pattern_match_loop pat path m = match_spec pat path m"
proof (induction pat path m rule: pattern_match_loop.induct)
  case (1 pat0 path0 m)
  let ?p = "skip_slashes pat0" and ?q = "skip_slashes path0"
  have ns: "\<not> sublist ''*//'' ?p"
    using "1.prems" no_sublist_suffix skip_slashes_suffix by blast
  show ?case
  proof (cases "at_end ?p \<or> at_end ?q")
    case True
    then show ?thesis
      by (subst pattern_match_loop.simps)
        (cases "comps pat0"; cases "comps path0"; simp add: Let_def at_end_skip_iff match_spec_def)
  next
    case live: False
    then have ne: "comps pat0 \<noteq> []" "comps path0 \<noteq> []" by (simp_all add: at_end_skip_iff)
    then have rt: "rooted ?p = rooted pat0" "rooted ?q = rooted path0"
      by (simp_all add: rooted_skip)
    have nn: "?p \<noteq> []" "?q \<noteq> []" using live not_at_end_hd by auto
    show ?thesis
    proof (cases "terminal_wildcard ?p")
      case wild: True
      have "hd ?p \<noteq> CHR ''/''" using wild by (auto simp: terminal_wildcard_def split: list.splits)
      then have "comps pat0 = [''*'']" "\<not> rooted pat0"
        using terminal_wildcard_iff [OF ns] wild live rt by (auto simp: rooted_def)
      with ne live wild show ?thesis
        by (subst pattern_match_loop.simps) (cases "comps path0"; simp add: Let_def match_spec_def)
    next
      case nowild: False
      have bare: "comps pat0 \<noteq> [''*''] \<or> rooted pat0"
        using terminal_wildcard_iff [OF ns] nowild live rt nn by (auto simp: rooted_def)
      show ?thesis
      proof (cases "hd ?p = CHR ''/'' \<or> hd ?q = CHR ''/''")
        case slash: True
        show ?thesis
        proof (cases "hd ?p = hd ?q")
          case False
          then have "rooted pat0 \<noteq> rooted path0" using slash rt nn by (auto simp: rooted_def)
          with False slash live nowild ne bare show ?thesis
            by (subst pattern_match_loop.simps) (simp add: Let_def match_spec_def)
        next
          case True
          have tls: "comps (tl ?p) = comps pat0" "comps (tl ?q) = comps path0"
            using True slash nn comps_slash [of "tl ?p"] comps_slash [of "tl ?q"]
            by (metis comps_skip list.collapse)+
          have "\<not> rooted (tl ?p)" "\<not> rooted (tl ?q)"
            using skip_slash_next [of pat0] skip_slash_next [of path0] True slash live
            by (auto simp: rooted_def)
          moreover have "rooted pat0" "rooted path0"
            using True slash rt nn by (auto simp: rooted_def)
          ultimately have eq: "match_spec (tl ?p) (tl ?q) m = match_spec pat0 path0 m"
            using tls by (simp add: match_spec_def)
          have "\<not> sublist ''*//'' (tl ?p)"
            using ns no_sublist_suffix suffix_tl by blast
          then have "pattern_match_loop (tl ?p) (tl ?q) m = match_spec (tl ?p) (tl ?q) m"
            using "1.IH"(1) [OF refl refl] True slash live nowild by simp
          with eq True slash live nowild show ?thesis
            by (subst pattern_match_loop.simps) (simp add: Let_def)
        qed
      next
        case noslash: False
        let ?ps = "takeWhile seg_char ?p" and ?us = "takeWhile seg_char ?q"
        let ?p' = "dropWhile seg_char ?p" and ?q' = "dropWhile seg_char ?q"
        have cp: "comps pat0 = ?ps # comps ?p'" and cq: "comps path0 = ?us # comps ?q'"
          and us: "?us \<noteq> []"
          using comps_takeWhile [of ?p] comps_takeWhile [of ?q] live noslash by auto
        have unrooted: "\<not> rooted pat0" "\<not> rooted path0"
          using rt noslash by (auto simp: rooted_def)
        then have spec: "match_spec pat0 path0 m = route_spec (?ps # comps ?p') (?us # comps ?q') m"
          using cp cq by (simp add: match_spec_def)
        have last: "\<not> (?ps = ''*'' \<and> comps ?p' = [])" using bare unrooted cp by auto
        have ns': "\<not> sublist ''*//'' ?p'"
          using ns no_sublist_suffix suffix_dropWhile by blast
        note IH = "1.IH"(2,3) [OF refl refl _ _ _ _ refl refl refl refl]
        show ?thesis
        proof (cases "hd ?ps = CHR '':''")
          case True
          show ?thesis
          proof (cases "PATTERN_PARAMS_MAX \<le> length (params m) \<or> PATTERN_BUF \<le> length ?us")
            case True
            with \<open>hd ?ps = _\<close> last live nowild noslash spec show ?thesis
              by (subst pattern_match_loop.simps) (auto simp: Let_def)
          next
            case False
            have "pattern_match_loop ?p' ?q' (capture ?ps ?us m) = match_spec ?p' ?q' (capture ?ps ?us m)"
              using IH(1) True us False live nowild noslash ns' by simp
            with True False us last live nowild noslash spec show ?thesis
              by (subst pattern_match_loop.simps) (auto simp: Let_def match_spec_relative)
          qed
        next
          case lit: False
          show ?thesis
          proof (cases "?ps = ?us")
            case False
            with lit last live nowild noslash spec show ?thesis
              by (subst pattern_match_loop.simps) (auto simp: Let_def)
          next
            case True
            let ?m = "m\<lparr>literal_chars := literal_chars m + length ?ps\<rparr>"
            have "pattern_match_loop ?p' ?q' ?m = match_spec ?p' ?q' ?m"
              using IH(2) lit True live nowild noslash ns' by simp
            with True lit last live nowild noslash spec show ?thesis
              by (subst pattern_match_loop.simps) (auto simp: Let_def match_spec_relative)
          qed
        qed
      qed
    qed
  qed
qed

section \<open>Interface: selection by a strict weak order\<close>

text \<open>
  What the scan relies on: among the live candidates, \<open>better\<close> is asymmetric and a
  candidate better than another is better than, or beaten by, any third.
\<close>

fun keep_best :: "('a \<Rightarrow> 'a \<Rightarrow> bool) \<Rightarrow> 'a option \<Rightarrow> 'a \<Rightarrow> 'a option" where
  "keep_best better None x = Some x"
| "keep_best better (Some b) x = (if better x b then Some x else Some b)"

locale selection =
  fixes better :: "'a \<Rightarrow> 'a \<Rightarrow> bool" and live :: "'a \<Rightarrow> bool"
  assumes better_asym: "live a \<Longrightarrow> live b \<Longrightarrow> better a b \<Longrightarrow> \<not> better b a"
    and better_split: "live a \<Longrightarrow> live b \<Longrightarrow> live c \<Longrightarrow> better a c \<Longrightarrow> better a b \<or> better b c"
begin

lemma better_trans: "live a \<Longrightarrow> live b \<Longrightarrow> live c \<Longrightarrow> better a b \<Longrightarrow> better b c \<Longrightarrow> better a c"
  using better_asym better_split by blast

lemma worse_trans: "live a \<Longrightarrow> live b \<Longrightarrow> live c \<Longrightarrow> \<not> better b a \<Longrightarrow> better b c \<Longrightarrow> better a c"
  using better_split by blast

lemma keep_best_first:
  assumes "foldl (keep_best better) None xs = Some b" "\<forall>x\<in>set xs. live x"
  shows "\<exists>ys zs. xs = ys @ b # zs \<and> (\<forall>y\<in>set ys. better b y) \<and> (\<forall>z\<in>set zs. \<not> better z b)"
  using assms
proof (induction xs arbitrary: b rule: rev_induct)
  case Nil
  then show ?case by simp
next
  case (snoc x xs)
  show ?case
  proof (cases "foldl (keep_best better) None xs")
    case None
    then have "xs = []"
      by (cases xs rule: rev_cases) (auto, metis keep_best.simps not_Some_eq option.exhaust)
    with snoc.prems show ?thesis by (intro exI [of _ "[]"] exI [of _ "[]"]) simp
  next
    case (Some c)
    obtain ys zs where s: "xs = ys @ c # zs" "\<forall>y\<in>set ys. better c y" "\<forall>z\<in>set zs. \<not> better z c"
      using snoc.IH [OF Some] snoc.prems(2) by auto
    have l: "\<forall>y\<in>set (xs @ [x]). live y" using snoc.prems(2) .
    show ?thesis
    proof (cases "better x c")
      case True
      then have "b = x" using snoc.prems(1) Some by simp
      moreover have "\<forall>y\<in>set xs. better x y"
      proof
        fix y assume "y \<in> set xs"
        then consider "better c y" | "y = c" | "\<not> better y c" "y \<in> set zs" using s by auto
        then show "better x y"
          using True l s(1) \<open>y \<in> set xs\<close> better_trans [of x c y] worse_trans [of y x c] better_split [of x y c]
          by cases auto
      qed
      ultimately show ?thesis by (intro exI [of _ xs] exI [of _ "[]"]) simp
    next
      case False
      then have "b = c" using snoc.prems(1) Some by simp
      with s False show ?thesis by (intro exI [of _ ys] exI [of _ "zs @ [x]"]) auto
    qed
  qed
qed

lemma keep_best_None: "foldl (keep_best better) None xs = None \<longleftrightarrow> xs = []"
proof (cases xs rule: rev_cases)
  case (snoc ys y)
  then show ?thesis by (cases "foldl (keep_best better) None ys") auto
qed simp

lemma keep_best_unique:
  assumes "b \<in> set xs" "\<forall>x\<in>set xs. live x" "\<forall>x\<in>set xs. x = b \<or> better b x"
  shows "foldl (keep_best better) None xs = Some b"
proof -
  have "xs \<noteq> []" using assms(1) by auto
  then obtain c where c: "foldl (keep_best better) None xs = Some c"
    using keep_best_None by blast
  obtain ys zs where s: "xs = ys @ c # zs" "\<forall>y\<in>set ys. better c y" "\<forall>z\<in>set zs. \<not> better z c"
    using keep_best_first [OF c assms(2)] by blast
  have "c = b"
  proof (rule ccontr)
    assume "c \<noteq> b"
    with assms(3) s(1) have "better b c" by auto
    moreover from \<open>c \<noteq> b\<close> assms(1) s(1) have "b \<in> set ys \<or> b \<in> set zs" by auto
    moreover have "live b" "live c" using assms(1,2) s(1) by auto
    ultimately show False using s(2,3) better_asym by blast
  qed
  with c show ?thesis by simp
qed

end

abbreviation better_entry :: "'h \<times> pattern_match_t \<Rightarrow> 'h \<times> pattern_match_t \<Rightarrow> bool" where
  "better_entry a b \<equiv> pattern_better_match (snd a) (snd b)"

interpretation routes: selection better_entry "\<lambda>a. matched (snd a)"
  by unfold_locales (auto simp: pattern_better_match_def split: if_splits)

text \<open>The entries that match, with their matches, in the order of the table.\<close>

definition candidates ::
  "(string \<times> 'h option) list \<Rightarrow> string \<Rightarrow> string \<Rightarrow> ('h option \<times> pattern_match_t) list" where
  "candidates entries pm du =
     List.map_filter (\<lambda>(p, h). map_option (\<lambda>m. (h, m)) (match_either p pm du)) entries"

text \<open>What every capture of a match looks like, whatever the pattern.\<close>

definition captures_ok :: "pattern_match_t \<Rightarrow> bool" where
  "captures_ok m \<longleftrightarrow> param_count m = length (params m) \<and> length (params m) \<le> PATTERN_PARAMS_MAX \<and>
     (\<forall>p\<in>set (params m). param_value p \<noteq> [] \<and> list_all seg_char (param_value p)
        \<and> length (param_value p) < PATTERN_BUF \<and> length (env_key p) < PATTERN_BUF
        \<and> prefix ''PATTERN_PARAM_'' (env_key p))"

lemma param_key_bounds: "length (param_key s) < PATTERN_BUF" "prefix ''PATTERN_PARAM_'' (param_key s)"
  by (auto simp: param_key_def PATTERN_BUF_def snprintf_trunc_def min_def)

lemma captures_ok_capture:
  assumes "captures_ok m" "\<not> PATTERN_PARAMS_MAX \<le> length (params m)" "u \<noteq> []" "list_all seg_char u"
    "\<not> PATTERN_BUF \<le> length u"
  shows "captures_ok (capture p u m)"
  using assms param_key_bounds [of p] by (auto simp: captures_ok_def capture_def)

lemma captures_ok_literal: "captures_ok m \<Longrightarrow> captures_ok (m\<lparr>literal_chars := n\<rparr>)"
  by (simp add: captures_ok_def)

lemma list_all_takeWhile: "list_all P (takeWhile P xs)"
  by (auto simp: list_all_iff dest: set_takeWhileD)

lemma pattern_match_loop_ok:
  "pattern_match_loop pat path m = Some m' \<Longrightarrow> captures_ok m \<Longrightarrow> captures_ok m' \<and> matched m'"
proof (induction pat path m rule: pattern_match_loop.induct)
  case (1 pat0 path0 m)
  let ?p = "skip_slashes pat0" and ?q = "skip_slashes path0"
  let ?ps = "takeWhile seg_char ?p" and ?us = "takeWhile seg_char ?q"
  note step = pattern_match_loop.simps [of pat0 path0 m]
  note IH2 = "1.IH"(2,3) [OF refl refl _ _ _ _ refl refl refl refl]
  show ?case
  proof (cases "at_end ?p \<or> at_end ?q \<or> terminal_wildcard ?p")
    case True
    with "1.prems" show ?thesis
      by (auto simp: step Let_def captures_ok_def split: if_splits)
  next
    case live: False
    show ?thesis
    proof (cases "hd ?p = CHR ''/'' \<or> hd ?q = CHR ''/''")
      case True
      with live "1.prems" "1.IH"(1) [OF refl refl] show ?thesis
        by (simp add: step Let_def split: if_splits)
    next
      case noslash: False
      show ?thesis
      proof (cases "hd ?ps = CHR '':''")
        case True
        with "1.prems"(1) live noslash have g: "?us \<noteq> []" "\<not> PATTERN_PARAMS_MAX \<le> length (params m)"
          "\<not> PATTERN_BUF \<le> length ?us"
          "pattern_match_loop (dropWhile seg_char ?p) (dropWhile seg_char ?q) (capture ?ps ?us m) = Some m'"
          by (simp_all add: step Let_def split: if_splits)
        have "captures_ok (capture ?ps ?us m)"
          using captures_ok_capture [OF "1.prems"(2) g(2,1) list_all_takeWhile g(3)] .
        with g live noslash True IH2(1) show ?thesis by simp
      next
        case False
        with "1.prems"(1) live noslash have "?ps = ?us"
          "pattern_match_loop (dropWhile seg_char ?p) (dropWhile seg_char ?q)
             (m\<lparr>literal_chars := literal_chars m + length ?ps\<rparr>) = Some m'"
          by (simp_all add: step Let_def split: if_splits)
        with live noslash False IH2(2) captures_ok_literal [OF "1.prems"(2)] show ?thesis by simp
      qed
    qed
  qed
qed

lemma captures_ok_no_match: "captures_ok no_match"
  by (simp add: captures_ok_def no_match_def)

lemma pattern_match_ok: "pattern_match pat path = Some m \<Longrightarrow> captures_ok m \<and> matched m"
  using pattern_match_loop_ok captures_ok_no_match unfolding pattern_match_def by blast

lemma match_either_matched: "match_either p pm du = Some m \<Longrightarrow> matched m"
  using pattern_match_ok by (fastforce simp: match_either_def split: if_splits option.splits)

lemma candidates_Nil [simp]: "candidates [] pm du = []"
  by (simp add: candidates_def)

lemma candidates_Cons [simp]:
  "candidates ((p, h) # es) pm du =
     (case match_either p pm du of None \<Rightarrow> candidates es pm du | Some m \<Rightarrow> (h, m) # candidates es pm du)"
  by (simp add: candidates_def List.map_filter_simps split: option.splits)

lemma candidates_live: "x \<in> set (candidates es pm du) \<Longrightarrow> matched (snd x)"
proof (induction es)
  case (Cons e es)
  then show ?case
    using match_either_matched [of "fst e" pm du] by (cases e) (auto split: option.splits)
qed simp

lemma match_scan_fold:
  "matched bm \<Longrightarrow> Some (match_scan es pm du (h, bm))
     = foldl (keep_best better_entry) (Some (h, bm)) (candidates es pm du)"
proof (induction es arbitrary: h bm)
  case Nil
  then show ?case by simp
next
  case (Cons e es)
  then show ?case by (cases e) (auto split: option.splits dest: match_either_matched)
qed

lemma match_scan_keep_best:
  "match_scan es pm du (None, no_match) =
     (case foldl (keep_best better_entry) None (candidates es pm du) of
        None \<Rightarrow> (None, no_match) | Some b \<Rightarrow> b)"
proof (induction es)
  case Nil
  then show ?case by simp
next
  case (Cons e es)
  obtain p h where e: "e = (p, h)" by (cases e)
  show ?case
  proof (cases "match_either p pm du")
    case None
    with Cons e show ?thesis by simp
  next
    case (Some m)
    then have "Some (match_scan es pm du (h, m))
        = foldl (keep_best better_entry) (Some (h, m)) (candidates es pm du)"
      by (intro match_scan_fold) (rule match_either_matched)
    moreover have "pattern_better_match m no_match"
      by (simp add: pattern_better_match_def no_match_def)
    ultimately show ?thesis using Some e by (auto split: option.split)
  qed
qed

lemma candidates_split:
  "candidates es pm du = ys @ (h, m) # zs \<Longrightarrow>
     \<exists>pre p post. es = pre @ (p, h) # post \<and> match_either p pm du = Some m
        \<and> candidates pre pm du = ys \<and> candidates post pm du = zs"
proof (induction es arbitrary: ys)
  case Nil
  then show ?case by simp
next
  case (Cons e es)
  obtain q g where e: "e = (q, g)" by (cases e)
  show ?case
  proof (cases "match_either q pm du")
    case None
    with Cons e obtain pre p post where "es = pre @ (p, h) # post" "match_either p pm du = Some m"
      "candidates pre pm du = ys" "candidates post pm du = zs" by fastforce
    with None e show ?thesis by (intro exI [of _ "e # pre"]) auto
  next
    case (Some n)
    show ?thesis
    proof (cases ys)
      case Nil
      with Some e Cons.prems show ?thesis
        by (intro exI [of _ "[]"] exI [of _ q] exI [of _ es]) auto
    next
      case (Cons y ys')
      with Some e Cons.prems have "candidates es pm du = ys' @ (h, m) # zs" "y = (g, n)" by auto
      with Cons.IH obtain pre p post where "es = pre @ (p, h) # post" "match_either p pm du = Some m"
        "candidates pre pm du = ys'" "candidates post pm du = zs" by blast
      with Some e Cons \<open>y = _\<close> show ?thesis by (intro exI [of _ "e # pre"]) auto
    qed
  qed
qed

lemma candidates_memI:
  "(p, h) \<in> set es \<Longrightarrow> match_either p pm du = Some m \<Longrightarrow> (h, m) \<in> set (candidates es pm du)"
  by (induction es) (auto split: option.splits)

text \<open>The order the choice is meant to follow: fewer wildcards, then more literal characters, then
  fewer parameters.\<close>

definition more_specific :: "pattern_match_t \<Rightarrow> pattern_match_t \<Rightarrow> bool" where
  "more_specific a b \<longleftrightarrow> wildcard_count a < wildcard_count b
     \<or> wildcard_count a = wildcard_count b \<and> (literal_chars b < literal_chars a
        \<or> literal_chars a = literal_chars b \<and> param_count a < param_count b)"

lemma better_more_specific: "matched b \<Longrightarrow> pattern_better_match a b = more_specific a b"
  by (auto simp: pattern_better_match_def more_specific_def)

lemma candidates_memD:
  "x \<in> set (candidates es pm du) \<Longrightarrow> \<exists>(p, h) \<in> set es. \<exists>m. match_either p pm du = Some m \<and> x = (h, m)"
  by (induction es) (auto split: option.splits)

text \<open>An entry strictly better than every other that matches is chosen, wherever it stands in the table.\<close>

lemma match_pattern_unique:
  assumes "(p, Some h) \<in> set entries" "match_either p pm du = Some m"
    "\<forall>(q, g) \<in> set entries. \<forall>n. match_either q pm du = Some n \<longrightarrow> (g, n) = (Some h, m) \<or> more_specific m n"
  shows "axil_match_pattern entries env_put pm du env = (Some h, pattern_commit_params env_put m env)"
proof -
  have m: "matched m" using match_either_matched [OF assms(2)] .
  have "x = (Some h, m) \<or> better_entry (Some h, m) x" if x: "x \<in> set (candidates entries pm du)" for x
  proof -
    obtain q g n where q: "(q, g) \<in> set entries" "match_either q pm du = Some n" "x = (g, n)"
      using candidates_memD [OF x] by blast
    then have "matched n" by (simp add: match_either_matched)
    with q assms(3) show ?thesis using better_more_specific by fastforce
  qed
  moreover have "(Some h, m) \<in> set (candidates entries pm du)" using candidates_memI [OF assms(1,2)] .
  ultimately have "foldl (keep_best better_entry) None (candidates entries pm du) = Some (Some h, m)"
    using candidates_live by (intro routes.keep_best_unique) fastforce+
  then show ?thesis by (simp add: axil_match_pattern_def match_scan_keep_best)
qed

lemma match_pattern_none:
  "\<forall>(p, h) \<in> set entries. match_either p pm du = None \<Longrightarrow> axil_match_pattern entries env_put pm du env = (None, env)"
proof -
  assume "\<forall>(p, h) \<in> set entries. match_either p pm du = None"
  then have "candidates entries pm du = []" using candidates_memD [of _ entries pm du] by (cases "candidates entries pm du") fastforce+
  then show ?thesis by (simp add: axil_match_pattern_def match_scan_keep_best)
qed

section \<open>Properties\<close>

text \<open>C25. \<open>pattern_match\<close> computes the component-wise specification: it compares the
  non-empty components of pattern and path, in order, a \<open>:name\<close> component taking any one
  component of the path and a final \<open>*\<close> the rest; the query strings and repeated trailing
  slashes play no part.  The pattern must not contain \<open>*//\<close>.\<close>

theorem pattern_match_refines_spec:
  "\<not> sublist ''*//'' pat \<Longrightarrow> pattern_match pat path = match_spec pat path no_match"
  unfolding pattern_match_def by (rule pattern_match_loop_spec)

theorem pattern_match_refines_spec_witness:
  "pattern_match ''/a/:id'' ''/a/7/?x=1'' = match_spec ''/a/:id'' ''/a/7/?x=1'' no_match"
  by (rule pattern_match_refines_spec) (simp add: sublist_Cons_right)

text \<open>Two paths with the same components, both absolute or both relative, match the same
  patterns with the same captures, so a query string or a trailing slash changes nothing.\<close>

theorem match_ignores_query_and_slash:
  assumes "\<not> sublist ''*//'' pat" "path \<noteq> []" "hd path = CHR ''/''"
  shows "pattern_match pat (path @ CHR ''?'' # query) = pattern_match pat path
    \<and> (CHR ''?'' \<notin> set path \<longrightarrow> pattern_match pat (path @ ''/'') = pattern_match pat path)"
proof (intro conjI impI)
  have r: "rooted (path @ s) = rooted path" for s using assms by (simp add: rooted_def)
  have t: "target_path (s @ CHR ''?'' # query) = target_path s" for s
    by (induction s) (simp_all add: target_path_Cons)
  show "pattern_match pat (path @ CHR ''?'' # query) = pattern_match pat path"
    using assms(1) by (simp add: pattern_match_def pattern_match_loop_spec match_spec_def comps_def r t)
next
  assume nq: "CHR ''?'' \<notin> set path"
  have r: "rooted (path @ s) = rooted path" for s using assms by (simp add: rooted_def)
  have "comps (s @ ''/'') = comps s" if "CHR ''?'' \<notin> set s" for s
    using that
  proof (induction s)
    case Nil
    then show ?case by (simp add: comps_def target_path_Cons)
  next
    case (Cons c s)
    have seg: "\<exists>a as b bs. segments (target_path s) = a # as \<and> segments (target_path (s @ ''/'')) = b # bs \<and> a = b"
      using Cons.prems
      by (induction s) (auto simp: target_path_Cons split: list.splits)
    with Cons show ?case
      by (auto simp: comps_def target_path_Cons split: list.splits if_splits)
  qed
  then show "pattern_match pat (path @ ''/'') = pattern_match pat path"
    using nq assms r by (simp add: pattern_match_def pattern_match_loop_spec match_spec_def)
qed

theorem match_ignores_query_and_slash_witness:
  "pattern_match ''/a/*'' (''/a/b'' @ CHR ''?'' # ''x=1'') = pattern_match ''/a/*'' ''/a/b''
   \<and> pattern_match ''/a/*'' (''/a/b'' @ ''/'') = pattern_match ''/a/*'' ''/a/b''"
  using match_ignores_query_and_slash [where pat = "''/a/*''" and path = "''/a/b''" and query = "''x=1''"]
  by (simp add: sublist_Cons_right)

text \<open>C34. Whatever the pattern, a successful match carries at most 16 captures; each is one
  non-empty component of less than 256 bytes, without slash or question mark, stored
  under a \<open>PATTERN_PARAM_\<close> name that fits its buffer.\<close>

theorem match_captures_bounded:
  "pattern_match pat path = Some m \<Longrightarrow> matched m \<and> captures_ok m"
  using pattern_match_ok by blast

theorem match_captures_bounded_witness:
  "captures_ok (\<lparr>matched = True, literal_chars = 1, param_count = 1, wildcard_count = 0,
     params = [\<lparr>env_key = ''PATTERN_PARAM_ID'', param_value = ''7''\<rparr>]\<rparr>)"
proof -
  have "pattern_match ''/a/:id'' ''/a/7'' = Some \<lparr>matched = True, literal_chars = 1, param_count = 1,
      wildcard_count = 0, params = [\<lparr>env_key = ''PATTERN_PARAM_ID'', param_value = ''7''\<rparr>]\<rparr>"
    by code_simp
  from match_captures_bounded [OF this] show ?thesis by simp
qed

text \<open>C24. The handler chosen belongs to an entry that matches; every earlier entry that matches
  is strictly worse (more wildcards, then fewer literal characters, then more parameters),
  and no later one is better; the captures of the chosen match, and only those, are stored.\<close>

theorem axil_match_pattern_best:
  assumes "axil_match_pattern entries env_put pm du env = (Some h, env')"
  shows "\<exists>pre p post m. entries = pre @ (p, Some h) # post \<and> match_either p pm du = Some m
    \<and> env' = pattern_commit_params env_put m env
    \<and> (\<forall>(q, g) \<in> set pre. \<forall>n. match_either q pm du = Some n \<longrightarrow> more_specific m n)
    \<and> (\<forall>(q, g) \<in> set post. \<forall>n. match_either q pm du = Some n \<longrightarrow> \<not> more_specific n m)"
proof -
  from assms obtain m where f: "foldl (keep_best better_entry) None (candidates entries pm du) = Some (Some h, m)"
    and env: "env' = pattern_commit_params env_put m env"
    by (auto simp: axil_match_pattern_def match_scan_keep_best split: option.splits prod.splits)
  obtain ys zs where c: "candidates entries pm du = ys @ (Some h, m) # zs"
    and y: "\<forall>y\<in>set ys. pattern_better_match m (snd y)" and z: "\<forall>z\<in>set zs. \<not> pattern_better_match (snd z) m"
    using routes.keep_best_first [OF f] candidates_live by fastforce
  obtain pre p post where s: "entries = pre @ (p, Some h) # post" "match_either p pm du = Some m"
    "candidates pre pm du = ys" "candidates post pm du = zs"
    using candidates_split [OF c] by blast
  have m: "matched m" using match_either_matched [OF s(2)] .
  have "more_specific m n" if "(q, g) \<in> set pre" "match_either q pm du = Some n" for q g n
    using that s(3) y candidates_memI [where pm = pm and du = du] better_more_specific [OF match_either_matched [OF that(2)]]
    by fastforce
  moreover have "\<not> more_specific n m" if "(q, g) \<in> set post" "match_either q pm du = Some n" for q g n
    using that s(4) z candidates_memI [where pm = pm and du = du] better_more_specific [OF m] by fastforce
  ultimately show ?thesis using s(1,2) env by blast
qed

theorem axil_match_pattern_best_witness:
  "\<exists>pre p post m. [(''/*'', Some 1), (''/a/:id'', Some (2 :: nat))] = pre @ (p, Some 2) # post
    \<and> match_either p ''GET:/a/7'' ''/a/7'' = Some m
    \<and> [(''PATTERN_PARAM_ID'', ''7'')] = pattern_commit_params (\<lambda>e k v. (k, v) # e) m []
    \<and> (\<forall>(q, g) \<in> set pre. \<forall>n. match_either q ''GET:/a/7'' ''/a/7'' = Some n \<longrightarrow> more_specific m n)
    \<and> (\<forall>(q, g) \<in> set post. \<forall>n. match_either q ''GET:/a/7'' ''/a/7'' = Some n \<longrightarrow> \<not> more_specific n m)"
proof -
  have "axil_match_pattern [(''/*'', Some 1), (''/a/:id'', Some (2 :: nat))] (\<lambda>e k v. (k, v) # e)
      ''GET:/a/7'' ''/a/7'' [] = (Some 2, [(''PATTERN_PARAM_ID'', ''7'')])"
    by code_simp
  from axil_match_pattern_best [OF this] show ?thesis .
qed

text \<open>When no handler is null, a handler is found exactly when some registered pattern
  (an entry with a colon or a star) matches the path with its method or the bare path;
  otherwise the environment is left alone.\<close>

theorem axil_match_pattern_complete:
  assumes "\<forall>(p, h) \<in> set entries. h \<noteq> None"
  shows "(fst (axil_match_pattern entries env_put pm du env) = None
      \<longleftrightarrow> (\<forall>(p, h) \<in> set entries. match_either p pm du = None))
    \<and> (fst (axil_match_pattern entries env_put pm du env) = None
      \<longrightarrow> snd (axil_match_pattern entries env_put pm du env) = env)"
proof -
  have c: "candidates es pm du = [] \<longleftrightarrow> (\<forall>(p, h) \<in> set es. match_either p pm du = None)" for es
    by (induction es) (auto split: option.splits)
  have "fst x \<noteq> None" if "x \<in> set (candidates es pm du)" "\<forall>(p, h) \<in> set es. h \<noteq> None" for x es
    using that by (induction es) (auto split: option.splits)
  moreover have "x \<in> set (candidates entries pm du)"
    if "foldl (keep_best better_entry) None (candidates entries pm du) = Some x" for x
    using routes.keep_best_first [OF that] candidates_live by fastforce
  ultimately have ne: "fst x \<noteq> None"
    if "foldl (keep_best better_entry) None (candidates entries pm du) = Some x" for x
    using assms that by blast
  show ?thesis
  proof (cases "foldl (keep_best better_entry) None (candidates entries pm du)")
    case None
    then have "\<forall>(p, h) \<in> set entries. match_either p pm du = None"
      using routes.keep_best_None c by metis
    with None show ?thesis by (simp add: axil_match_pattern_def match_scan_keep_best)
  next
    case (Some x)
    then have "\<not> (\<forall>(p, h) \<in> set entries. match_either p pm du = None)"
      using routes.keep_best_None c by (metis option.distinct(1))
    with Some ne [OF Some] show ?thesis
      by (auto simp: axil_match_pattern_def match_scan_keep_best split: prod.splits)
  qed
qed

theorem axil_match_pattern_complete_witness:
  "fst (axil_match_pattern [(''/*'', Some (1 :: nat))] (\<lambda>e k v. (k, v) # e) ''GET:/'' ''/'' []) = None"
proof -
  have "match_either ''/*'' ''GET:/'' ''/'' = None" by code_simp
  then show ?thesis
    using axil_match_pattern_complete
      [where entries = "[(''/*'', Some (1 :: nat))]" and env_put = "\<lambda>e k v. (k, v) # e"
        and pm = "''GET:/''" and du = "''/''" and env = "[]"]
    by simp
qed

end
