(* ===== verification/Axil_Ws.thy ===== *)
theory Axil_Ws
  imports Axil_Prelude
begin

text \<open>
  The WebSocket layer of \<open>src/ws.c\<close>: base64 of the handshake hash, the handshake
  response, and the framing of writes, reads, closes and formatted writes.

  The per-descriptor tables \<open>ws_flags\<close> and \<open>frame_map\<close> are the record \<open>ws_state\<close> of one
  descriptor.  The lower layer (\<open>io[cfd].lower_write\<close> and \<open>lower_read\<close>) is a parameter: a
  function on a connection state \<open>'c\<close>; a read answers \<open>None\<close> for -1 and the bytes otherwise,
  no bytes being end of file.  SHA-1 (OpenSSL) is a parameter too.  The machine is
  little-endian, so \<open>htons\<close> and \<open>htonl\<close> reverse the bytes of a number.  What C leaves
  undefined, an access outside an array, is the result \<open>Overflow\<close> or \<open>None\<close>.

  The lemmas: base64 round trip; frames written are decoded by a reference decoder of
  RFC 6455, up to 65535 bytes and not beyond; frames of a client below 126 bytes are
  unmasked to the payload; the longer ones are read with their length bytes swapped.
\<close>

section \<open>Base64\<close>

definition b64str :: string where
  "b64str = ''ABCDEFGHIJKLMNOPQRSTUVWXYZabcdefghijklmnopqrstuvwxyz0123456789+/''"

definition byte_word :: "char \<Rightarrow> 32 word" where
  "byte_word c = of_nat (ccode c)"

text \<open>The four characters of one group of up to three bytes (lines 56 to 71).\<close>

definition b64_group :: "char \<Rightarrow> char option \<Rightarrow> char option \<Rightarrow> string" where
  "b64_group a b c =
     (let w1 = push_bit 16 (byte_word a);
          w2 = (case b of None \<Rightarrow> w1 | Some x \<Rightarrow> w1 OR push_bit 8 (byte_word x));
          bit24 = (case c of None \<Rightarrow> w2 | Some x \<Rightarrow> w2 OR byte_word x) in
      [b64str ! unat (drop_bit 18 (bit24 AND 0xfc0000)),
       b64str ! unat (drop_bit 12 (bit24 AND 0x03f000)),
       (if b = None then CHR ''='' else b64str ! unat (drop_bit 6 (bit24 AND 0x000fc0))),
       (if c = None then CHR ''='' else b64str ! unat (bit24 AND 0x00003f))])"

fun b64_loop :: "string \<Rightarrow> string" where
  "b64_loop [] = []"
| "b64_loop [a] = b64_group a None None"
| "b64_loop [a, b] = b64_group a (Some b) None"
| "b64_loop (a # b # c # rest) = b64_group a (Some b) (Some c) @ b64_loop rest"

text \<open>\<open>None\<close> is the return value -1; otherwise the text written, its length being returned.\<close>

definition b64_ntop :: "string \<Rightarrow> nat \<Rightarrow> string option" where
  "b64_ntop src tsize =
     (if tsize < (length src + 2) div 3 * 4 + 1 then None else Some (b64_loop src))"

text \<open>A decoder of RFC 4648, to state what the encoder is for.\<close>

definition b64_value :: "char \<Rightarrow> nat option" where
  "b64_value c = strchr b64str c"

fun b64_decode :: "string \<Rightarrow> string option" where
  "b64_decode [] = Some []"
| "b64_decode (w # x # y # z # rest) =
     (case (b64_value w, b64_value x) of
        (Some a, Some b) \<Rightarrow>
          (case (b64_value y, b64_value z) of
             (Some c, Some d) \<Rightarrow>
               map_option ((@) [char_of (a * 4 + b div 16), char_of ((b mod 16) * 16 + c div 4),
                                char_of ((c mod 4) * 64 + d)]) (b64_decode rest)
           | (Some c, None) \<Rightarrow>
               (if z = CHR ''='' \<and> rest = []
                then Some [char_of (a * 4 + b div 16), char_of ((b mod 16) * 16 + c div 4)] else None)
           | (None, None) \<Rightarrow>
               (if y = CHR ''='' \<and> z = CHR ''='' \<and> rest = [] then Some [char_of (a * 4 + b div 16)] else None)
           | _ \<Rightarrow> None)
      | _ \<Rightarrow> None)"
| "b64_decode _ = None"

lemma length_b64str [simp]: "length b64str = 64"
  by (simp add: b64str_def)

lemma b64str_distinct: "distinct b64str"
  by code_simp

lemma b64_value_nth [simp]: "i < 64 \<Longrightarrow> b64_value (b64str ! i) = Some i"
proof -
  assume i: "i < 64"
  then obtain j where j: "strchr b64str (b64str ! i) = Some j"
    by (metis length_b64str nth_mem option.exhaust strchr_None_iff)
  with strchr_SomeD [OF j] i b64str_distinct have "j = i"
    by (metis distinct_conv_nth length_b64str)
  with j show ?thesis by (simp add: b64_value_def)
qed

lemma b64_value_pad [simp]: "b64_value (CHR ''='') = None"
  by code_simp

lemma field6:
  fixes w :: "32 word"
  shows "unat (drop_bit 18 (w AND 0xfc0000)) = unat w div 2 ^ 18 mod 64"
    and "unat (drop_bit 12 (w AND 0x03f000)) = unat w div 2 ^ 12 mod 64"
    and "unat (drop_bit 6 (w AND 0x000fc0)) = unat w div 2 ^ 6 mod 64"
    and "unat (w AND 0x00003f) = unat w mod 64"
proof -
  have f: "drop_bit 18 (w AND 0xfc0000) = take_bit 6 (drop_bit 18 w)"
    "drop_bit 12 (w AND 0x03f000) = take_bit 6 (drop_bit 12 w)"
    "drop_bit 6 (w AND 0x000fc0) = take_bit 6 (drop_bit 6 w)"
    "w AND 0x00003f = take_bit 6 w"
    by (simp_all add: take_bit_eq_mask mask_eq_exp_minus_1 drop_bit_and)
  have g: "unat (take_bit 6 (drop_bit n w)) = unat w div 2 ^ n mod 64" for n
    by (simp only: unsigned_take_bit_eq unsigned_drop_bit_eq)
      (use unsigned_less [of w, where 'a = nat] in \<open>simp add: take_bit_eq_mod drop_bit_eq_div\<close>)
  show "unat (drop_bit 18 (w AND 0xfc0000)) = unat w div 2 ^ 18 mod 64"
    "unat (drop_bit 12 (w AND 0x03f000)) = unat w div 2 ^ 12 mod 64"
    "unat (drop_bit 6 (w AND 0x000fc0)) = unat w div 2 ^ 6 mod 64"
    "unat (w AND 0x00003f) = unat w mod 64"
    using g [of 18] g [of 12] g [of 6] g [of 0] by (simp_all only: f) simp
qed

lemma unat_byte_word [simp]: "unat (byte_word c) = ccode c"
  using less_trans [OF ccode_less [of c], of "2 ^ 32"]
  by (simp add: byte_word_def unsigned_of_nat take_bit_nat_eq_self)

lemma shift_or:
  fixes a b :: "32 word"
  assumes "unat b < 2 ^ n" "unat a * 2 ^ n + unat b < 2 ^ 32"
  shows "unat (push_bit n a OR b) = unat a * 2 ^ n + unat b"
proof -
  have "unat (push_bit n a) = unat a * 2 ^ n"
    using assms(2) by (simp only: unsigned_push_bit_eq) (simp add: take_bit_eq_mod push_bit_eq_mult)
  moreover have "push_bit n (unat a) OR unat b = push_bit n (unat a) + unat b"
  proof -
    have "take_bit n (unat b) = unat b" using assms(1) by (rule take_bit_nat_eq_self)
    then have "\<And>k. bit (unat b) k \<Longrightarrow> k < n" by (metis bit_take_bit_iff)
    then show ?thesis
      by (subst disjunctive_add) (auto simp: bit_push_bit_iff not_less [symmetric])
  qed
  ultimately show ?thesis by (simp add: unsigned_or_eq push_bit_eq_mult)
qed

lemma unat_bit24_3:
  "unat ((push_bit 16 (byte_word a) OR push_bit 8 (byte_word b)) OR byte_word c)
     = ccode a * 65536 + ccode b * 256 + ccode c"
proof -
  have s: "ccode b * 256 + ccode c < 65536" "ccode a * 65536 + (ccode b * 256 + ccode c) < 4294967296"
    using ccode_less [of a] ccode_less [of b] ccode_less [of c] by linarith+
  have l: "unat (push_bit 8 (byte_word b) OR byte_word c) = ccode b * 256 + ccode c"
  proof -
    have "unat (push_bit 8 (byte_word b) OR byte_word c)
        = unat (byte_word b) * 2 ^ 8 + unat (byte_word c)"
      using s by (intro shift_or) simp_all
    then show ?thesis by simp
  qed
  have "unat (push_bit 16 (byte_word a) OR (push_bit 8 (byte_word b) OR byte_word c))
      = unat (byte_word a) * 2 ^ 16 + unat (push_bit 8 (byte_word b) OR byte_word c)"
    using s by (intro shift_or) (simp_all only: l unat_byte_word, simp_all)
  then show ?thesis by (simp only: l or.assoc unat_byte_word) simp
qed

lemma unat_bit24_2:
  "unat (push_bit 16 (byte_word a) OR push_bit 8 (byte_word b)) = ccode a * 65536 + ccode b * 256"
  using unat_bit24_3 [of a b NUL] by (simp add: byte_word_def)

lemma unat_bit24_1: "unat (push_bit 16 (byte_word a)) = ccode a * 65536"
  using unat_bit24_2 [of a NUL] by (simp add: byte_word_def)

lemma zero_less_256: "(0 :: nat) < 256"
  by simp

lemma group_fields:
  fixes a b c :: nat
  assumes "b < 256" "c < 256" "n = a * 65536 + b * 256 + c" "a < 256"
  shows "n div 262144 mod 64 = a div 4" "n div 4096 mod 64 = a mod 4 * 16 + b div 16"
    "n div 64 mod 64 = b mod 16 * 4 + c div 64" "n mod 64 = c mod 64"
proof -
  define a1 a0 b1 b0 c1 c0 where d: "a1 = a div 4" "a0 = a mod 4" "b1 = b div 16" "b0 = b mod 16"
    "c1 = c div 64" "c0 = c mod 64"
  have abc: "a = 4 * a1 + a0" "b = 16 * b1 + b0" "c = 64 * c1 + c0" by (simp_all add: d)
  have l: "a0 < 4" "b0 < 16" "c0 < 64" by (simp_all add: d)
  have m: "a1 < 64" "b1 < 16" "c1 < 4" using assms abc by linarith+
  have "n div 262144 = a1"
    by (rule div_nat_eqI; use assms(3) abc l m in simp)
  then show "n div 262144 mod 64 = a div 4" using m by (simp add: d)
  have "n div 4096 = a1 * 64 + (a0 * 16 + b1)"
    by (rule div_nat_eqI; use assms(3) abc l m in simp)
  moreover have "(a1 * 64 + (a0 * 16 + b1)) mod 64 = a0 * 16 + b1"
    unfolding mod_mult_self3 using l m by simp
  ultimately show "n div 4096 mod 64 = a mod 4 * 16 + b div 16" by (simp add: d)
  have "n div 64 = (a * 16 + b1) * 64 + (b0 * 4 + c1)"
    by (rule div_nat_eqI; use assms(3) abc l m in simp)
  moreover have "((a * 16 + b1) * 64 + (b0 * 4 + c1)) mod 64 = b0 * 4 + c1"
    unfolding mod_mult_self3 using l m by simp
  ultimately show "n div 64 mod 64 = b mod 16 * 4 + c div 64" by (simp add: d)
  have "n = (a * 1024 + b * 4 + c1) * 64 + c0" using assms(3) abc by simp
  then have "n mod 64 = c0 mod 64" by (metis mod_mult_self3)
  then show "n mod 64 = c mod 64" by (simp add: d)
qed

lemma b64_group_nat:
  "b64_group a (Some b) (Some c) =
     [b64str ! (ccode a div 4), b64str ! (ccode a mod 4 * 16 + ccode b div 16),
      b64str ! (ccode b mod 16 * 4 + ccode c div 64), b64str ! (ccode c mod 64)]"
  "b64_group a (Some b) None =
     [b64str ! (ccode a div 4), b64str ! (ccode a mod 4 * 16 + ccode b div 16),
      b64str ! (ccode b mod 16 * 4), CHR ''='']"
  "b64_group a None None =
     [b64str ! (ccode a div 4), b64str ! (ccode a mod 4 * 16), CHR ''='', CHR ''='']"
proof -
  have e: "(2 :: nat) ^ 18 = 262144" "(2 :: nat) ^ 12 = 4096" "(2 :: nat) ^ 6 = 64" by simp_all
  note f = group_fields [OF ccode_less [of b] ccode_less [of c] refl ccode_less [of a]]
  show "b64_group a (Some b) (Some c) =
     [b64str ! (ccode a div 4), b64str ! (ccode a mod 4 * 16 + ccode b div 16),
      b64str ! (ccode b mod 16 * 4 + ccode c div 64), b64str ! (ccode c mod 64)]"
    by (simp only: b64_group_def Let_def option.case option.distinct if_False field6 unat_bit24_3 e f)
  note f = group_fields [OF ccode_less [of b] zero_less_256 refl ccode_less [of a]]
  show "b64_group a (Some b) None =
     [b64str ! (ccode a div 4), b64str ! (ccode a mod 4 * 16 + ccode b div 16),
      b64str ! (ccode b mod 16 * 4), CHR ''='']"
    using f by (simp only: b64_group_def Let_def option.case option.distinct if_False if_True refl
        field6 unat_bit24_2) simp
  note f = group_fields [OF zero_less_256 zero_less_256 refl ccode_less [of a]]
  show "b64_group a None None =
     [b64str ! (ccode a div 4), b64str ! (ccode a mod 4 * 16), CHR ''='', CHR ''='']"
    using f by (simp only: b64_group_def Let_def option.case if_True refl field6 unat_bit24_1) simp
qed

lemma b64_group_decode:
  "b64_decode (b64_group a (Some b) (Some c) @ rest) = map_option ((@) [a, b, c]) (b64_decode rest)"
  "b64_decode (b64_group a (Some b) None) = Some [a, b]"
  "b64_decode (b64_group a None None) = Some [a]"
proof -
  have less: "ccode x mod 4 * 16 + ccode y div 16 < 64" "ccode x mod 16 * 4 + ccode y div 64 < 64"
    "ccode x div 4 < 64" "ccode x mod 64 < 64" for x y
    using ccode_less [of x] ccode_less [of y] by linarith+
  have v: "b64_value (b64str ! (ccode a div 4)) = Some (ccode a div 4)"
    "b64_value (b64str ! (ccode a mod 4 * 16 + ccode b div 16)) = Some (ccode a mod 4 * 16 + ccode b div 16)"
    "b64_value (b64str ! (ccode b mod 16 * 4 + ccode c div 64)) = Some (ccode b mod 16 * 4 + ccode c div 64)"
    "b64_value (b64str ! (ccode c mod 64)) = Some (ccode c mod 64)"
    "b64_value (b64str ! (ccode b mod 16 * 4)) = Some (ccode b mod 16 * 4)"
    "b64_value (b64str ! (ccode a mod 4 * 16)) = Some (ccode a mod 4 * 16)"
    using less(1) [of a b] less(2) [of b c] less(2) [of b NUL] less(1) [of a NUL] less(3) [of a] less(4) [of c]
    by simp_all
  have d: "char_of (ccode x div 4 * 4 + (ccode x mod 4 * 16 + y div 16) div 16) = x"
    "char_of ((ccode x mod 4 * 16 + ccode x' div 16) mod 16 * 16 + (ccode x' mod 16 * 4 + z div 64) div 4) = x'"
    "char_of ((ccode x mod 16 * 4 + ccode x' div 64) mod 4 * 64 + ccode x' mod 64) = x'"
    if "y < 256" "z < 256" for x x' y z
  proof -
    have "ccode x div 4 * 4 + (ccode x mod 4 * 16 + y div 16) div 16 = ccode x"
      using that by simp
    then show "char_of (ccode x div 4 * 4 + (ccode x mod 4 * 16 + y div 16) div 16) = x"
      by (simp only: char_of_char)
    have "(ccode x mod 4 * 16 + ccode x' div 16) mod 16 = ccode x' div 16" by simp
    moreover have "(ccode x' mod 16 * 4 + z div 64) div 4 = ccode x' mod 16" using that by simp
    ultimately have "(ccode x mod 4 * 16 + ccode x' div 16) mod 16 * 16
        + (ccode x' mod 16 * 4 + z div 64) div 4 = ccode x'" by simp
    then show "char_of ((ccode x mod 4 * 16 + ccode x' div 16) mod 16 * 16
        + (ccode x' mod 16 * 4 + z div 64) div 4) = x'"
      by (simp only: char_of_char)
    have "ccode x' div 64 < 4" using ccode_less [of x'] by linarith
    then have "(ccode x mod 16 * 4 + ccode x' div 64) mod 4 = ccode x' div 64" by simp
    then have "(ccode x mod 16 * 4 + ccode x' div 64) mod 4 * 64 + ccode x' mod 64 = ccode x'" by simp
    then show "char_of ((ccode x mod 16 * 4 + ccode x' div 64) mod 4 * 64 + ccode x' mod 64) = x'"
      by (simp only: char_of_char)
  qed
  note d1 = d [OF ccode_less ccode_less]
  show "b64_decode (b64_group a (Some b) (Some c) @ rest) = map_option ((@) [a, b, c]) (b64_decode rest)"
    by (simp only: b64_group_nat append_Cons append_Nil b64_decode.simps v prod.case option.case d1)
  show "b64_decode (b64_group a (Some b) None) = Some [a, b]"
    using d(1) [where x = a and y = "ccode b" and z = 0] d(2) [where x = a and x' = b and y = 0 and z = 0]
    by (simp only: b64_group_nat append_Cons append_Nil b64_decode.simps v prod.case option.case
        b64_value_pad) simp
  show "b64_decode (b64_group a None None) = Some [a]"
    using d(1) [where x = a and y = 0 and z = 0]
    by (simp only: b64_group_nat append_Cons append_Nil b64_decode.simps v prod.case option.case
        b64_value_pad) simp
qed

lemma b64_decode_loop: "b64_decode (b64_loop s) = Some s"
  by (induction s rule: b64_loop.induct) (simp_all add: b64_group_decode)

lemma length_b64_group [simp]: "length (b64_group a b c) = 4"
  by (simp add: b64_group_def Let_def)

lemma length_b64_loop: "length (b64_loop s) = (length s + 2) div 3 * 4"
proof (induction s rule: b64_loop.induct)
  case (4 a b c rest)
  have "(length (a # b # c # rest) + 2) div 3 = Suc ((length rest + 2) div 3)" by simp
  with 4 show ?case by simp
qed simp_all

section \<open>The frame state of a descriptor\<close>

definition WS_BINARY :: "32 word" where "WS_BINARY = 0x2"

definition WS_FIN :: "32 word" where "WS_FIN = 0x80"

text \<open>\<open>mk\<close> and \<open>data\<close> are adjacent in the struct, so one read fills both.\<close>

record ws_frame =
  head :: string
  pl :: "64 word"
  mk :: string
  data :: string

record ws_state =
  ws_flags :: "32 word"
  frame :: ws_frame

definition zero_frame :: ws_frame where
  "zero_frame = \<lparr>head = [NUL, NUL], pl = 0, mk = replicate 4 NUL, data = replicate BUFSIZ NUL\<rparr>"

definition low_byte :: "char \<Rightarrow> 8 word" where
  "low_byte c = of_nat (ccode c)"

definition byte_char :: "8 word \<Rightarrow> char" where
  "byte_char w = char_of (unat w)"

definition OPCODE :: "string \<Rightarrow> 8 word" where
  "OPCODE h = low_byte (h ! 0) AND 0x0f"

definition PAYLOAD_LEN :: "string \<Rightarrow> 8 word" where
  "PAYLOAD_LEN h = low_byte (h ! 1) AND 0x7f"

text \<open>Bytes of a number in memory order and in network order.\<close>

fun le_bytes :: "nat \<Rightarrow> nat \<Rightarrow> string" where
  "le_bytes 0 n = []"
| "le_bytes (Suc k) n = char_of n # le_bytes k (n div 256)"

definition be_bytes :: "nat \<Rightarrow> nat \<Rightarrow> string" where
  "be_bytes k n = rev (le_bytes k n)"

fun le_value :: "string \<Rightarrow> nat" where
  "le_value [] = 0"
| "le_value (c # cs) = ccode c + 256 * le_value cs"

definition be_value :: "string \<Rightarrow> nat" where
  "be_value s = le_value (rev s)"

definition xor_char :: "char \<Rightarrow> char \<Rightarrow> char" where
  "xor_char a b = char_of (ccode a XOR ccode b)"

text \<open>What a read of bytes \<open>new\<close> leaves in a buffer that held \<open>old\<close>.\<close>

definition overlay :: "string \<Rightarrow> string \<Rightarrow> string" where
  "overlay new old = new @ drop (length new) old"

section \<open>Operations\<close>

definition GUID :: string where
  "GUID = ''258EAFA5-E914-47DA-95CA-C5AB0DC85B11''"

definition common_resp :: string where
  "common_resp = ''HTTP/1.1 101 Switching Protocols'' @ CRLF @ ''Upgrade: websocket'' @ CRLF @
     ''Connection: upgrade'' @ CRLF @ ''Sec-Websocket-Protocol: binary'' @ CRLF @
     ''Sec-Websocket-Accept: ''"

text \<open>
  \<open>ws_init\<close>: the new state, the bytes sent and the connection after them.  The 29 bytes at
  offset 129 of the response take the base64 text; the write has a fixed length.
\<close>

definition ws_init ::
  "(string \<Rightarrow> string) \<Rightarrow> ('c \<Rightarrow> string \<Rightarrow> int \<times> 'c) \<Rightarrow> string \<Rightarrow> ws_state \<Rightarrow> 'c \<Rightarrow> ws_state \<times> 'c" where
  "ws_init sha1 lower_write ws_key st c =
     (let hash = sha1 (ws_key @ GUID);
          accept = (case b64_ntop (take 20 hash) 29 of Some s \<Rightarrow> s | None \<Rightarrow> replicate 28 (CHR ''0''));
          resp = common_resp @ accept @ CRLF @ CRLF;
          (_, c') = lower_write c (take (129 + 28 + 4) resp) in
      (st\<lparr>frame := zero_frame, ws_flags := WS_BINARY OR WS_FIN\<rparr>, c'))"

definition ws_frame_bytes :: "32 word \<Rightarrow> string \<Rightarrow> string" where
  "ws_frame_bytes fl dat =
     (let n = length dat;
          h0 = char_of (unat (fl AND (WS_BINARY OR WS_FIN))) in
      if n < 126 then [h0, char_of n] @ dat
      else if n < 65536 then [h0, char_of (126 :: nat)] @ be_bytes 2 n @ dat
      else [h0, char_of (127 :: nat)] @ be_bytes 4 (n mod 2 ^ 32) @ replicate 4 NUL @ dat)"

text \<open>The return value is the comparison, 1 when the lower layer wrote less than the frame.\<close>

definition ws_write :: "('c \<Rightarrow> string \<Rightarrow> int \<times> 'c) \<Rightarrow> string \<Rightarrow> ws_state \<Rightarrow> 'c \<Rightarrow> int \<times> 'c" where
  "ws_write lower_write dat st c =
     (let fr = ws_frame_bytes (ws_flags st) dat; (r, c') = lower_write c fr in
      (if r < int (length fr) then 1 else 0, c'))"

definition ws_close :: "('c \<Rightarrow> string \<Rightarrow> int \<times> 'c) \<Rightarrow> 'c \<Rightarrow> 'c" where
  "ws_close lower_write c =
     (let (_, c1) = lower_write c [CHR 0x88, CHR 0x02];
          (_, c2) = lower_write c1 (le_bytes 4 1008) in c2)"

text \<open>What a read gives: the value returned and the bytes stored at the caller's \<open>data\<close>.\<close>

datatype ws_result = WsRet int string | Overflow

text \<open>Label \<open>mk\<close> (lines 214 to 228), entered with the local \<open>pl\<close>.\<close>

definition ws_read_mk ::
  "('c \<Rightarrow> nat \<Rightarrow> string option \<times> 'c) \<Rightarrow> 64 word \<Rightarrow> ws_frame \<Rightarrow> 'c \<Rightarrow> ws_result \<times> ws_frame \<times> 'c" where
  "ws_read_mk lower_read l fr c =
     (let (r, c') = lower_read c (unat (4 + l));
          bs = (case r of Some b \<Rightarrow> b | None \<Rightarrow> []);
          n = (case r of Some b \<Rightarrow> of_nat (length b) | None \<Rightarrow> - 1) :: 64 word;
          fr1 = fr\<lparr>mk := overlay (take 4 bs) (mk fr), data := overlay (drop 4 bs) (data fr)\<rparr> in
      if length bs > 4 + BUFSIZ then (Overflow, fr1, c')
      else if n \<noteq> 4 + l then (WsRet (- 1) [], fr1, c')
      else if BUFSIZ \<le> unat l then (Overflow, fr1, c')
      else let out = map (\<lambda>i. xor_char (data fr1 ! i) (mk fr1 ! (i mod 4))) [0..<unat l] in
           (WsRet (int (unat l)) (out @ [NUL]), zero_frame, c'))"

text \<open>The label \<open>pl\<close> (lines 190 to 214).\<close>

definition ws_read_pl ::
  "('c \<Rightarrow> nat \<Rightarrow> string option \<times> 'c) \<Rightarrow> ws_frame \<Rightarrow> 'c \<Rightarrow> ws_result \<times> ws_frame \<times> 'c" where
  "ws_read_pl lower_read fr c =
     (let l = PAYLOAD_LEN (head fr) in
      if l = 126 \<or> l = 127 then
        let k = (if l = 126 then 2 else 8); (r, c') = lower_read c k in
        (case r of
           Some b \<Rightarrow>
             (if length b \<noteq> k then (WsRet (- 1) [], fr, c')
              else let l' = of_nat (le_value b) in ws_read_mk lower_read l' (fr\<lparr>pl := l'\<rparr>) c')
         | None \<Rightarrow> (WsRet (- 1) [], fr, c'))
      else ws_read_mk lower_read (ucast l) (fr\<lparr>pl := ucast l\<rparr>) c)"

definition ws_read ::
  "('c \<Rightarrow> nat \<Rightarrow> string option \<times> 'c) \<Rightarrow> ws_frame \<Rightarrow> 'c \<Rightarrow> ws_result \<times> ws_frame \<times> 'c" where
  "ws_read lower_read fr c =
     (if pl fr \<noteq> 0 then ws_read_mk lower_read 0 fr c
      else if head fr ! 0 \<noteq> NUL \<and> head fr ! 1 \<noteq> NUL then ws_read_pl lower_read fr c
      else let (r, c') = lower_read c 2 in
        case r of
          None \<Rightarrow> (WsRet (- 1) [], fr, c')
        | Some b \<Rightarrow>
            let fr1 = fr\<lparr>head := overlay b (head fr)\<rparr> in
            if length b = 0 then (WsRet 0 [], fr1, c')
            else if length b \<noteq> 2 then (WsRet (- 1) [], fr1, c')
            else if OPCODE (head fr1) = 8 then (WsRet 0 [], fr1, c')
            else ws_read_pl lower_read fr1 c')"

text \<open>
  \<open>ws_dprintf\<close>, given the text \<open>vsnprintf\<close> would print: the flags become \<open>WS_BINARY & WS_FIN\<close>;
  the length written is that of the whole text, so past the static buffer the read of \<open>buf\<close>
  is out of range (\<open>None\<close>).
\<close>

definition ws_dprintf ::
  "('c \<Rightarrow> string \<Rightarrow> int \<times> 'c) \<Rightarrow> string \<Rightarrow> ws_state \<Rightarrow> 'c \<Rightarrow> (int \<times> ws_state \<times> 'c) option" where
  "ws_dprintf lower_write text st c =
     (let st' = st\<lparr>ws_flags := WS_BINARY AND WS_FIN\<rparr>; n = length text in
      if n > BUFSIZ then None
      else let dat = take n (snprintf_trunc BUFSIZ text @ [NUL]); (r, c') = ws_write lower_write dat st' c in
        Some (r, st', c'))"

section \<open>Reference framing\<close>

text \<open>A server frame as RFC 6455 reads it: first byte, payload, what follows the frame.\<close>

definition rfc_payload :: "char \<Rightarrow> nat \<Rightarrow> string \<Rightarrow> (char \<times> string \<times> string) option" where
  "rfc_payload h n r = (if length r < n then None else Some (h, take n r, drop n r))"

definition rfc_length :: "string \<Rightarrow> nat option" where
  "rfc_length s =
     (let l = ccode (s ! 1) in
      if l < 126 then Some l else if l = 126 then Some (be_value (take 2 (drop 2 s)))
      else if l = 127 then Some (be_value (take 8 (drop 2 s))) else None)"

definition rfc_decode :: "string \<Rightarrow> (char \<times> string \<times> string) option" where
  "rfc_decode s =
     (if length s < 2 then None
      else let l = ccode (s ! 1); hl = (if l < 126 then 2 else if l = 126 then 4 else 10) in
        if length s < hl then None
        else Option.bind (rfc_length s) (\<lambda>n. rfc_payload (s ! 0) n (drop hl s)))"

lemma length_le_bytes [simp]: "length (le_bytes k n) = k"
  by (induction k arbitrary: n) auto

lemma length_be_bytes [simp]: "length (be_bytes k n) = k"
  by (simp add: be_bytes_def)

lemma le_value_bytes: "le_value (le_bytes k n) = n mod 256 ^ k"
proof (induction k arbitrary: n)
  case 0
  then show ?case by simp
next
  case (Suc k)
  have "n mod (256 * 256 ^ k) = 256 * (n div 256 mod 256 ^ k) + n mod 256"
    by (rule mod_mult2_eq)
  with Suc show ?case by simp
qed

lemma be_value_bytes: "be_value (be_bytes k n) = n mod 256 ^ k"
  by (simp add: be_value_def be_bytes_def le_value_bytes)

lemma le_value_append: "le_value (a @ b) = le_value a + 256 ^ length a * le_value b"
  by (induction a) (auto simp: algebra_simps)

lemma le_value_less: "le_value s < 256 ^ length s"
proof (induction s)
  case (Cons c s)
  have "ccode c + 256 * le_value s < 256 * (le_value s + 1)" using ccode_less [of c] by simp
  also have "\<dots> \<le> 256 * 256 ^ length s" using Cons by (intro mult_le_mono2) simp
  finally show ?case by simp
qed simp

lemma xor_char_cancel [simp]: "xor_char (xor_char a b) b = a"
proof -
  have "ccode x = take_bit 8 (ccode x)" for x by (simp add: take_bit_eq_mod)
  then have "take_bit 8 (ccode a XOR ccode b) = ccode a XOR ccode b"
    by (metis take_bit_xor)
  then have "(ccode a XOR ccode b) mod 256 = ccode a XOR ccode b" by (simp add: take_bit_eq_mod)
  then show ?thesis by (simp add: xor_char_def xor.assoc)
qed

section \<open>Properties\<close>

text \<open>Base64: with room for the terminator the text is four characters per group of three
  bytes and decodes to the bytes given; without room nothing is written.\<close>

theorem b64_ntop_roundtrip:
  "(length src + 2) div 3 * 4 + 1 \<le> n \<Longrightarrow>
     \<exists>t. b64_ntop src n = Some t \<and> length t = (length src + 2) div 3 * 4 \<and> b64_decode t = Some src"
  by (simp add: b64_ntop_def b64_decode_loop length_b64_loop)

theorem b64_ntop_roundtrip_witness:
  "\<exists>t. b64_ntop ''axil'' 9 = Some t \<and> length t = 8 \<and> b64_decode t = Some ''axil''"
  using b64_ntop_roundtrip [of "''axil''" 9] by simp

text \<open>The handshake: with a 20-byte hash the lower layer is handed one complete 101 response,
  161 bytes ending in a blank line, whose accept field decodes to the hash of the key and the
  protocol's GUID; the frame in progress is reset and the flags ask for binary final frames.\<close>

theorem ws_init_handshake:
  assumes "length (sha1 (ws_key @ GUID)) = 20"
  shows "\<exists>accept. length accept = 28 \<and> b64_decode accept = Some (sha1 (ws_key @ GUID))
    \<and> length (common_resp @ accept @ CRLF @ CRLF) = 161
    \<and> ws_init sha1 lower_write ws_key st c
        = (\<lparr>ws_flags = 0x82, frame = zero_frame\<rparr>, snd (lower_write c (common_resp @ accept @ CRLF @ CRLF)))"
proof -
  let ?h = "sha1 (ws_key @ GUID)"
  obtain t where t: "b64_ntop ?h 29 = Some t" "length t = 28" "b64_decode t = Some ?h"
    using assms by (simp add: b64_ntop_def b64_decode_loop length_b64_loop)
  have l: "length (common_resp @ t @ CRLF @ CRLF) = 161"
    using t(2) by (simp add: common_resp_def)
  then show ?thesis
    using t assms
    by (intro exI [of _ t]) (simp add: ws_init_def WS_BINARY_def WS_FIN_def split: prod.split)
qed

theorem ws_init_handshake_witness:
  "\<exists>accept. length accept = 28 \<and> b64_decode accept = Some (replicate 20 (CHR ''x''))"
  using ws_init_handshake [of "\<lambda>s. replicate 20 (CHR ''x'')" "''key''" "\<lambda>c s. (0, c)" undefined "()"]
  by auto



text \<open>From 64 KiB on the length field is wrong: \<open>htonl\<close> puts the 32-bit length in the upper
  half of the 64-bit field, so a reader expects \<open>2 ^ 32\<close> times the bytes sent.\<close>

theorem ws_write_long_length_wrong:
  assumes "65536 \<le> length dat" "length dat < 2 ^ 32"
  shows "rfc_length (ws_frame_bytes fl dat) = Some (length dat * 2 ^ 32)"
proof -
  have z: "le_value (replicate k NUL) = 0" for k by (induction k) auto
  have "le_value (replicate 4 NUL @ le_bytes 4 (length dat)) = 256 ^ 4 * (length dat mod 256 ^ 4)"
    by (simp only: le_value_append z le_value_bytes length_replicate add_0)
  also have "\<dots> = length dat * 2 ^ 32" using assms(2) by simp
  finally have v: "be_value (be_bytes 4 (length dat) @ replicate 4 NUL) = length dat * 2 ^ 32"
    by (simp only: be_value_def be_bytes_def rev_append rev_replicate rev_rev_ident)
  have "\<not> length dat < 126" "\<not> length dat < 65536" "length dat mod 2 ^ 32 = length dat"
    using assms by simp_all
  then have f: "ws_frame_bytes fl dat = char_of (unat (fl AND (WS_BINARY OR WS_FIN))) # char_of (127 :: nat)
      # (be_bytes 4 (length dat) @ replicate 4 NUL) @ dat"
    by (simp add: ws_frame_bytes_def Let_def)
  have t: "take 8 ((be_bytes 4 (length dat) @ replicate 4 NUL) @ dat) = be_bytes 4 (length dat) @ replicate 4 NUL"
    by (simp del: replicate.simps)
  show ?thesis by (simp add: rfc_length_def f Let_def t v del: append_assoc)
qed

theorem ws_write_long_length_wrong_witness:
  "rfc_length (ws_frame_bytes 0x82 (replicate 65536 NUL)) = Some (65536 * 2 ^ 32)"
proof -
  have l: "length (replicate 65536 NUL) = (65536 :: nat)" by (rule length_replicate)
  show ?thesis
    using ws_write_long_length_wrong [of "replicate 65536 NUL" "0x82", unfolded l] by simp
qed

text \<open>A connection that answers each read in full as long as its bytes last.\<close>

definition delivers :: "(string \<Rightarrow> nat \<Rightarrow> string option \<times> string) \<Rightarrow> bool" where
  "delivers lower_read \<longleftrightarrow> (\<forall>s n. n \<le> length s \<longrightarrow> lower_read s n = (Some (take n s), drop n s))"

text \<open>A client's frame of fewer than 126 bytes, masked as RFC 6455 asks.\<close>

definition mask :: "string \<Rightarrow> string \<Rightarrow> string" where
  "mask key dat = map (\<lambda>i. xor_char (dat ! i) (key ! (i mod 4))) [0..<length dat]"

definition client_frame :: "char \<Rightarrow> string \<Rightarrow> string \<Rightarrow> string" where
  "client_frame h key dat = [h, char_of (128 + length dat)] @ key @ mask key dat"

lemma PAYLOAD_LEN_nat: "unat (PAYLOAD_LEN h) = ccode (h ! 1) mod 128"
proof -
  have "low_byte (h ! 1) AND 0x7f = take_bit 7 (low_byte (h ! 1))"
    by (simp add: take_bit_eq_mask mask_eq_exp_minus_1)
  moreover have "unat (low_byte (h ! 1)) = ccode (h ! 1)"
    using ccode_less [of "h ! 1"] by (simp add: low_byte_def unsigned_of_nat take_bit_nat_eq_self)
  ultimately show ?thesis
    by (simp only: PAYLOAD_LEN_def unsigned_take_bit_eq) (simp add: take_bit_eq_mod)
qed

lemma OPCODE_nat: "unat (OPCODE h) = ccode (h ! 0) mod 16"
proof -
  have "low_byte (h ! 0) AND 0x0f = take_bit 4 (low_byte (h ! 0))"
    by (simp add: take_bit_eq_mask mask_eq_exp_minus_1)
  moreover have "unat (low_byte (h ! 0)) = ccode (h ! 0)"
    using ccode_less [of "h ! 0"] by (simp add: low_byte_def unsigned_of_nat take_bit_nat_eq_self)
  ultimately show ?thesis
    by (simp only: OPCODE_def unsigned_take_bit_eq) (simp add: take_bit_eq_mod)
qed

lemma length_mask [simp]: "length (mask key dat) = length dat"
  by (simp add: mask_def)

lemma ws_read_mk_delivers:
  assumes "delivers lower_read" "length key = 4" "length dat < BUFSIZ"
    "length (data fr) = BUFSIZ" "length (mk fr) = 4" "l = of_nat (length dat)"
  shows "ws_read_mk lower_read l fr (key @ mask key dat @ rest)
    = (WsRet (int (length dat)) (dat @ [NUL]), zero_frame, rest)"
proof -
  have b: "length dat < 8192" using assms(3) by (simp add: c_consts)
  then have ul: "unat l = length dat"
    using assms(6) by (simp add: unsigned_of_nat take_bit_nat_eq_self)
  have "unat (4 + l) = 4 + length dat"
    using b ul by (simp add: unat_word_ariths)
  moreover have "lower_read (key @ mask key dat @ rest) (4 + length dat) = (Some (key @ mask key dat), rest)"
    using assms(1,2) by (simp add: delivers_def)
  moreover have "(of_nat (length (key @ mask key dat)) :: 64 word) = 4 + l"
    using assms(2,6) by simp
  moreover have "map (\<lambda>i. xor_char (overlay (mask key dat) d ! i) (overlay key m ! (i mod 4))) [0..<length dat] = dat"
    for d m
    using assms(2)
    by (auto intro!: nth_equalityI simp: overlay_def nth_append mask_def)
  ultimately show ?thesis
    using assms(2,3) ul by (simp add: ws_read_mk_def Let_def)
qed

text \<open>C27. Reading a client's masked frame of at most 125 bytes, not a close, from a connection that
  delivers it whole gives the payload, its length and a NUL after it, leaves what follows the
  frame unread and the frame state clear for the next one.\<close>

theorem ws_read_unmasks:
  assumes "delivers lower_read" "length key = 4" "length dat < 126" "ccode h mod 16 \<noteq> 8"
  shows "ws_read lower_read zero_frame (client_frame h key dat @ rest)
    = (WsRet (int (length dat)) (dat @ [NUL]), zero_frame, rest)"
proof -
  let ?h = "[h, char_of (128 + length dat)]"
  let ?l = "PAYLOAD_LEN ?h"
  have hd: "lower_read (client_frame h key dat @ rest) 2 = (Some ?h, key @ mask key dat @ rest)"
    using assms(1) by (simp add: delivers_def client_frame_def)
  have op: "OPCODE ?h \<noteq> 8" using assms(4) OPCODE_nat [of ?h] by auto
  have len: "unat ?l = length dat" using assms(3) by (simp add: PAYLOAD_LEN_nat)
  then have nl: "?l \<noteq> 126" "?l \<noteq> 127" using assms(3) by auto
  have u: "ucast ?l = (of_nat (length dat) :: 64 word)" by (metis len of_nat_unat)
  have rl: "ws_read_mk lower_read (ucast ?l) (zero_frame\<lparr>head := ?h, pl := ucast ?l\<rparr>) (key @ mask key dat @ rest)
      = (WsRet (int (length dat)) (dat @ [NUL]), zero_frame, rest)"
    by (rule ws_read_mk_delivers [OF assms(1,2)])
      (use assms(3) u in \<open>simp_all add: zero_frame_def c_consts\<close>)
  have o: "overlay ?h (head zero_frame) = ?h" by (simp add: overlay_def zero_frame_def)
  have z: "pl zero_frame = 0" "head zero_frame ! 0 = NUL" by (simp_all add: zero_frame_def)
  have hh: "head (zero_frame\<lparr>head := ?h\<rparr>) = ?h" by simp
  show ?thesis
    using rl nl op
    by (simp only: ws_read_def z hd o hh Let_def prod.case option.case ws_read_pl_def if_False simp_thms
        list.size One_nat_def) simp
qed

theorem ws_read_unmasks_witness:
  "ws_read (\<lambda>s n. (Some (take n s), drop n s)) zero_frame (client_frame (CHR 0x81) ''abcd'' ''hello'' @ ''next'')
    = (WsRet 5 (''hello'' @ [NUL]), zero_frame, ''next'')"
  using ws_read_unmasks [of "\<lambda>s n. (Some (take n s), drop n s)" "''abcd''" "''hello''" "CHR 0x81" "''next''"]
  by (simp add: delivers_def)

lemma ws_read_mk_bounded:
  assumes "\<And>c n b c1. lower_read c n = (Some b, c1) \<Longrightarrow> length b \<le> n" "unat l < BUFSIZ"
  shows "\<exists>n s. fst (ws_read_mk lower_read l fr c) = WsRet n s \<and> length s \<le> unat l + 1"
proof -
  obtain r c' where r: "lower_read c (unat (4 + l)) = (r, c')" by (cases "lower_read c (unat (4 + l))")
  have "unat (4 + l) = 4 + unat l"
    using assms(2) by (simp add: unat_word_ariths c_consts)
  then have "length b \<le> 4 + BUFSIZ" if "r = Some b" for b
    using assms(1) [of c "unat (4 + l)" b c'] r that assms(2) by simp
  with r assms(2) show ?thesis
    by (auto simp: ws_read_mk_def Let_def split: option.splits)
qed

text \<open>A fresh frame whose header announces at most 125 bytes never makes the read leave the
  frame's buffer, whatever the lower layer answers afterwards, and what is stored at the caller's
  pointer is at most 126 bytes.\<close>

theorem ws_read_short_safe:
  assumes "\<And>c n b c1. lower_read c n = (Some b, c1) \<Longrightarrow> length b \<le> n"
    and "fst (lower_read c 2) = Some [h0, h1]" "ccode h1 mod 128 < 126"
  shows "\<exists>n s. fst (ws_read lower_read zero_frame c) = WsRet n s \<and> length s \<le> 126"
proof -
  obtain c' where r: "lower_read c 2 = (Some [h0, h1], c')"
    using assms(2) by (cases "lower_read c 2") auto
  let ?l = "PAYLOAD_LEN [h0, h1]"
  have len: "unat ?l = ccode h1 mod 128" by (simp add: PAYLOAD_LEN_nat)
  then have nl: "?l \<noteq> 126" "?l \<noteq> 127" using assms(3) by auto
  have u: "unat (ucast ?l :: 64 word) = ccode h1 mod 128"
    using len by (simp add: unsigned_ucast_eq take_bit_nat_eq_self)
  have o: "overlay [h0, h1] (head zero_frame) = [h0, h1]" by (simp add: overlay_def zero_frame_def)
  have "\<exists>n s. fst (ws_read_mk lower_read (ucast ?l) fr c') = WsRet n s \<and> length s \<le> 126" for fr
    using ws_read_mk_bounded [of lower_read "ucast ?l" fr c', OF assms(1)] u assms(3)
    by (fastforce simp: c_consts)
  with r nl o show ?thesis
    by (simp add: ws_read_def ws_read_pl_def Let_def zero_frame_def)
qed

theorem ws_read_short_safe_witness:
  "\<exists>n s. fst (ws_read (\<lambda>s n. (Some (take n s), drop n s)) zero_frame [CHR 0x81, CHR 0x85, CHR ''k''])
      = WsRet n s \<and> length s \<le> 126"
  using ws_read_short_safe [of "\<lambda>s n. (Some (take n s), drop n s)" "[CHR 0x81, CHR 0x85, CHR ''k'']" "CHR 0x81" "CHR 0x85"]
  by (simp add: numeral_2_eq_2)

text \<open>C35. The extended length is not bounded: a frame announcing, in the byte order the code reads,
  between 8192 and 65535 bytes, delivered whole, makes the read write past the frame's buffer.\<close>

theorem ws_read_long_overflows:
  assumes "delivers lower_read" "BUFSIZ \<le> n" "n < 65536" "length body = 4 + n"
  shows "fst (ws_read lower_read zero_frame ([CHR 0x82, CHR 0xFE] @ le_bytes 2 n @ body)) = Overflow"
proof -
  let ?h = "[CHR 0x82, CHR 0xFE]"
  have n: "n mod 256 ^ 2 = n" using assms(3) by simp
  have l2: "le_value (le_bytes 2 n) = n" by (simp only: le_value_bytes n)
  have hd: "lower_read (?h @ le_bytes 2 n @ body) 2 = (Some ?h, le_bytes 2 n @ body)"
    using assms(1) by (simp add: delivers_def)
  have p: "unat (PAYLOAD_LEN ?h) = 126" by (simp add: PAYLOAD_LEN_nat)
  then have p: "PAYLOAD_LEN ?h = 126" by (simp only: word_unat_eq_iff) simp
  have rd: "lower_read (le_bytes 2 n @ body) 2 = (Some (le_bytes 2 n), body)"
    using assms(1) by (simp add: delivers_def)
  have ul: "unat (of_nat n :: 64 word) = n"
    using assms(3) by (simp add: unsigned_of_nat take_bit_nat_eq_self)
  have "unat (4 + of_nat n :: 64 word) = 4 + n"
    using ul assms(3) by (simp add: unat_word_ariths)
  then have "lower_read body (unat (4 + of_nat n :: 64 word)) = (Some body, [])"
    using assms(1,4) by (simp add: delivers_def)
  then have "fst (ws_read_mk lower_read (of_nat n) fr body) = Overflow" for fr
    using assms(2,4) ul by (cases "BUFSIZ = n") (auto simp: ws_read_mk_def Let_def)
  moreover have "OPCODE ?h \<noteq> 8" using OPCODE_nat [of ?h] by auto
  ultimately show ?thesis
    using hd p rd l2
    by (simp add: ws_read_def ws_read_pl_def Let_def zero_frame_def overlay_def)
qed

theorem ws_read_long_overflows_witness:
  "fst (ws_read (\<lambda>s n. (Some (take n s), drop n s)) zero_frame
     ([CHR 0x82, CHR 0xFE] @ le_bytes 2 BUFSIZ @ replicate (4 + BUFSIZ) NUL)) = Overflow"
proof -
  have "BUFSIZ < 65536" by (simp add: c_consts)
  moreover have "length (replicate (4 + BUFSIZ) NUL) = 4 + BUFSIZ" by (rule length_replicate)
  ultimately show ?thesis
    by (intro ws_read_long_overflows) (simp_all only: delivers_def order_refl simp_thms)
qed

text \<open>The length bytes are read in memory order: a client's frame of 256 bytes is read as one byte.\<close>

lemma ws_read_length_swapped: "le_value (be_bytes 2 256) = 1"
  by (simp add: be_bytes_def numeral_2_eq_2)

text \<open>A read resumed after its header was consumed asks for the four mask bytes only, and drops the
  payload length it had stored.\<close>

lemma ws_read_resume_drops:
  assumes "pl fr \<noteq> 0" "lower_read c 4 = (Some key, c')" "length key = 4"
  shows "ws_read lower_read fr c = (WsRet 0 [NUL], zero_frame, c')"
  using assms by (simp add: ws_read_def ws_read_mk_def Let_def c_consts)

text \<open>The close frame announces two bytes of reason and is followed by four, least significant first:
  an RFC reader sees the code 61443 and two stray bytes, not 1008.\<close>

lemma ws_close_code_wrong:
  "ws_close (\<lambda>c s. (int (length s), c @ s)) [] = [CHR 0x88, CHR 0x02, CHR 0xF0, CHR 0x03, NUL, NUL]
   \<and> rfc_decode (ws_close (\<lambda>c s. (int (length s), c @ s)) []) = Some (CHR 0x88, [CHR 0xF0, CHR 0x03], [NUL, NUL])
   \<and> be_value [CHR 0xF0, CHR 0x03] = 61443"
proof -
  have "le_bytes (Suc (Suc (Suc (Suc 0)))) 1008 = [CHR 0xF0, CHR 0x03, NUL, NUL]"
    by (simp add: char_of_eq_iff)
  moreover have "(4 :: nat) = Suc (Suc (Suc (Suc 0)))" by simp
  ultimately have b: "le_bytes 4 1008 = [CHR 0xF0, CHR 0x03, NUL, NUL]" by (simp only:)
  have "be_value [CHR 0xF0, CHR 0x03] = 61443" by (simp add: be_value_def)
  then show ?thesis
    by (simp add: ws_close_def b rfc_decode_def rfc_length_def rfc_payload_def Let_def)
qed

text \<open>A formatted write that fits the static buffer sends the text in one frame, but clears the
  flags: the frame, and every frame written after it, is a continuation frame that is not final.\<close>

theorem ws_dprintf_clears_flags:
  assumes "length text < BUFSIZ" "NUL \<notin> set text"
  shows "\<exists>r c'. ws_dprintf lower_write text st c = Some (r, st\<lparr>ws_flags := 0\<rparr>, c')
    \<and> (r, c') = ws_write lower_write text (st\<lparr>ws_flags := 0\<rparr>) c
    \<and> rfc_decode (ws_frame_bytes (ws_flags (st\<lparr>ws_flags := 0\<rparr>)) text) = Some (NUL, text, [])"
proof -
  have "WS_BINARY AND WS_FIN = 0" by (simp add: WS_BINARY_def WS_FIN_def)
  moreover have "rfc_decode (ws_frame_bytes 0 text) = Some (NUL, text, [])"
    using assms(1) be_value_bytes [of 2 "length text"]
    by (auto simp: rfc_decode_def ws_frame_bytes_def Let_def rfc_length_def rfc_payload_def c_consts char_of_eq_iff)
  ultimately show ?thesis
    using assms(1) by (simp add: ws_dprintf_def Let_def split_beta)
qed

theorem ws_dprintf_clears_flags_witness:
  "\<exists>r c'. ws_dprintf (\<lambda>c s. (int (length s), c @ s)) ''hi'' \<lparr>ws_flags = 0x82, frame = zero_frame\<rparr> []
      = Some (r, \<lparr>ws_flags = 0, frame = zero_frame\<rparr>, c')"
  using ws_dprintf_clears_flags [of "''hi''" "\<lambda>c s. (int (length s), c @ s)" "\<lparr>ws_flags = 0x82, frame = zero_frame\<rparr>" "[]"]
  by (auto simp: c_consts)

end
