(* ===== verification/Axil_Headers.thy ===== *)
theory Axil_Headers
  imports Axil_Encode Axil_Status
begin

text \<open>
  Headers, the request environment and the query of \<open>src/libaxil.c\<close>: the response header
  buffer (lines 156 to 232), the lookup of a request header (234 to 256), the parser of the
  request's header lines (1340 to 1388), the environment (1451 to 1477, 596 to 603, 1554 to
  1580) and the query string (1479 to 1552).

  The tables behind a descriptor's environment and the query are made by the qmap library:
  its string-to-string operations are the parameter \<open>string_map\<close> and what the code relies on
  is the predicate \<open>qmap_ok\<close>.  The response header buffer is the C string in it.  A header
  block is the string from the pointer on; \<open>None\<close> is a read past its terminating NUL.
\<close>

section \<open>The tables\<close>

record 'm string_map =
  q_get :: "'m \<Rightarrow> string \<Rightarrow> string option"
  q_put :: "'m \<Rightarrow> string \<Rightarrow> string \<Rightarrow> 'm"
  q_drop :: "'m \<Rightarrow> 'm"

definition qmap_ok :: "'m string_map \<Rightarrow> bool" where
  "qmap_ok q \<longleftrightarrow>
     (\<forall>m k v k'. q_get q (q_put q m k v) k' = (if k' = k then Some v else q_get q m k'))
     \<and> (\<forall>m k. q_get q (q_drop q m) k = None)"

text \<open>An instance on association lists, for concrete evaluations.\<close>

definition alist_map :: "(string \<times> string) list string_map" where
  "alist_map = \<lparr>q_get = map_of, q_put = (\<lambda>m k v. (k, v) # m), q_drop = (\<lambda>m. [])\<rparr>"

lemma alist_map_ok: "qmap_ok alist_map"
  by (auto simp: qmap_ok_def alist_map_def)

lemma qmap_okD [simp]:
  "qmap_ok q \<Longrightarrow> q_get q (q_put q m k v) k' = (if k' = k then Some v else q_get q m k')"
  "qmap_ok q \<Longrightarrow> q_get q (q_drop q m) k = None"
  by (auto simp: qmap_ok_def)

section \<open>Response headers\<close>

definition header_name_eq :: "string \<Rightarrow> string \<Rightarrow> bool" where
  "header_name_eq line name \<longleftrightarrow>
     (if length line \<noteq> length name then False
      else list_all (\<lambda>i. tolower (line ! i) = tolower (name ! i)) [0..<length name])"

function axil_header_has :: "string \<Rightarrow> string \<Rightarrow> bool" where
  "axil_header_has line key =
     (if line = [] then False
      else let fin = (case strstr line CRLF of Some e \<Rightarrow> e | None \<Rightarrow> length line) in
        if (case strchr line (CHR '':'') of Some colon \<Rightarrow> colon < fin \<and> header_name_eq (take colon line) key
            | None \<Rightarrow> False) then True
        else axil_header_has (if fin < length line then drop (fin + 2) line else []) key)"
  by pat_completeness auto
termination
  by (relation "measure (\<lambda>(line, key). length line)") auto

declare axil_header_has.simps [simp del]

text \<open>\<open>snprintf\<close> at the end of the buffer of \<open>BUFSIZ\<close> bytes.\<close>

definition axil_header_set :: "string \<Rightarrow> string \<Rightarrow> string \<Rightarrow> string" where
  "axil_header_set resp_headers key value =
     resp_headers @ snprintf_trunc (BUFSIZ - length resp_headers) (key @ '': '' @ value @ CRLF)"

definition axil_header_set_default :: "string \<Rightarrow> string \<Rightarrow> string \<Rightarrow> string" where
  "axil_header_set_default resp_headers key value =
     (if axil_header_has resp_headers key then resp_headers else axil_header_set resp_headers key value)"

definition axil_default_response_headers :: "string \<Rightarrow> string" where
  "axil_default_response_headers h0 =
     (let h1 = axil_header_set_default h0 ''Cross-Origin-Opener-Policy'' ''same-origin'';
          h2 = axil_header_set_default h1 ''Cross-Origin-Embedder-Policy'' ''require-corp'' in
      axil_header_set_default h2 ''Cross-Origin-Resource-Policy'' ''same-origin'')"

text \<open>\<open>axil_env_clear\<close>: the environment dropped when there is one, the header buffer empty.\<close>

definition axil_env_clear :: "'m string_map \<Rightarrow> 'm option \<Rightarrow> string \<Rightarrow> 'm option \<times> string" where
  "axil_env_clear q env_hd resp_headers = (map_option (q_drop q) env_hd, [])"

section \<open>Request headers\<close>

definition env_char :: "char \<Rightarrow> char" where
  "env_char c = (if c = CHR ''-'' then CHR ''_'' else toupper c)"

definition env_name :: "string \<Rightarrow> string" where
  "env_name key = ''HTTP_'' @ map env_char (take (ENV_KEY_LEN - 1 - 5) key)"

text \<open>The loop of \<open>axil_header_get\<close> (lines 239 to 246).\<close>

fun header_key_loop :: "string \<Rightarrow> nat \<Rightarrow> string \<Rightarrow> string" where
  "header_key_loop [] i env_key = env_key"
| "header_key_loop (c # cs) i env_key =
     (if 5 + i < ENV_KEY_LEN - 1
      then header_key_loop cs (i + 1) (env_key @ [if c = CHR ''-'' then CHR ''_'' else toupper c])
      else env_key)"

definition axil_header_get :: "'m string_map \<Rightarrow> 'm \<Rightarrow> string \<Rightarrow> nat \<Rightarrow> string option" where
  "axil_header_get q env_hd key buf_len =
     (case q_get q env_hd (header_key_loop key 0 ''HTTP_'') of
        None \<Rightarrow> None
      | Some val \<Rightarrow>
          let len = (if buf_len \<le> length val then buf_len - 1 else length val) in Some (take len val))"

text \<open>
  The walk of \<open>headers_get\<close>.  \<open>k\<close> holds the bytes from the pointer \<open>key\<close> on, \<open>v\<close> those from
  \<open>value\<close> on once a colon has been seen (until then the pointers are equal), \<open>pos\<close> is
  \<open>s - next_lines\<close>.  The pairs are given to \<open>axil_env_put\<close> in order.
\<close>

definition line_pair :: "string \<Rightarrow> string option \<Rightarrow> string \<times> string" where
  "line_pair k v =
     (let kl = (case v of None \<Rightarrow> length k | Some w \<Rightarrow> length k + 2 + length w);
          cut = (\<lambda>start s. if BUFSIZ \<le> kl \<and> start \<le> BUFSIZ - 1 then take (BUFSIZ - 1 - start) s else s);
          key = cut 0 k in
      (env_name key, case v of None \<Rightarrow> key | Some w \<Rightarrow> cut (length k + 2) w))"

fun headers_loop ::
  "string \<Rightarrow> string \<Rightarrow> string option \<Rightarrow> nat \<Rightarrow> (string \<times> string) list
     \<Rightarrow> ((string \<times> string) list \<times> nat) option" where
  "headers_loop [] k v pos puts = Some (puts, pos)"
| "headers_loop (c # rest) k v pos puts =
     (if c = CHR '':'' then
        (case v of
           None \<Rightarrow> (case rest of [] \<Rightarrow> None | _ # r \<Rightarrow> headers_loop r k (Some []) (pos + 2) puts)
         | Some w \<Rightarrow> headers_loop rest k (Some (w @ [c])) (pos + 1) puts)
      else if c = CR then
        (if k \<noteq> [] \<or> v \<noteq> None then
           (case rest of [] \<Rightarrow> None
            | _ # r \<Rightarrow> headers_loop r [] None (pos + 2) (puts @ [line_pair k v]))
         else Some (puts, pos + 1))
      else case v of
          None \<Rightarrow> headers_loop rest (k @ [c]) None (pos + 1) puts
        | Some w \<Rightarrow> headers_loop rest k (Some (w @ [c])) (pos + 1) puts)"

definition axil_env_put :: "'m string_map \<Rightarrow> 'm \<Rightarrow> string \<Rightarrow> string option \<Rightarrow> int \<times> 'm" where
  "axil_env_put q env_hd key value =
     (case value of None \<Rightarrow> (1, env_hd) | Some v \<Rightarrow> (0, q_put q env_hd key v))"

definition headers_get :: "'m string_map \<Rightarrow> 'm \<Rightarrow> string \<Rightarrow> ('m \<times> nat) option" where
  "headers_get q env_hd next_lines =
     (case headers_loop next_lines [] None 0 [] of
        None \<Rightarrow> None
      | Some (puts, body_start) \<Rightarrow>
          Some (foldl (\<lambda>m (k, v). snd (axil_env_put q m k (Some v))) env_hd puts, body_start))"

section \<open>Environment\<close>

definition env_sane_char :: "char \<Rightarrow> bool" where
  "env_sane_char c \<longleftrightarrow> 0x80 \<le> ccode c \<or> isalnum c \<or> c = CHR ''/'' \<or> c = CHR ''+'' \<or> c = CHR ''%''
     \<or> c = CHR ''&'' \<or> c = CHR ''_'' \<or> c = CHR ''-'' \<or> c = CHR '' '' \<or> c = CHR ''=''
     \<or> c = CHR '';'' \<or> c = CHR ''.'' \<or> c = CHR 0x22"

text \<open>
  \<open>b - buf - 1 < BUFSIZ\<close> lets the loop store \<open>BUFSIZ + 1\<close> bytes and a NUL in a buffer of
  \<open>BUFSIZ\<close>: \<open>None\<close> is that overflow.
\<close>

fun env_sane_loop :: "string \<Rightarrow> nat \<Rightarrow> string" where
  "env_sane_loop [] n = []"
| "env_sane_loop (c # cs) n = (if n < BUFSIZ + 1 \<and> env_sane_char c then c # env_sane_loop cs (n + 1) else [])"

definition env_sane :: "string \<Rightarrow> string option" where
  "env_sane str = (let b = env_sane_loop str 0 in if length b < BUFSIZ then Some b else None)"

text \<open>\<open>strlcpy\<close> writes nothing when the buffer has no bytes.\<close>

definition axil_env_get :: "'m string_map \<Rightarrow> 'm \<Rightarrow> nat \<Rightarrow> string \<Rightarrow> int \<times> string option" where
  "axil_env_get q env_hd dest_len key =
     (case q_get q env_hd key of
        None \<Rightarrow> (1, None)
      | Some v \<Rightarrow> (0, if dest_len = 0 then None else Some (snprintf_trunc dest_len v)))"

text \<open>\<open>src/axil-posix.c\<close>, 193 to 198: the platform's part, \<open>pw_dir\<close> being \<open>None\<close> for a null pointer.\<close>

definition platform_env_prep :: "'m string_map \<Rightarrow> bool \<Rightarrow> string option \<Rightarrow> string option \<Rightarrow> 'm \<Rightarrow> 'm" where
  "platform_env_prep q euid_nonzero chroot_dir pw_dir m =
     snd (axil_env_put q (snd (axil_env_put q m ''DOCUMENT_ROOT'' (if euid_nonzero then chroot_dir else Some [])))
       ''HOME'' pw_dir)"

definition env_prep ::
  "'m string_map \<Rightarrow> bool \<Rightarrow> string option \<Rightarrow> string option \<Rightarrow> 'm \<Rightarrow> string \<Rightarrow> string \<Rightarrow> string \<Rightarrow> 'm option" where
  "env_prep q euid_nonzero chroot_dir pw_dir m document_uri param method =
     (let ct = (case axil_env_get q m BUFSIZ ''HTTP_CONTENT_TYPE'' of
                  (_, Some v) \<Rightarrow> v | (_, None) \<Rightarrow> ''text/plain'') in
      case env_sane ct of
        None \<Rightarrow> None
      | Some ct' \<Rightarrow>
          let m1 = snd (axil_env_put q m ''CONTENT_TYPE'' (Some ct'));
              m2 = snd (axil_env_put q m1 ''DOCUMENT_URI'' (Some document_uri)) in
          case env_sane param of
            None \<Rightarrow> None
          | Some p' \<Rightarrow>
              let m3 = snd (axil_env_put q m2 ''QUERY_STRING'' (Some p'));
                  m4 = snd (axil_env_put q m3 ''REQUEST_METHOD'' (Some method)) in
              Some (platform_env_prep q euid_nonzero chroot_dir pw_dir
                (snd (axil_env_put q m4 ''DOCUMENT_ROOT'' (if euid_nonzero then chroot_dir else Some [])))))"

section \<open>Query string\<close>

text \<open>
  \<open>sscanf(s, "%2x", &c)\<close>: blanks are skipped, then a field of at most two characters is read:
  an optional sign and hexadecimal digits, \<open>0x\<close> alone being no number.  \<open>None\<close> is a matching
  failure, after which \<open>c\<close> is indeterminate.
\<close>

definition sscanf_2x :: "string \<Rightarrow> char option" where
  "sscanf_2x s =
     (let t = dropWhile isspace s; hv = (\<lambda>c. nat (hex_digit_value c)) in
      case t of
        [] \<Rightarrow> None
      | a # u \<Rightarrow>
          if isxdigit a then
            (case u of
               [] \<Rightarrow> Some (char_of (hv a))
             | b # _ \<Rightarrow>
                 if isxdigit b then Some (char_of (hv a * 16 + hv b))
                 else if a = CHR ''0'' \<and> (b = CHR ''x'' \<or> b = CHR ''X'') then None
                 else Some (char_of (hv a)))
          else
            (case u of
               [] \<Rightarrow> None
             | b # _ \<Rightarrow>
                 if isxdigit b \<and> a = CHR ''+'' then Some (char_of (hv b))
                 else if isxdigit b \<and> a = CHR ''-'' then Some (char_of ((256 - hv b) mod 256))
                 else None))"

text \<open>
  The decoding loop (lines 1503 to 1521).  An indeterminate byte makes the result \<open>None\<close>.
  \<open>decoded\<close> ends at its first NUL when it is stored.
\<close>

fun query_decode :: "string \<Rightarrow> string option" where
  "query_decode [] = Some []"
| "query_decode (c # cs) =
     (if c = CHR ''+'' then map_option ((#) (CHR '' '')) (query_decode cs)
      else case cs of
          x # y # r \<Rightarrow>
            (if c = CHR ''%''
             then (case sscanf_2x cs of
                     None \<Rightarrow> None
                   | Some d \<Rightarrow> map_option ((#) d) (query_decode r))
             else map_option ((#) c) (query_decode cs))
        | _ \<Rightarrow> map_option ((#) c) (query_decode cs))"

text \<open>\<open>strtok_r(copy, "&", ...)\<close>: the non-empty pieces between ampersands.\<close>

definition strtok_all :: "char \<Rightarrow> string \<Rightarrow> string list" where
  "strtok_all d s = filter (\<lambda>p. p \<noteq> []) (split_on d s)"

text \<open>\<open>alloc n\<close> says whether \<open>malloc\<close> gives \<open>n\<close> bytes.\<close>

fun query_pairs :: "'m string_map \<Rightarrow> (nat \<Rightarrow> bool) \<Rightarrow> string list \<Rightarrow> 'm \<Rightarrow> 'm option" where
  "query_pairs q alloc [] m = Some m"
| "query_pairs q alloc (pair # rest) m =
     (case strchr pair (CHR ''='') of
        None \<Rightarrow> query_pairs q alloc rest m
      | Some e \<Rightarrow>
          let key = take e pair; val = drop (e + 1) pair in
          if alloc (length val + 1) then
            (case query_decode val of
               None \<Rightarrow> None
             | Some decoded \<Rightarrow> query_pairs q alloc rest (q_put q m key (cstr decoded)))
          else query_pairs q alloc rest m)"

text \<open>The query table may not exist yet (first argument \<open>None\<close>), the body may be a null pointer.\<close>

definition axil_query_parse ::
  "'m string_map \<Rightarrow> (nat \<Rightarrow> bool) \<Rightarrow> 'm option \<Rightarrow> string option \<Rightarrow> (int \<times> 'm option) option" where
  "axil_query_parse q alloc query_db body =
     (case query_db of
        None \<Rightarrow> Some (- 1, None)
      | Some m0 \<Rightarrow>
          let m = q_drop q m0 in
          (case body of
             None \<Rightarrow> Some (0, Some m)
           | Some b \<Rightarrow>
               if b = [] then Some (0, Some m)
               else if \<not> alloc (length b + 1) then Some (- 1, Some m)
               else map_option (\<lambda>m'. (0, Some m')) (query_pairs q alloc (strtok_all (CHR ''&'') b) m)))"

text \<open>The return value and the text left in the buffer (\<open>None\<close>: the buffer is not touched).\<close>

definition axil_query_param :: "'m string_map \<Rightarrow> 'm option \<Rightarrow> string \<Rightarrow> nat \<Rightarrow> int \<times> string option" where
  "axil_query_param q query_db name buf_len =
     (case query_db of
        None \<Rightarrow> (- 1, None)
      | Some m \<Rightarrow>
          if buf_len = 0 then (- 1, None)
          else case q_get q m name of
              None \<Rightarrow> (- 1, Some [])
            | Some val \<Rightarrow>
                let len = (if buf_len \<le> length val then buf_len - 1 else length val) in
                (int len, Some (take len val)))"

section \<open>Writing a response\<close>

text \<open>
  What \<open>axil_respond\<close> hands to \<open>axil_write\<close>, in order (lines 258 to 280); \<open>None\<close> when the head
  does not fit the 4096 bytes it is formatted in and the writes read past them.
\<close>

definition respond_head :: "int \<Rightarrow> string \<Rightarrow> string" where
  "respond_head code resp_headers =
     ''HTTP/1.1 '' @ show_int code @ '' '' @ axil_status_text code @ CRLF @ resp_headers @ CRLF"

definition respond_writes :: "bool \<Rightarrow> int \<Rightarrow> string option \<Rightarrow> string \<Rightarrow> string list option" where
  "respond_writes df_head code body resp_headers =
     (let body_len = (case body of Some b \<Rightarrow> if df_head then 0 else length b | None \<Rightarrow> 0);
          b = (case body of Some b \<Rightarrow> b | None \<Rightarrow> []);
          hd_text = respond_head code (axil_default_response_headers resp_headers);
          hlen = length hd_text in
      if 4096 < hlen then None
      else
        let hdr = take hlen (snprintf_trunc 4096 hd_text @ [NUL]) in
        if 0 < body_len \<and> hlen + body_len \<le> 65536 then Some [hdr @ b]
        else if 0 < body_len then Some [hdr, b] else Some [hdr])"

section \<open>Header blocks\<close>

text \<open>A header block as a client or the code itself writes it.\<close>

definition render :: "(string \<times> string) list \<Rightarrow> string" where
  "render hs = concat (map (\<lambda>(k, v). k @ '': '' @ v @ CRLF) hs)"

definition header_ok :: "string \<times> string \<Rightarrow> bool" where
  "header_ok h \<longleftrightarrow> CHR '':'' \<notin> set (fst h) \<and> CR \<notin> set (fst h) \<and> CR \<notin> set (snd h)
     \<and> length (fst h) + length (snd h) + 2 < BUFSIZ"

lemma render_Nil [simp]: "render [] = []"
  by (simp add: render_def)

lemma render_Cons [simp]: "render ((k, v) # hs) = k @ '': '' @ v @ CRLF @ render hs"
  by (simp add: render_def)

lemma render_append [simp]: "render (a @ b) = render a @ render b"
  by (simp add: render_def)

lemma headers_loop_key:
  "CHR '':'' \<notin> set ks \<Longrightarrow> CR \<notin> set ks \<Longrightarrow>
     headers_loop (ks @ rest) k None pos puts = headers_loop rest (k @ ks) None (pos + length ks) puts"
  by (induction ks arbitrary: k pos) auto

lemma headers_loop_value:
  "CR \<notin> set vs \<Longrightarrow>
     headers_loop (vs @ rest) k (Some w) pos puts = headers_loop rest k (Some (w @ vs)) (pos + length vs) puts"
  by (induction vs arbitrary: w pos) auto

lemma line_pair_short: "length k + length v + 2 < BUFSIZ \<Longrightarrow> line_pair k (Some v) = (env_name k, v)"
  by (simp add: line_pair_def)

lemma headers_loop_line:
  assumes "header_ok (k, v)"
  shows "headers_loop (k @ '': '' @ v @ CRLF @ rest) [] None pos puts
    = headers_loop rest [] None (pos + length k + length v + 4) (puts @ [(env_name k, v)])"
  using assms by (simp add: headers_loop_key headers_loop_value line_pair_short header_ok_def add.assoc numeral_eq_Suc)

lemma headers_loop_render:
  "\<forall>h \<in> set hs. header_ok h \<Longrightarrow>
     headers_loop (render hs @ rest) [] None pos puts
       = headers_loop rest [] None (pos + length (render hs)) (puts @ map (\<lambda>(k, v). (env_name k, v)) hs)"
proof (induction hs arbitrary: pos puts)
  case Nil
  then show ?case by simp
next
  case (Cons h hs)
  obtain k v where h: "h = (k, v)" by (cases h)
  with Cons.prems have "header_ok (k, v)" by simp
  from headers_loop_line [OF this, of "render hs @ rest" pos puts] Cons h show ?case
    by (simp add: add.assoc numeral_eq_Suc)
qed

lemma header_key_eq: "header_key_loop key 0 ''HTTP_'' = env_name key"
proof -
  have "header_key_loop key i e = e @ map env_char (take (122 - i) key)" for i e
  proof (induction key arbitrary: i e)
    case (Cons c cs)
    then show ?case
      by (cases "i < 122") (auto simp: c_consts env_char_def take_Cons' less_diff_conv)
  qed simp
  then show ?thesis by (simp add: env_name_def c_consts)
qed

lemma foldl_put_lookup:
  "qmap_ok q \<Longrightarrow> q_get q (foldl (\<lambda>m (k, v). snd (axil_env_put q m k (Some v))) m puts) k
     = (case map_of (rev puts) k of Some v \<Rightarrow> Some v | None \<Rightarrow> q_get q m k)"
  by (induction puts rule: rev_induct) (auto simp: axil_env_put_def)

lemma toupper_eq_minus [simp]: "toupper c = CHR ''-'' \<longleftrightarrow> c = CHR ''-''"
proof -
  have n: "ccode (toupper c) = 45 \<longleftrightarrow> ccode c = 45"
    by (cases "islower c") (simp_all add: ccode_toupper, simp add: cclass, linarith)
  have m: "x = CHR ''-'' \<longleftrightarrow> ccode x = 45" for x
    using ccode_inj [of x "CHR ''-''"] by auto
  show ?thesis by (simp only: m n)
qed

lemma env_name_case:
  "map toupper a = map toupper b \<Longrightarrow> env_name a = env_name b"
proof -
  assume e: "map toupper a = map toupper b"
  have "env_char c = env_char d" if "toupper c = toupper d" for c d
    using that toupper_eq_minus [of c] toupper_eq_minus [of d] by (auto simp: env_char_def)
  note ec = this
  have "map env_char a = map env_char b"
    using e
  proof (induction a arbitrary: b)
    case (Cons x a)
    then obtain y c where b: "b = y # c" "toupper x = toupper y" "map toupper a = map toupper c"
      by (cases b) auto
    with Cons.IH [of c] ec [of x y] show ?case by simp
  qed simp
  then show ?thesis by (simp add: env_name_def take_map [symmetric])
qed

text \<open>C7. A well-formed header block, its blank line and whatever follows: every header is stored
  under its environment name, the offset returned is that of the blank line's line feed, and
  \<open>axil_header_get\<close> then finds, whatever case the name is asked in, the value of the last
  header with that name, cut to the buffer.\<close>

theorem headers_get_then_header_get:
  assumes "qmap_ok q" "\<forall>h \<in> set hs. header_ok h" "map toupper name = map toupper key" "0 < n"
  shows "\<exists>m'. headers_get q m (render hs @ CRLF @ body) = Some (m', length (render hs) + 1)
    \<and> axil_header_get q m' name n
        = map_option (snprintf_trunc n)
            (case map_of (rev (map (\<lambda>(k, v). (env_name k, v)) hs)) (env_name key) of
               Some v \<Rightarrow> Some v | None \<Rightarrow> q_get q m (env_name key))"
proof -
  have cut: "take (if n \<le> length v then n - 1 else length v) v = snprintf_trunc n v" for v :: string
    by (auto simp: snprintf_trunc_def)
  show ?thesis
    using assms env_name_case [OF assms(3)]
    by (simp add: headers_get_def headers_loop_render axil_header_get_def header_key_eq
        foldl_put_lookup cut Let_def option.map_comp split: option.split)
qed

theorem headers_get_then_header_get_witness:
  "\<exists>m'. headers_get alist_map [] (''Host: a'' @ CRLF @ CRLF @ ''body'') = Some (m', 10)
    \<and> axil_header_get alist_map m' ''hOST'' 8 = Some ''a''"
proof -
  have u: "map toupper ''hOST'' = map toupper ''Host''" by code_simp
  have o: "header_ok (''Host'', ''a'')" by (simp add: header_ok_def c_consts)
  have r: "render [(''Host'', ''a'')] @ CRLF @ ''body'' = ''Host: a'' @ CRLF @ CRLF @ ''body''"
    "length (render [(''Host'', ''a'')]) + 1 = 10" by simp_all
  have "snprintf_trunc 8 ''a'' = ''a''" by simp
  then show ?thesis
    using headers_get_then_header_get [of alist_map "[(''Host'', ''a'')]" "''hOST''" "''Host''" 8 "[]" "''body''",
        OF alist_map_ok _ u, unfolded r] o by simp
qed

text \<open>A header line without a blank after its colon swallows the line feed that ends it: the next
  header line becomes part of its value.\<close>

lemma headers_get_empty_value_swallows:
  "headers_loop (''A:'' @ CRLF @ ''B: c'' @ CRLF @ CRLF) [] None 0 []
     = Some ([(''HTTP_A'', LF # ''B: c'')], 11)"
  by code_simp

text \<open>A block that ends in a colon makes the walk step over the terminating NUL.\<close>

lemma headers_get_overruns: "headers_loop ''A:'' [] None 0 [] = None"
  by simp

lemma header_name_eq_map: "header_name_eq a b \<longleftrightarrow> map tolower a = map tolower b"
proof -
  have "header_name_eq a b \<longleftrightarrow> length a = length b \<and> (\<forall>i<length a. tolower (a ! i) = tolower (b ! i))"
    by (simp add: header_name_eq_def list_all_iff atLeast0LessThan Ball_def)
  moreover have "map tolower a = map tolower b
      \<longleftrightarrow> length a = length b \<and> (\<forall>i<length a. tolower (a ! i) = tolower (b ! i))"
    by (simp only: list_eq_iff_nth_eq [of "map tolower a"] length_map) (metis nth_map)
  ultimately show ?thesis by (simp only:)
qed

lemma header_has_line:
  assumes "header_ok (k, v)"
  shows "axil_header_has (k @ '': '' @ v @ CRLF @ rest) key
    \<longleftrightarrow> map tolower k = map tolower key \<or> axil_header_has rest key"
proof -
  let ?l = "k @ '': '' @ v @ CRLF @ rest"
  have c: "strchr ?l (CHR '':'') = Some (length k)"
    using assms strchr_append [of "CHR '':''" k "CHR '' '' # v @ CRLF @ rest"] by (simp add: header_ok_def)
  have "CR \<notin> set (k @ '': '' @ v)" using assms by (simp add: header_ok_def)
  from strstr_CRLF [OF this, of rest] have e: "strstr ?l CRLF = Some (length k + 2 + length v)"
    by (simp del: strstr.simps)
  have "length k + 2 + length v + 2 = length (k @ '': '' @ v @ CRLF)" by simp
  then have d: "drop (length k + 2 + length v + 2) ?l = rest"
    by (metis append_assoc append_eq_conv_conj)
  have ne: "?l \<noteq> []" "length k + 2 + length v < length ?l" by simp_all
  show ?thesis
    by (subst axil_header_has.simps)
      (simp only: c e d ne Let_def option.case if_True if_False, simp add: header_name_eq_map)
qed

lemma header_has_render_lib:
  "\<forall>h \<in> set hs. header_ok h \<Longrightarrow>
     axil_header_has (render hs) key \<longleftrightarrow> (\<exists>(k, v) \<in> set hs. map tolower k = map tolower key)"
proof (induction hs)
  case Nil
  then show ?case by (simp add: axil_header_has.simps)
next
  case (Cons h hs)
  obtain k v where h: "h = (k, v)" by (cases h)
  then show ?case using Cons header_has_line [of k v "render hs" key] by simp
qed

text \<open>The response header buffer holding a well-formed block answers the presence test exactly:
  some header has the name asked, in any case.\<close>

theorem header_has_render:
  "\<forall>h \<in> set hs. header_ok h \<Longrightarrow>
     axil_header_has (render hs) key \<longleftrightarrow> (\<exists>(k, v) \<in> set hs. map tolower k = map tolower key)"
  by (rule header_has_render_lib)

theorem header_has_render_witness:
  "axil_header_has (render [(''ETag'', ''x'')]) ''etag''"
proof -
  have "map tolower ''ETag'' = map tolower ''etag''" by code_simp
  then show ?thesis using header_has_render [of "[(''ETag'', ''x'')]" "''etag''"] by (simp add: header_ok_def c_consts)
qed

lemma header_set_default_render:
  assumes "\<forall>h \<in> set hs. header_ok h" "header_ok (k, v)"
    "length (render hs) + length k + length v + 4 < BUFSIZ"
  shows "\<exists>ex. axil_header_set_default (render hs) k v = render (hs @ ex) \<and> set ex \<subseteq> {(k, v)}
    \<and> length (render ex) \<le> length k + length v + 4 \<and> (\<exists>(k', v') \<in> set (hs @ ex). map tolower k' = map tolower k)"
proof (cases "axil_header_has (render hs) k")
  case True
  with header_has_render_lib [OF assms(1)] show ?thesis
    by (intro exI [of _ "[]"]) (auto simp: axil_header_set_default_def)
next
  case False
  have "axil_header_set (render hs) k v = render (hs @ [(k, v)])"
    using assms(3) by (simp add: axil_header_set_def)
  with False show ?thesis
    by (intro exI [of _ "[(k, v)]"]) (simp add: axil_header_set_default_def)
qed

text \<open>The three headers every response carries.\<close>

definition cross_origin :: "(string \<times> string) list" where
  "cross_origin = [(''Cross-Origin-Opener-Policy'', ''same-origin''),
     (''Cross-Origin-Embedder-Policy'', ''require-corp''),
     (''Cross-Origin-Resource-Policy'', ''same-origin'')]"

lemma cross_origin_ok:
  "header_ok (''Cross-Origin-Opener-Policy'', ''same-origin'')"
  "header_ok (''Cross-Origin-Embedder-Policy'', ''require-corp'')"
  "header_ok (''Cross-Origin-Resource-Policy'', ''same-origin'')"
  by (simp_all add: header_ok_def c_consts)

lemma default_chain:
  assumes "\<forall>h \<in> set hs. header_ok h" "header_ok (n1, v1)" "header_ok (n2, v2)" "header_ok (n3, v3)"
    "length (render hs) + length n1 + length v1 + length n2 + length v2 + length n3 + length v3 + 12 < BUFSIZ"
    and h: "h1 = axil_header_set_default (render hs) n1 v1" "h2 = axil_header_set_default h1 n2 v2"
      "h3 = axil_header_set_default h2 n3 v3"
  shows "\<exists>ex. h3 = render (hs @ ex) \<and> set ex \<subseteq> {(n1, v1), (n2, v2), (n3, v3)}
    \<and> axil_header_has h3 n1 \<and> axil_header_has h3 n2 \<and> axil_header_has h3 n3"
proof -
  obtain e1 where e1: "h1 = render (hs @ e1)" "set e1 \<subseteq> {(n1, v1)}"
    "length (render e1) \<le> length n1 + length v1 + 4"
    "\<exists>(k', v') \<in> set (hs @ e1). map tolower k' = map tolower n1"
    using header_set_default_render [OF assms(1,2)] assms(5) h(1) by auto
  have ok1: "\<forall>h \<in> set (hs @ e1). header_ok h" using e1(2) assms(1,2) by auto
  obtain e2 where e2: "h2 = render ((hs @ e1) @ e2)" "set e2 \<subseteq> {(n2, v2)}"
    "length (render e2) \<le> length n2 + length v2 + 4"
    "\<exists>(k', v') \<in> set ((hs @ e1) @ e2). map tolower k' = map tolower n2"
    using header_set_default_render [OF ok1 assms(3)] assms(5) h(2) e1(1,3) by auto
  have ok2: "\<forall>h \<in> set ((hs @ e1) @ e2). header_ok h" using e2(2) ok1 assms(3) by auto
  obtain e3 where e3: "h3 = render (((hs @ e1) @ e2) @ e3)" "set e3 \<subseteq> {(n3, v3)}"
    "\<exists>(k', v') \<in> set (((hs @ e1) @ e2) @ e3). map tolower k' = map tolower n3"
    using header_set_default_render [OF ok2 assms(4)] assms(5) h(3) e1(3) e2(1,3) by auto
  have ok3: "\<forall>h \<in> set (((hs @ e1) @ e2) @ e3). header_ok h" using e3(2) ok2 assms(4) by auto
  have "axil_header_has h3 n1 \<and> axil_header_has h3 n2 \<and> axil_header_has h3 n3"
    unfolding e3(1) header_has_render_lib [OF ok3] using e1(4) e2(4) e3(3) by auto
  moreover have "h3 = render (hs @ e1 @ e2 @ e3)" using e3(1) by simp
  ultimately show ?thesis
    using e1(2) e2(2) e3(2) by (intro exI [of _ "e1 @ e2 @ e3"]) (auto simp del: render_append)
qed

text \<open>Unless the buffer is nearly full, the default headers are appended to what the handler
  set, each only when no header of that name is there, so all three names are present
  afterwards, nothing else is added, and a second pass adds nothing.\<close>

theorem default_headers_complete:
  assumes "\<forall>h \<in> set hs. header_ok h" "length (render hs) + 200 < BUFSIZ"
  shows "\<exists>ex. axil_default_response_headers (render hs) = render (hs @ ex) \<and> set ex \<subseteq> set cross_origin
    \<and> (\<forall>(k, v) \<in> set cross_origin. axil_header_has (render (hs @ ex)) k)
    \<and> axil_default_response_headers (render (hs @ ex)) = render (hs @ ex)"
proof -
  have "length (render hs) + length ''Cross-Origin-Opener-Policy'' + length ''same-origin''
      + length ''Cross-Origin-Embedder-Policy'' + length ''require-corp''
      + length ''Cross-Origin-Resource-Policy'' + length ''same-origin'' + 12 < BUFSIZ"
    using assms(2) by simp
  from default_chain [OF assms(1) cross_origin_ok this refl refl refl]
  obtain ex where ex: "axil_default_response_headers (render hs) = render (hs @ ex)"
    "set ex \<subseteq> set cross_origin" "\<forall>(k, v) \<in> set cross_origin. axil_header_has (render (hs @ ex)) k"
    unfolding axil_default_response_headers_def Let_def cross_origin_def
    by (auto simp del: render_append)
  moreover have "axil_default_response_headers (render (hs @ ex)) = render (hs @ ex)"
    using ex(3) by (simp add: axil_default_response_headers_def axil_header_set_default_def
        cross_origin_def del: render_append)
  ultimately show ?thesis by blast
qed

theorem default_headers_complete_witness:
  "\<exists>ex. axil_default_response_headers (render [(''ETag'', ''x'')]) = render ([(''ETag'', ''x'')] @ ex)
    \<and> axil_header_has (render ([(''ETag'', ''x'')] @ ex)) ''Cross-Origin-Opener-Policy''"
  using default_headers_complete [of "[(''ETag'', ''x'')]"]
  by (auto simp: header_ok_def c_consts cross_origin_def simp del: render_append render_Cons)
    (auto simp: render_def)

section \<open>Environment and query\<close>

lemma env_sane_loop_eq: "env_sane_loop s n = take (BUFSIZ + 1 - n) (takeWhile env_sane_char s)"
proof (induction s arbitrary: n)
  case (Cons c cs)
  then show ?case
    by (cases "n < BUFSIZ + 1") (auto simp: take_Cons' Suc_diff_le)
qed simp

text \<open>What is stored of the content type and the query is the longest prefix of the input made
  of harmless characters, so no shell metacharacter, control character or angle bracket is; no
  string of fewer than \<open>BUFSIZ\<close> bytes overflows the static buffer.\<close>

theorem env_sane_prefix:
  "length s < BUFSIZ \<Longrightarrow> env_sane s = Some (takeWhile env_sane_char s)
     \<and> list_all env_sane_char (takeWhile env_sane_char s)"
proof -
  assume "length s < BUFSIZ"
  then have l: "length (takeWhile env_sane_char s) < BUFSIZ"
    using length_takeWhile_le [of env_sane_char s] by linarith
  then show ?thesis
    by (auto simp: env_sane_def env_sane_loop_eq Let_def list_all_iff dest: set_takeWhileD)
qed

theorem env_sane_prefix_witness: "env_sane ''a=1;rm<x'' = Some ''a=1;rm''"
proof -
  have "takeWhile env_sane_char ''a=1;rm<x'' = ''a=1;rm''" by code_simp
  then show ?thesis using env_sane_prefix [of "''a=1;rm<x''"] by (simp add: c_consts)
qed

text \<open>From \<open>BUFSIZ\<close> harmless bytes on, the NUL no longer fits: the bound of the loop is off by two.\<close>

lemma env_sane_overflows: "env_sane (replicate BUFSIZ (CHR ''a'')) = None"
proof -
  have "takeWhile env_sane_char (replicate n (CHR ''a'')) = replicate n (CHR ''a'')" for n
    by (induction n) (auto simp: env_sane_char_def cclass)
  then show ?thesis by (simp add: env_sane_def env_sane_loop_eq Let_def)
qed

definition url_enc :: "string \<Rightarrow> string" where
  "url_enc v = fst (axil_url_encode v (4 * length v + 1))"

text \<open>A form body: \<open>k=v\<close> pairs with percent-encoded values, joined by ampersands.\<close>

fun query_body :: "(string \<times> string) list \<Rightarrow> string" where
  "query_body [] = []"
| "query_body [(k, v)] = k @ ''='' @ url_enc v"
| "query_body ((k, v) # p # ps) = k @ ''='' @ url_enc v @ ''&'' @ query_body (p # ps)"

lemma url_enc_eq: "url_enc v = concat (map url_emit v)"
proof -
  have "sum_list (map (\<lambda>_. 4) v) = 4 * length v" by (induction v) auto
  then show ?thesis
    using url.loop_complete [of "[]" v "4 * length v + 1"] by (simp add: url_enc_def axil_url_encode_def Let_def)
qed

lemma hexdig_upper_props:
  assumes "n < 16"
  shows "isxdigit (hexdig_upper n)" "\<not> isspace (hexdig_upper n)"
    "hexdig_upper n \<noteq> CHR ''x''" "hexdig_upper n \<noteq> CHR ''X''"
proof -
  have c: "ccode (hexdig_upper n) = (if n < 10 then 48 + n else 55 + n)"
    using assms by (simp add: hexdig_upper_def)
  show "isxdigit (hexdig_upper n)" "\<not> isspace (hexdig_upper n)"
    using assms by (auto simp: cclass c)
  have "ccode (hexdig_upper n) \<noteq> 120" "ccode (hexdig_upper n) \<noteq> 88" using assms by (auto simp: c)
  then show "hexdig_upper n \<noteq> CHR ''x''" "hexdig_upper n \<noteq> CHR ''X''" by auto
qed

lemma sscanf_hex2:
  "sscanf_2x (hex2_upper c @ s) = Some c"
proof -
  have "char_of (ccode c div 16 * 16 + ccode c mod 16) = c" by (simp only: div_mult_mod_eq char_of_char)
  then show ?thesis
    using hexdig_upper_props [of "ccode c div 16"] hexdig_upper_props [of "ccode c mod 16"]
    by (simp add: sscanf_2x_def hex2_upper_def)
qed

lemma query_decode_emit: "query_decode (url_emit c @ s) = map_option ((#) c) (query_decode s)"
proof (cases "url_unreserved c")
  case True
  then have "c \<noteq> CHR ''+''" "c \<noteq> CHR ''%''" by (auto simp: url_unreserved_def cclass)
  with True show ?thesis by (auto simp: url_emit_def split: list.splits)
next
  case False
  then show ?thesis
    using sscanf_hex2 [of c s] by (simp add: url_emit_def hex2_upper_def)
qed

lemma query_decode_enc: "query_decode (url_enc v) = Some v"
proof -
  have "query_decode (concat (map url_emit v)) = Some v"
    by (induction v) (simp_all add: query_decode_emit)
  then show ?thesis by (simp add: url_enc_eq)
qed

lemma url_enc_no_amp: "CHR ''&'' \<notin> set (url_enc v)" "CHR ''='' \<notin> set (url_enc v)"
  using url_emit_alphabet [of "CHR ''&''"] url_emit_alphabet [of "CHR ''=''"]
  by (auto simp: url_enc_eq url_alphabet_def url_unreserved_def cclass)

definition pair_text :: "string \<times> string \<Rightarrow> string" where
  "pair_text p = fst p @ ''='' @ url_enc (snd p)"

lemma strtok_query_body:
  "\<forall>(k, v) \<in> set ps. CHR ''&'' \<notin> set k \<Longrightarrow> strtok_all (CHR ''&'') (query_body ps) = map pair_text ps"
proof (induction ps rule: query_body.induct)
  case 1
  then show ?case by (simp add: strtok_all_def)
next
  case (2 k v)
  then have "CHR ''&'' \<notin> set (k @ ''='' @ url_enc v)" using url_enc_no_amp by simp
  from split_on_Nil [OF this] show ?case by (simp add: strtok_all_def pair_text_def)
next
  case (3 k v p ps)
  then have "CHR ''&'' \<notin> set (k @ ''='' @ url_enc v)" using url_enc_no_amp by simp
  from split_on_append [OF this, of "query_body (p # ps)"] 3 show ?case
    by (simp add: strtok_all_def pair_text_def)
qed

lemma query_pairs_enc:
  assumes "qmap_ok q" "\<forall>(k, v) \<in> set ps. CHR ''='' \<notin> set k \<and> NUL \<notin> set v"
  shows "\<exists>m'. query_pairs q (\<lambda>n. True) (map pair_text ps) m = Some m'
    \<and> (\<forall>name. q_get q m' name = (case map_of (rev ps) name of Some v \<Rightarrow> Some v | None \<Rightarrow> q_get q m name))"
  using assms(2)
proof (induction ps arbitrary: m)
  case Nil
  then show ?case by simp
next
  case (Cons p ps)
  obtain k v where p: "p = (k, v)" by (cases p)
  have s: "strchr (pair_text p) (CHR ''='') = Some (length k)"
    using Cons.prems p strchr_append [of "CHR ''=''" k "url_enc v"] by (simp add: pair_text_def)
  have t: "take (length k) (pair_text p) = k" "drop (length k + 1) (pair_text p) = url_enc v"
    by (simp_all add: pair_text_def p)
  have n: "cstr v = v" using Cons.prems p by simp
  from Cons obtain m' where m': "query_pairs q (\<lambda>n. True) (map pair_text ps) (q_put q m k v) = Some m'"
    "\<forall>name. q_get q m' name
      = (case map_of (rev ps) name of Some v \<Rightarrow> Some v | None \<Rightarrow> q_get q (q_put q m k v) name)"
    by (metis (no_types, lifting) list.set_intros(2))
  show ?case
    using m' s t n assms(1) p
    by (intro exI [of _ m']) (auto simp: Let_def query_decode_enc map_add_def split: option.splits)
qed

text \<open>C30. A form body built from percent-encoded values parses, when memory suffices, to exactly
  its pairs, an earlier query forgotten: \<open>axil_query_param\<close> gives the decoded value of the last
  pair with that name, cut to the buffer, with its length, and -1 for any other name.\<close>

theorem query_parse_roundtrip:
  assumes "qmap_ok q" "ps \<noteq> []" "0 < n"
    "\<forall>(k, v) \<in> set ps. CHR ''='' \<notin> set k \<and> CHR ''&'' \<notin> set k \<and> NUL \<notin> set v"
  shows "\<exists>m'. axil_query_parse q (\<lambda>n. True) (Some m) (Some (query_body ps)) = Some (0, Some m')
    \<and> axil_query_param q (Some m') name n
        = (case map_of (rev ps) name of
             Some v \<Rightarrow> (int (length (snprintf_trunc n v)), Some (snprintf_trunc n v))
           | None \<Rightarrow> (- 1, Some []))"
proof -
  have ne: "query_body ps \<noteq> []" using assms(2) by (cases ps rule: query_body.cases) auto
  have tok: "strtok_all (CHR ''&'') (query_body ps) = map pair_text ps"
    using assms(4) by (intro strtok_query_body) auto
  obtain m' where m': "query_pairs q (\<lambda>n. True) (map pair_text ps) (q_drop q m) = Some m'"
    "\<forall>name. q_get q m' name
      = (case map_of (rev ps) name of Some v \<Rightarrow> Some v | None \<Rightarrow> q_get q (q_drop q m) name)"
    using query_pairs_enc [OF assms(1), of ps "q_drop q m"] assms(4) by fastforce
  have cut: "take (if n \<le> length v then n - 1 else length v) v = snprintf_trunc n v"
    "(if n \<le> length v then n - 1 else length v) = length (snprintf_trunc n v)" for v :: string
    by (auto simp: snprintf_trunc_def)
  have cut2: "take (length (snprintf_trunc n v)) v = snprintf_trunc n v" for v :: string
    using snp.copy_prefix [of n v] by (metis append_eq_conv_conj prefix_def)
  show ?thesis
    using m' tok ne assms(1,3)
    by (intro exI [of _ m'])
      (auto simp: axil_query_parse_def axil_query_param_def cut cut2 Let_def split: option.split)
qed

theorem query_parse_roundtrip_witness:
  "\<exists>m'. axil_query_parse alist_map (\<lambda>n. True) (Some []) (Some (query_body [(''q'', ''a&b'')])) = Some (0, Some m')
    \<and> axil_query_param alist_map (Some m') ''q'' 16 = (3, Some ''a&b'')"
  using query_parse_roundtrip [of alist_map "[(''q'', ''a&b'')]" 16 "[]" "''q''"] alist_map_ok
  by simp

section \<open>Responses\<close>

lemma default_headers_empty: "axil_default_response_headers [] = render cross_origin"
proof -
  have n: "map tolower ''Cross-Origin-Opener-Policy'' \<noteq> map tolower ''Cross-Origin-Embedder-Policy''"
    "map tolower ''Cross-Origin-Opener-Policy'' \<noteq> map tolower ''Cross-Origin-Resource-Policy''"
    "map tolower ''Cross-Origin-Embedder-Policy'' \<noteq> map tolower ''Cross-Origin-Resource-Policy''"
    by code_simp+
  have step: "axil_header_set_default (render hs) k v = render (hs @ [(k, v)])"
    if "\<forall>h \<in> set hs. header_ok h" "\<forall>(k', v') \<in> set hs. map tolower k' \<noteq> map tolower k"
      "length (render hs) + length k + length v + 4 < BUFSIZ" for hs k v
    using that header_has_render_lib [OF that(1)]
    by (auto simp: axil_header_set_default_def axil_header_set_def)
  note s1 = step [of "[]" "''Cross-Origin-Opener-Policy''" "''same-origin''"]
  note s2 = step [of "[(''Cross-Origin-Opener-Policy'', ''same-origin'')]"
      "''Cross-Origin-Embedder-Policy''" "''require-corp''"]
  note s3 = step [of "[(''Cross-Origin-Opener-Policy'', ''same-origin''),
      (''Cross-Origin-Embedder-Policy'', ''require-corp'')]" "''Cross-Origin-Resource-Policy''" "''same-origin''"]
  have "axil_header_set_default [] ''Cross-Origin-Opener-Policy'' ''same-origin''
      = render [(''Cross-Origin-Opener-Policy'', ''same-origin'')]"
    using s1 by (simp add: c_consts)
  moreover have "axil_header_set_default (render [(''Cross-Origin-Opener-Policy'', ''same-origin'')])
      ''Cross-Origin-Embedder-Policy'' ''require-corp'' = render [(''Cross-Origin-Opener-Policy'', ''same-origin''),
      (''Cross-Origin-Embedder-Policy'', ''require-corp'')]"
    using s2 n(1) cross_origin_ok by (simp add: c_consts del: list.map)
  moreover have "axil_header_set_default (render [(''Cross-Origin-Opener-Policy'', ''same-origin''),
      (''Cross-Origin-Embedder-Policy'', ''require-corp'')]) ''Cross-Origin-Resource-Policy'' ''same-origin''
      = render cross_origin"
    using s3 n(2,3) cross_origin_ok by (simp add: c_consts cross_origin_def del: list.map)
  ultimately show ?thesis by (simp only: axil_default_response_headers_def Let_def)
qed

text \<open>When the head fits the 4096 bytes it is formatted in, the bytes handed to the socket are
  the status line, the header block with the defaults and the blank line, then the body, unless
  the request was a HEAD; in one write when head and body stay within 64 KiB.\<close>

theorem respond_writes_response:
  assumes "length (respond_head code (axil_default_response_headers h)) < 4096"
  shows "\<exists>ws. respond_writes df_head code (Some body) h = Some ws
    \<and> concat ws = respond_head code (axil_default_response_headers h) @ (if df_head then [] else body)
    \<and> (length (concat ws) \<le> 65536 \<longrightarrow> length ws = 1)"
  using assms by (auto simp: respond_writes_def Let_def)

theorem respond_writes_response_witness:
  "\<exists>ws. respond_writes True 404 (Some ''no'') [] = Some ws
    \<and> concat ws = respond_head 404 (axil_default_response_headers [])"
proof -
  have "axil_status_text 404 = ''Not Found''" by code_simp
  moreover have "show_int 404 = ''404''" by (simp add: show_int_def show_nat.simps)
  ultimately have "length (respond_head 404 (axil_default_response_headers [])) < 4096"
    by (simp add: default_headers_empty respond_head_def cross_origin_def)
  then show ?thesis using respond_writes_response [of 404 "[]" True "''no''"] by auto
qed

text \<open>With more than 4 KiB of response headers, which the header buffer allows, the write of the
  head runs past the array it was formatted in.\<close>

lemma respond_overreads:
  assumes "4096 \<le> length (axil_default_response_headers h)"
  shows "respond_writes df_head code body h = None"
  using assms by (simp add: respond_writes_def Let_def respond_head_def)

end
