(* ===== verification/Axil_Queue.thy ===== *)
theory Axil_Queue
  imports Axil_Prelude
begin

text \<open>
  The buffers between the sockets and the server, \<open>src/libaxil.c\<close>: the queue of bytes a socket
  would not take (lines 492 to 594) and the reading of a request into the growing input
  buffer (694 to 724).

  \<open>remaining\<close> is the allocated block, so its length is the size \<open>malloc\<close> gave; sizes are
  natural numbers (none comes near \<open>2 ^ 64\<close>).  What the kernel answers and whether \<open>realloc\<close>
  succeeds are arguments.  A loop that never ends is \<open>Hangs\<close>, a copy past a block \<open>Overruns\<close>,
  a call through a null function pointer \<open>NullCall\<close>.
  A call of \<open>axil_close\<close> is reported as a flag; its effect is modelled with the descriptors.

  The lemmas: the queue is first in, first out, so the bytes sent and pending are the bytes
  written; when growing the block loops for ever; a read loses nothing unless a chunk fills
  the local buffer exactly.
\<close>

section \<open>The write queue\<close>

datatype 'a run = Done 'a | Hangs | Overruns | NullCall

datatype errno = EAGAIN | EINTR | EOTHER

datatype kwrite = Wrote nat | WErr errno

record wqueue =
  remaining :: string
  remaining_size :: nat
  remaining_off :: nat
  remaining_len :: nat

definition pending :: "wqueue \<Rightarrow> string" where
  "pending q = take (remaining_len q) (drop (remaining_off q) (remaining q))"

text \<open>Lines 515 to 522: the queue after the kernel took \<open>r\<close> bytes.\<close>

definition wq_advance :: "nat \<Rightarrow> wqueue \<Rightarrow> wqueue" where
  "wq_advance r q =
     (let q' = q\<lparr>remaining_off := remaining_off q + r, remaining_len := remaining_len q - r\<rparr> in
      if remaining_len q' = 0 then q'\<lparr>remaining_off := 0\<rparr> else q')"

text \<open>The return value, the queue, the bytes sent and whether the descriptor is closed.\<close>

definition axil_write_remaining :: "bool \<Rightarrow> kwrite \<Rightarrow> wqueue \<Rightarrow> int \<times> wqueue \<times> string \<times> bool" where
  "axil_write_remaining to_close ans q =
     (if remaining_len q = 0 then (0, q, [], False)
      else case ans of
          WErr e \<Rightarrow> (- 1, q, [], e \<noteq> EAGAIN \<and> e \<noteq> EINTR)
        | Wrote r \<Rightarrow>
            if r = 0 then (0, q, [], False)
            else let q' = wq_advance r q in
              (int r, q', take r (pending q), remaining_len q' = 0 \<and> to_close))"

text \<open>The two nested loops that double the size (lines 546 to 556).\<close>

partial_function (option) double_size :: "nat \<Rightarrow> nat \<Rightarrow> nat option" where
  "double_size need sz = (if sz < need then double_size need (sz * 2) else Some sz)"

partial_function (option) grow_loop ::
  "(nat \<Rightarrow> bool) \<Rightarrow> nat \<Rightarrow> nat \<Rightarrow> string \<Rightarrow> nat \<Rightarrow> (string \<times> nat) option" where
  "grow_loop alloc need old_size block sz =
     (if sz \<le> need then
        Option.bind (double_size need sz) (\<lambda>sz'.
          if alloc sz' then
            grow_loop alloc need old_size (take sz' block @ replicate (sz' - length block) NUL) sz'
          else Some (block, old_size))
      else Some (block, sz))"

definition axil_rem_may_inc :: "(nat \<Rightarrow> bool) \<Rightarrow> nat \<Rightarrow> wqueue \<Rightarrow> wqueue run" where
  "axil_rem_may_inc alloc len q =
     (let tail = remaining_size q - (remaining_off q + remaining_len q) in
      if len \<le> tail then Done q
      else
        let q1 = (if remaining_off q = 0 then q
                  else q\<lparr>remaining := pending q @ drop (remaining_len q) (remaining q), remaining_off := 0\<rparr>);
            tail1 = remaining_size q1 - remaining_len q1 in
        if remaining_off q \<noteq> 0 \<and> len \<le> tail1 then Done q1
        else
          let need = remaining_off q1 + remaining_len q1 + len in
          case grow_loop alloc need (remaining_size q1) (remaining q1) (remaining_size q1) of
            None \<Rightarrow> Hangs
          | Some (block, sz) \<Rightarrow> Done (q1\<lparr>remaining := block, remaining_size := sz\<rparr>))"

definition memcpy_at :: "nat \<Rightarrow> string \<Rightarrow> wqueue \<Rightarrow> wqueue run" where
  "memcpy_at pos dat q =
     (if pos + length dat \<le> length (remaining q)
      then Done (q\<lparr>remaining := take pos (remaining q) @ dat @ drop (pos + length dat) (remaining q)\<rparr>)
      else Overruns)"

fun bind_run :: "'a run \<Rightarrow> ('a \<Rightarrow> 'b run) \<Rightarrow> 'b run" where
  "bind_run (Done a) f = f a"
| "bind_run Hangs f = Hangs"
| "bind_run Overruns f = Overruns"
| "bind_run NullCall f = NullCall"

lemma bind_run_Done: "bind_run x f = Done y \<longleftrightarrow> (\<exists>a. x = Done a \<and> f a = Done y)"
  by (cases x) auto

definition axil_low_write ::
  "(nat \<Rightarrow> bool) \<Rightarrow> bool \<Rightarrow> kwrite \<Rightarrow> string \<Rightarrow> wqueue \<Rightarrow> (int \<times> wqueue \<times> string \<times> bool) run" where
  "axil_low_write alloc to_close ans from q =
     (if remaining_len q \<noteq> 0 then
        bind_run (axil_rem_may_inc alloc (length from) q) (\<lambda>q1.
        bind_run (memcpy_at (remaining_off q1 + remaining_len q1) from q1) (\<lambda>q2.
          let q3 = q2\<lparr>remaining_len := remaining_len q2 + length from\<rparr>;
              (_, q4, sent, cl) = axil_write_remaining to_close ans q3 in
          Done (- 1, q4, sent, cl)))
      else
        let queue = (\<lambda>left ret sent.
          bind_run (axil_rem_may_inc alloc (length left) q) (\<lambda>q1.
          bind_run (memcpy_at 0 left q1) (\<lambda>q2.
            Done (ret, q2\<lparr>remaining_off := 0, remaining_len := length left\<rparr>, sent, False)))) in
        case ans of
          WErr e \<Rightarrow> if e = EAGAIN then queue from (- 1) [] else Done (- 1, q, [], False)
        | Wrote r \<Rightarrow>
            if r < length from then queue (drop r from) (int r) (take r from)
            else Done (int r, q, from, False))"

section \<open>Reading a request\<close>

datatype kread = Got string | RErr errno

text \<open>
  \<open>axil_read\<close>: the value returned (with the error when it is -1), the bytes in the input buffer,
  its size, and the connection.  \<open>rounds\<close> counts the chunks that filled the local buffer.
\<close>

function axil_read_loop ::
  "('c \<Rightarrow> nat \<Rightarrow> kread \<times> 'c) \<Rightarrow> (nat \<Rightarrow> bool) \<Rightarrow> nat \<Rightarrow> string \<Rightarrow> nat \<Rightarrow> 'c
     \<Rightarrow> int \<times> errno option \<times> string \<times> nat \<times> 'c" where
  "axil_read_loop rd alloc rounds inp input_size c =
     (case rd c BUFSIZ of
        (RErr e, c') \<Rightarrow> (- 1, Some e, inp, input_size, c')
      | (Got buf, c') \<Rightarrow>
          if buf = [] then (0, None, inp, input_size, c')
          else
            let grow = length inp + length buf \<ge> input_size;
                sz' = (if grow then input_size * 2 + length buf else input_size) in
            if grow \<and> \<not> alloc sz' then (- 1, None, inp, input_size, c')
            else
              let inp' = inp @ buf in
              if length buf < BUFSIZ \<or> 64 \<le> rounds then (int (length inp'), None, inp', sz', c')
              else axil_read_loop rd alloc (rounds + 1) inp' sz' c')"
  by pat_completeness auto
termination
  by (relation "measure (\<lambda>(rd, alloc, rounds, inp, sz, c). 65 - rounds)") auto

declare axil_read_loop.simps [simp del]

definition axil_read ::
  "('c \<Rightarrow> nat \<Rightarrow> kread \<times> 'c) \<Rightarrow> (nat \<Rightarrow> bool) \<Rightarrow> nat \<Rightarrow> 'c \<Rightarrow> int \<times> errno option \<times> string \<times> nat \<times> 'c" where
  "axil_read rd alloc input_size c = axil_read_loop rd alloc 0 [] input_size c"

section \<open>Growing the block\<close>

lemma double_size_step:
  "double_size need sz = (if sz < need then double_size need (sz * 2) else Some sz)"
  by (rule double_size.simps)

lemma double_size_total:
  assumes "0 < sz"
  shows "\<exists>k. double_size need sz = Some (sz * 2 ^ k) \<and> need \<le> sz * 2 ^ k \<and> (k = 0 \<or> sz * 2 ^ (k - 1) < need)"
  using assms
proof (induction "need - sz" arbitrary: sz rule: less_induct)
  case less
  show ?case
  proof (cases "sz < need")
    case False
    then show ?thesis by (intro exI [of _ 0]) (simp add: double_size_step)
  next
    case True
    then obtain k where k: "double_size need (sz * 2) = Some (sz * 2 * 2 ^ k)" "need \<le> sz * 2 * 2 ^ k"
      "k = 0 \<or> sz * 2 * 2 ^ (k - 1) < need"
      using less.hyps [of "sz * 2"] less.prems by force
    have "double_size need sz = Some (sz * 2 * 2 ^ k)"
      using True k(1) by (subst double_size_step) simp
    moreover have "sz * 2 ^ k < need" using k(3) True by (cases k) auto
    ultimately show ?thesis
      using k(2) by (intro exI [of _ "Suc k"]) (auto simp: mult.assoc)
  qed
qed

lemma double_size_zero: "0 < need \<Longrightarrow> double_size need 0 = None"
proof -
  assume n: "0 < need"
  have "0 < sz \<or> need' = 0" if "double_size need' sz = Some y" for need' sz y
  proof (rule double_size.raw_induct [OF _ that, where P = "\<lambda>n s y. 0 < s \<or> n = 0"])
    fix f :: "nat \<Rightarrow> nat \<Rightarrow> nat option" and n s y
    assume IH: "\<And>n s y. f n s = Some y \<Longrightarrow> 0 < s \<or> n = 0"
      and eq: "(if s < n then f n (s * 2) else Some s) = Some y"
    show "0 < s \<or> n = 0"
      using eq IH [of n "s * 2" y] by (cases "s < n") auto
  qed
  with n show ?thesis by (cases "double_size need 0") auto
qed

lemma grow_loop_stuck:
  assumes "alloc need"
  shows "grow_loop alloc need old block need = None"
proof -
  have "\<not> (al n \<and> sz = n)" if "grow_loop al n od bl sz = Some y" for al n od bl sz y
  proof (rule grow_loop.raw_induct [OF _ that, where P = "\<lambda>al n od bl sz y. \<not> (al n \<and> sz = n)"])
    fix f :: "(nat \<Rightarrow> bool) \<Rightarrow> nat \<Rightarrow> nat \<Rightarrow> string \<Rightarrow> nat \<Rightarrow> (string \<times> nat) option"
    fix al n od bl sz y
    assume IH: "\<And>al n od bl sz y. f al n od bl sz = Some y \<Longrightarrow> \<not> (al n \<and> sz = n)"
      and eq: "(if sz \<le> n then Option.bind (double_size n sz)
          (\<lambda>sz'. if al sz' then f al n od (take sz' bl @ replicate (sz' - length bl) NUL) sz'
                 else Some (bl, od)) else Some (bl, sz)) = Some y"
    show "\<not> (al n \<and> sz = n)"
    proof
      assume a: "al n \<and> sz = n"
      with eq have "f al n od (take n bl @ replicate (n - length bl) NUL) n = Some y"
        by (simp add: double_size_step)
      from IH [OF this] a show False by simp
    qed
  qed
  with assms show ?thesis by (metis option.exhaust)
qed

text \<open>What a growth that ends gives: a block of the new size that starts with the old one.\<close>

lemma grow_loop_once:
  assumes "sz \<le> need" "0 < sz" "alloc s" "double_size need sz = Some s"
  shows "grow_loop alloc need old block sz
    = (if s = need then None else Some (take s block @ replicate (s - length block) NUL, s))"
proof -
  have "need \<le> s" using double_size_total [OF assms(2), of need] assms(4) by auto
  moreover have "grow_loop alloc need old block sz
      = grow_loop alloc need old (take s block @ replicate (s - length block) NUL) s"
    using assms by (subst grow_loop.simps) simp
  moreover have "grow_loop alloc need old b s = Some (b, s)" if "need < s" for b
    using that by (subst grow_loop.simps) simp
  ultimately show ?thesis using grow_loop_stuck [of alloc need] assms(3) by auto
qed

lemma grow_loop_fails:
  assumes "sz \<le> need" "\<not> alloc s" "double_size need sz = Some s"
  shows "grow_loop alloc need old block sz = Some (block, old)"
  using assms by (subst grow_loop.simps) simp

lemma grow_loop_zero: "0 < need \<Longrightarrow> grow_loop alloc need old block 0 = None"
  by (subst grow_loop.simps) (simp add: double_size_zero)

lemma grow_loop_done:
  assumes "grow_loop alloc need sz block sz = Some (block', sz')" "length block = sz"
    "0 < need"
  shows "length block' = sz' \<and> prefix block block' \<and> (need < sz' \<or> sz' = sz)"
proof (cases "sz \<le> need")
  case False
  with assms show ?thesis by (subst (asm) grow_loop.simps) simp
next
  case le: True
  with assms grow_loop_zero have pos: "0 < sz" by (cases sz) auto
  then obtain s where s: "double_size need sz = Some s" "need \<le> s"
    using double_size_total by blast
  show ?thesis
  proof (cases "alloc s")
    case True
    then show ?thesis
      using grow_loop_once [where alloc = alloc and s = s, OF le pos True s(1), of sz block] assms s(2) le
      by (auto simp: prefix_def split: if_splits)
  next
    case False
    then show ?thesis using grow_loop_fails [where alloc = alloc and s = s, OF le False s(1), of sz block] assms by simp
  qed
qed

text \<open>When memory suffices the growth never ends exactly if the size needed is the present size
  doubled some number of times, or the present size is zero.\<close>

lemma grow_loop_hangs_iff:
  assumes "sz \<le> need" "0 < sz"
  shows "grow_loop (\<lambda>_. True) need old block sz = None \<longleftrightarrow> (\<exists>k. need = sz * 2 ^ k)"
proof -
  obtain k where k: "double_size need sz = Some (sz * 2 ^ k)" "need \<le> sz * 2 ^ k"
    "k = 0 \<or> sz * 2 ^ (k - 1) < need"
    using double_size_total [OF assms(2)] by blast
  have "sz * 2 ^ k = need" if "need = sz * 2 ^ j" for j
  proof -
    have "j \<le> k" using k(2) that assms(2) by (simp add: power_increasing_iff)
    moreover have "k \<le> j"
    proof (cases k)
      case (Suc i)
      then have "sz * 2 ^ i < sz * 2 ^ j" using k(3) that by simp
      then have "i < j" using assms(2) by simp
      then show ?thesis using Suc by simp
    qed simp
    ultimately show ?thesis using that by simp
  qed
  then show ?thesis
    using grow_loop_once [where alloc = "\<lambda>_. True" and s = "sz * 2 ^ k", OF assms _ k(1), of old block] by auto
qed

section \<open>Interface: a byte queue\<close>

text \<open>
  What the writers rely on: bytes put in come out in order.  \<open>push\<close> puts bytes behind the
  ones waiting, when there is room for them; \<open>pop\<close> takes bytes from the front.
\<close>

locale byte_queue =
  fixes inv :: "'q \<Rightarrow> bool" and content :: "'q \<Rightarrow> string"
    and room :: "'q \<Rightarrow> nat" and push :: "string \<Rightarrow> 'q \<Rightarrow> 'q" and pop :: "nat \<Rightarrow> 'q \<Rightarrow> 'q"
  assumes push_inv: "inv q \<Longrightarrow> length d \<le> room q \<Longrightarrow> inv (push d q)"
    and push_content: "inv q \<Longrightarrow> length d \<le> room q \<Longrightarrow> content (push d q) = content q @ d"
    and pop_inv: "inv q \<Longrightarrow> n \<le> length (content q) \<Longrightarrow> inv (pop n q)"
    and pop_content: "inv q \<Longrightarrow> n \<le> length (content q) \<Longrightarrow> content (pop n q) = drop n (content q)"
begin

lemma push_pop:
  assumes "inv q" "length d \<le> room q" "n \<le> length (content q @ d)"
  shows "inv (pop n (push d q))"
    and "take n (content q @ d) @ content (pop n (push d q)) = content q @ d"
proof -
  have c: "content (push d q) = content q @ d" "inv (push d q)"
    using assms push_content push_inv by blast+
  then have "content (pop n (push d q)) = drop n (content q @ d)"
    using assms(3) pop_content [of "push d q" n] by (simp only:)
  then show "take n (content q @ d) @ content (pop n (push d q)) = content q @ d"
    by (simp only: append_take_drop_id)
  show "inv (pop n (push d q))" using assms(3) c pop_inv [of "push d q" n] by (simp only:)
qed

lemma drain:
  assumes "inv q" "sum_list ns = length (content q)"
  shows "inv (fold pop ns q) \<and> content (fold pop ns q) = []"
  using assms
proof (induction ns arbitrary: q)
  case Nil
  then show ?case by simp
next
  case (Cons n ns)
  then have "n \<le> length (content q)" by simp
  with Cons show ?case by (simp add: pop_inv pop_content)
qed

end

text \<open>Well-formed queues: the size is that of the block, the bytes pending lie in it, and an empty
  queue starts at the front.\<close>

definition wq_ok :: "wqueue \<Rightarrow> bool" where
  "wq_ok q \<longleftrightarrow> length (remaining q) = remaining_size q \<and> 0 < remaining_size q
     \<and> remaining_off q + remaining_len q \<le> remaining_size q
     \<and> (remaining_len q = 0 \<longrightarrow> remaining_off q = 0)"

definition wq_room :: "wqueue \<Rightarrow> nat" where
  "wq_room q = remaining_size q - (remaining_off q + remaining_len q)"

definition wq_push :: "string \<Rightarrow> wqueue \<Rightarrow> wqueue" where
  "wq_push d q =
     (let pos = remaining_off q + remaining_len q in
      q\<lparr>remaining := take pos (remaining q) @ d @ drop (pos + length d) (remaining q),
        remaining_len := remaining_len q + length d\<rparr>)"

lemma length_pending: "wq_ok q \<Longrightarrow> length (pending q) = remaining_len q"
  unfolding wq_ok_def pending_def by (simp; linarith)

lemma pending_split:
  "wq_ok q \<Longrightarrow> take (remaining_off q + remaining_len q) (remaining q) = take (remaining_off q) (remaining q) @ pending q"
  by (simp add: pending_def take_add)

interpretation wq: byte_queue wq_ok pending wq_room wq_push wq_advance
proof
  fix q and d :: string assume a: "wq_ok q" "length d \<le> wq_room q"
  show "wq_ok (wq_push d q)"
    using a by (auto simp: wq_ok_def wq_push_def wq_room_def Let_def)
  show "pending (wq_push d q) = pending q @ d"
    using a pending_split [OF a(1)]
    by (auto simp: pending_def wq_push_def wq_ok_def wq_room_def Let_def)
next
  fix q n assume a: "wq_ok q" "n \<le> length (pending q)"
  then have n: "n \<le> remaining_len q" by (simp add: length_pending)
  show "wq_ok (wq_advance n q)"
    using a(1) n by (auto simp: wq_ok_def wq_advance_def Let_def)
  show "pending (wq_advance n q) = drop n (pending q)"
    using a(1) n by (auto simp: wq_advance_def Let_def pending_def drop_take add.commute)
qed

lemma memcpy_push:
  assumes "wq_ok q" "length d \<le> wq_room q"
  shows "bind_run (memcpy_at (remaining_off q + remaining_len q) d q)
      (\<lambda>q2. Done (q2\<lparr>remaining_len := remaining_len q2 + length d\<rparr>)) = Done (wq_push d q)"
proof -
  have "remaining_off q + remaining_len q + length d \<le> length (remaining q)"
    using assms unfolding wq_ok_def wq_room_def by linarith
  then show ?thesis by (simp add: memcpy_at_def wq_push_def Let_def)
qed

text \<open>Making room keeps the bytes pending; either there is room afterwards, or \<open>realloc\<close> failed and
  the size is unchanged.\<close>

lemma may_inc_done:
  assumes "axil_rem_may_inc alloc len q = Done q'" "wq_ok q"
  shows "wq_ok q' \<and> pending q' = pending q \<and> remaining_len q' = remaining_len q
    \<and> (len \<le> wq_room q' \<or> remaining_size q' = remaining_size q)"
proof -
  let ?tail = "remaining_size q - (remaining_off q + remaining_len q)"
  let ?q1 = "if remaining_off q = 0 then q
    else q\<lparr>remaining := pending q @ drop (remaining_len q) (remaining q), remaining_off := 0\<rparr>"
  have q1: "wq_ok ?q1" "pending ?q1 = pending q" "remaining_len ?q1 = remaining_len q"
    "remaining_size ?q1 = remaining_size q" "remaining_off ?q1 = 0"
    using assms(2) length_pending [OF assms(2)] by (auto simp: wq_ok_def pending_def)
  show ?thesis
  proof (cases "len \<le> ?tail \<or> (remaining_off q \<noteq> 0 \<and> len \<le> remaining_size ?q1 - remaining_len ?q1)")
    case True
    with assms q1 show ?thesis
      by (auto simp: axil_rem_may_inc_def Let_def wq_room_def split: if_splits)
  next
    case False
    let ?need = "remaining_len q + len"
    have pos: "0 < ?need" using False by (cases len) auto
    obtain block sz where g: "grow_loop alloc ?need (remaining_size q) (remaining ?q1) (remaining_size q)
        = Some (block, sz)" and q': "q' = ?q1\<lparr>remaining := block, remaining_size := sz\<rparr>"
      using assms(1) False q1(3,4,5)
      by (auto simp: axil_rem_may_inc_def Let_def split: option.splits if_splits prod.splits)
    have "length (remaining ?q1) = remaining_size q" using q1(1,4) by (simp only: wq_ok_def)
    note d = grow_loop_done [OF g this pos]
    then obtain ext where ext: "block = remaining ?q1 @ ext" by (auto simp: prefix_def)
    have l: "remaining_len q \<le> remaining_size q" using assms(2) by (simp add: wq_ok_def)
    have "pending q' = pending ?q1"
      using q' q1(1,3,4,5) l unfolding pending_def ext wq_ok_def by simp
    moreover have "wq_ok q'"
      using q' q1 d l assms(2) unfolding wq_ok_def by auto
    moreover have "len \<le> wq_room q' \<or> remaining_size q' = remaining_size q"
      using q' d q1(3,5) unfolding wq_room_def by auto
    ultimately show ?thesis using q' q1 by simp
  qed
qed

section \<open>Properties\<close>

text \<open>The kernel takes at most the bytes it is offered.\<close>

definition takes :: "kwrite \<Rightarrow> nat \<Rightarrow> bool" where
  "takes ans n \<longleftrightarrow> (case ans of Wrote r \<Rightarrow> r \<le> n | WErr e \<Rightarrow> True)"

lemma write_remaining_fifo:
  assumes "wq_ok q" "takes ans (remaining_len q)" "axil_write_remaining tc ans q = (ret, q', sent, cl)"
  shows "wq_ok q' \<and> sent @ pending q' = pending q \<and> int (length sent) = max 0 ret"
proof (cases "remaining_len q = 0")
  case True
  with assms show ?thesis by (auto simp: axil_write_remaining_def pending_def)
next
  case False
  show ?thesis
  proof (cases ans)
    case (WErr e)
    with False assms show ?thesis by (auto simp: axil_write_remaining_def)
  next
    case (Wrote r)
    then have r: "r \<le> length (pending q)" using assms(1,2) by (simp add: takes_def length_pending)
    show ?thesis
      using Wrote False assms(1,3) r wq.pop_inv [OF assms(1) r] wq.pop_content [OF assms(1) r]
      by (auto simp: axil_write_remaining_def Let_def split: if_splits)
  qed
qed

lemma low_write_queue:
  assumes "wq_ok q" "remaining_len q = 0"
    "bind_run (axil_rem_may_inc alloc (length left) q) (\<lambda>q1. bind_run (memcpy_at 0 left q1) (\<lambda>q2.
       Done (ret, q2\<lparr>remaining_off := 0, remaining_len := length left\<rparr>, sent, False))) = Done (r', q', s', cl)"
  shows "wq_ok q' \<and> pending q' = left \<and> r' = ret \<and> s' = sent \<and> \<not> cl"
proof -
  obtain q1 where q1: "axil_rem_may_inc alloc (length left) q = Done q1"
    using assms(3) by (cases "axil_rem_may_inc alloc (length left) q") auto
  with assms have ok: "wq_ok q1" "remaining_len q1 = 0" using may_inc_done [OF q1 assms(1)] by auto
  then have off: "remaining_off q1 = 0" by (simp add: wq_ok_def)
  have fits: "length left \<le> length (remaining q1)"
    using assms(3) q1 by (simp add: memcpy_at_def split: if_splits)
  then have room: "length left \<le> wq_room q1" using ok off by (simp add: wq_room_def wq_ok_def)
  have "q' = wq_push left q1 \<and> r' = ret \<and> s' = sent \<and> \<not> cl"
    using assms(3) q1 fits off ok(2) by (cases q1) (auto simp: memcpy_at_def wq_push_def)
  moreover have "pending q1 = []" using ok by (simp add: pending_def)
  ultimately show ?thesis using wq.push_inv [OF ok(1) room] wq.push_content [OF ok(1) room] by simp
qed

lemma low_write_keeps:
  assumes "wq_ok q" "axil_low_write alloc tc ans dat q = Done (ret, q', sent, cl)"
    "takes ans (remaining_len q + length dat)"
    "\<not> (remaining_len q = 0 \<and> (ans = WErr EINTR \<or> ans = WErr EOTHER))"
  shows "wq_ok q' \<and> sent @ pending q' = pending q @ dat"
proof (cases "remaining_len q = 0")
  case True
  then have p: "pending q = []" by (simp add: pending_def)
  show ?thesis
  proof (cases ans)
    case (WErr e)
    with True assms(2,4) have e: "e = EAGAIN" by (cases e) auto
    then show ?thesis
      using low_write_queue [OF assms(1) True, of alloc dat "- 1" "[]" ret q' sent cl] assms(2) True WErr p
      by (simp add: axil_low_write_def)
  next
    case (Wrote r)
    show ?thesis
    proof (cases "r < length dat")
      case less: True
      then show ?thesis
        using low_write_queue [OF assms(1) True, of alloc "drop r dat" "int r" "take r dat" ret q' sent cl] assms(2) True Wrote p
        by (auto simp: axil_low_write_def)
    next
      case False
      then show ?thesis using assms(1,2) True Wrote p by (auto simp: axil_low_write_def)
    qed
  qed
next
  case False
  obtain q1 where q1: "axil_rem_may_inc alloc (length dat) q = Done q1"
    using assms(2) False by (cases "axil_rem_may_inc alloc (length dat) q") (auto simp: axil_low_write_def)
  note m = may_inc_done [OF q1 assms(1)]
  have fits: "remaining_off q1 + remaining_len q1 + length dat \<le> length (remaining q1)"
    using assms(2) False q1 by (simp add: axil_low_write_def memcpy_at_def split: if_splits)
  then have room: "length dat \<le> wq_room q1" using m by (simp add: wq_room_def wq_ok_def)
  let ?q3 = "wq_push dat q1"
  obtain r4 where w: "axil_write_remaining tc ans ?q3 = (r4, q', sent, cl)"
    using assms(2) False q1 fits
    by (auto simp: axil_low_write_def memcpy_at_def wq_push_def Let_def split: prod.splits)
  have ok3: "wq_ok ?q3" "pending ?q3 = pending q1 @ dat"
    using wq.push_inv room wq.push_content m by blast+
  then have "remaining_len ?q3 = remaining_len q + length dat"
    using m by (simp add: wq_push_def Let_def)
  with write_remaining_fifo [OF ok3(1) _ w] assms(3) ok3(2) m show ?thesis by simp
qed

text \<open>C6. The write queue is first in, first out.  When a write returns without overrunning its block,
  the bytes sent, followed by those now pending, are those that were pending followed by those
  written, and the queue stays well formed.  The one loss the code has is excluded: an error
  other than \<open>EAGAIN\<close> on an empty queue.\<close>

theorem low_write_fifo:
  assumes "wq_ok q" "axil_low_write alloc tc ans dat q = Done (ret, q', sent, cl)"
    "takes ans (remaining_len q + length dat)"
    "\<not> (remaining_len q = 0 \<and> (ans = WErr EINTR \<or> ans = WErr EOTHER))"
  shows "wq_ok q' \<and> sent @ pending q' = pending q @ dat"
  using assms by (rule low_write_keeps)

theorem low_write_fifo_witness:
  "\<exists>ret q' cl sent. axil_low_write (\<lambda>n. True) False (Wrote 1) ''abc''
      \<lparr>remaining = replicate 8 NUL, remaining_size = 8, remaining_off = 0, remaining_len = 0\<rparr>
      = Done (ret, q', sent, cl) \<and> sent @ pending q' = ''abc''"
proof -
  let ?q = "\<lparr>remaining = replicate 8 NUL, remaining_size = 8, remaining_off = 0, remaining_len = 0\<rparr>"
  have ok: "wq_ok ?q" by (simp add: wq_ok_def)
  have "axil_low_write (\<lambda>n. True) False (Wrote 1) ''abc'' ?q = Done (1,
      \<lparr>remaining = ''bc'' @ replicate 6 NUL, remaining_size = 8, remaining_off = 0, remaining_len = 2\<rparr>, ''a'', False)"
    by (simp add: axil_low_write_def axil_rem_may_inc_def memcpy_at_def)
  from low_write_fifo [OF ok this] this show ?thesis by (auto simp: takes_def pending_def)
qed

text \<open>C31. A write always returns when memory suffices, unless the bytes to hold come to the size of
  the block doubled some number of times: then, and only then, the loop that grows the block
  never ends.\<close>

theorem may_inc_hangs_iff:
  assumes "wq_ok q"
  shows "axil_rem_may_inc (\<lambda>_. True) len q = Hangs \<longleftrightarrow>
    wq_room q < len \<and> (\<exists>k. remaining_len q + len = remaining_size q * 2 ^ k)
    \<and> (remaining_off q \<noteq> 0 \<longrightarrow> remaining_size q < remaining_len q + len)"
proof (cases "len \<le> wq_room q")
  case True
  then show ?thesis by (simp add: axil_rem_may_inc_def wq_room_def Let_def)
next
  case False
  let ?q1 = "if remaining_off q = 0 then q
    else q\<lparr>remaining := pending q @ drop (remaining_len q) (remaining q), remaining_off := 0\<rparr>"
  have l: "remaining_len q \<le> remaining_size q" "0 < remaining_size q"
    using assms by (auto simp: wq_ok_def)
  show ?thesis
  proof (cases "remaining_off q \<noteq> 0 \<and> len \<le> remaining_size q - remaining_len q")
    case True
    then have "\<not> remaining_size q < remaining_len q + len" using l by linarith
    with True False show ?thesis by (simp add: axil_rem_may_inc_def wq_room_def Let_def)
  next
    case nocompact: False
    then have need: "remaining_size q < remaining_len q + len"
      using False l unfolding wq_room_def by auto
    then have g: "grow_loop (\<lambda>_. True) (remaining_len q + len) old block (remaining_size q) = None
        \<longleftrightarrow> (\<exists>k. remaining_len q + len = remaining_size q * 2 ^ k)" for old block
      using grow_loop_hangs_iff l(2) by simp
    show ?thesis
      using False nocompact need g
      by (auto simp: axil_rem_may_inc_def wq_room_def Let_def split: option.splits)
  qed
qed

theorem may_inc_hangs_iff_witness:
  "axil_rem_may_inc (\<lambda>_. True) 16
     \<lparr>remaining = replicate 8 NUL, remaining_size = 8, remaining_off = 0, remaining_len = 0\<rparr> = Hangs"
proof -
  have "(16 :: nat) = 8 * 2 ^ 1" by simp
  then have "\<exists>k. (16 :: nat) = 8 * 2 ^ k" by blast
  then show ?thesis
    using may_inc_hangs_iff [of "\<lparr>remaining = replicate 8 NUL, remaining_size = 8, remaining_off = 0, remaining_len = 0\<rparr>" 16]
    by (simp add: wq_ok_def wq_room_def)
qed

text \<open>The writes of the main loop, one answer of the kernel per pass.\<close>

fun flush_passes :: "bool \<Rightarrow> kwrite list \<Rightarrow> wqueue \<Rightarrow> wqueue \<times> string" where
  "flush_passes tc [] q = (q, [])"
| "flush_passes tc (a # as) q =
     (case axil_write_remaining tc a q of (_, q', sent, _) \<Rightarrow>
        (case flush_passes tc as q' of (q'', sent') \<Rightarrow> (q'', sent @ sent')))"

text \<open>C32. Once the peer takes bytes again the queue drains: passes in which the kernel takes
  some bytes each time, all of those pending in total, or refuses for the moment, send exactly the
  pending bytes in order and leave the queue empty at its front.\<close>

theorem flush_passes_drain:
  assumes "wq_ok q" "\<forall>a \<in> set as. a = WErr EAGAIN \<or> a = WErr EINTR \<or> (\<exists>r. a = Wrote r \<and> 0 < r)"
    "sum_list (map (\<lambda>a. case a of Wrote r \<Rightarrow> r | WErr e \<Rightarrow> 0) as) = remaining_len q"
  shows "snd (flush_passes tc as q) = pending q \<and> wq_ok (fst (flush_passes tc as q))
    \<and> remaining_len (fst (flush_passes tc as q)) = 0"
  using assms
proof (induction as arbitrary: q)
  case Nil
  then show ?case by (simp add: pending_def)
next
  case (Cons a as)
  obtain ret q' sent cl where w: "axil_write_remaining tc a q = (ret, q', sent, cl)"
    by (cases "axil_write_remaining tc a q") auto
  have t: "takes a (remaining_len q)"
    using Cons.prems(3) by (auto simp: takes_def split: kwrite.split)
  note f = write_remaining_fifo [OF Cons.prems(1) t w]
  have len: "remaining_len q' = length (pending q) - length sent"
    using f length_pending [of q'] by (metis add_diff_cancel_left' length_append)
  have "length sent = (case a of Wrote r \<Rightarrow> r | WErr e \<Rightarrow> 0)"
  proof (cases a)
    case (Wrote r)
    moreover have "r \<le> length (pending q)" using t Wrote length_pending [OF Cons.prems(1)] by (simp add: takes_def)
    moreover have "0 < r" using Wrote Cons.prems(2) by auto
    ultimately show ?thesis
      using w length_pending [OF Cons.prems(1)]
      by (auto simp: axil_write_remaining_def Let_def split: if_splits)
  next
    case (WErr e)
    then show ?thesis using w by (auto simp: axil_write_remaining_def split: if_splits)
  qed
  then have s: "sum_list (map (\<lambda>a. case a of Wrote r \<Rightarrow> r | WErr e \<Rightarrow> 0) as) = remaining_len q'"
    using Cons.prems(3) len length_pending [OF Cons.prems(1)] by simp
  have "snd (flush_passes tc as q') = pending q' \<and> wq_ok (fst (flush_passes tc as q'))
      \<and> remaining_len (fst (flush_passes tc as q')) = 0"
    using Cons.IH [OF _ _ s] f Cons.prems(2) by simp
  then show ?case using w f by (auto split: prod.splits)
qed

theorem flush_passes_drain_witness:
  "snd (flush_passes True [WErr EAGAIN, Wrote 1, Wrote 2]
     \<lparr>remaining = ''abc'', remaining_size = 3, remaining_off = 0, remaining_len = 3\<rparr>) = ''abc''"
proof -
  let ?q = "\<lparr>remaining = ''abc'', remaining_size = 3, remaining_off = 0, remaining_len = 3\<rparr>"
  have "wq_ok ?q" by (simp add: wq_ok_def)
  moreover have "pending ?q = ''abc''" by (simp add: pending_def)
  ultimately show ?thesis
    using flush_passes_drain [of ?q "[WErr EAGAIN, Wrote 1, Wrote 2]" True] by simp
qed

lemma axil_read_loop_bounded:
  "axil_read_loop rd alloc rounds inp sz c = (ret, err, inp', sz', c') \<Longrightarrow> length inp < sz \<Longrightarrow>
     sz \<le> sz' \<and> length inp' < sz' \<and> prefix inp inp' \<and> (0 < ret \<longrightarrow> ret = int (length inp'))"
proof (induction rd alloc rounds inp sz c rule: axil_read_loop.induct)
  case (1 rd alloc rounds inp sz c)
  obtain k c1 where k: "rd c BUFSIZ = (k, c1)" by (cases "rd c BUFSIZ")
  show ?case
  proof (cases k)
    case (RErr e)
    with "1.prems" k show ?thesis by (subst (asm) axil_read_loop.simps) auto
  next
    case (Got buf)
    let ?g = "length inp + length buf \<ge> sz"
    let ?sz = "if ?g then sz * 2 + length buf else sz"
    have bound: "length (inp @ buf) < ?sz" "sz \<le> ?sz" using "1.prems"(2) by auto
    show ?thesis
    proof (cases "buf = [] \<or> (?g \<and> \<not> alloc ?sz) \<or> length buf < BUFSIZ \<or> 64 \<le> rounds")
      case True
      with "1.prems" k Got bound show ?thesis
        by (subst (asm) axil_read_loop.simps) (auto simp: Let_def split: if_splits)
    next
      case False
      then have "axil_read_loop rd alloc (rounds + 1) (inp @ buf) ?sz c1 = (ret, err, inp', sz', c')"
        using "1.prems"(1) k Got by (subst (asm) axil_read_loop.simps) (auto simp: Let_def split: if_splits)
      with "1.IH" [OF k [symmetric] Got _ refl refl _ refl] False bound show ?thesis
        by (auto simp: prefix_def)
    qed
  qed
qed

text \<open>A successful read returns the number of bytes it put in the input buffer, which is kept
  strictly larger than that, so the terminating NUL the command parser stores fits.\<close>

theorem axil_read_leaves_room:
  "axil_read rd alloc sz c = (ret, err, inp, sz', c') \<Longrightarrow> 0 < sz \<Longrightarrow>
     length inp < sz' \<and> sz \<le> sz' \<and> (0 < ret \<longrightarrow> ret = int (length inp))"
  using axil_read_loop_bounded [of rd alloc 0 "[]" sz c] by (simp add: axil_read_def)

theorem axil_read_leaves_room_witness:
  "axil_read (\<lambda>c n. (Got (take n c), drop n c)) (\<lambda>n. True) 16 ''GET / HTTP/1.1'' = (14, None, ''GET / HTTP/1.1'', 16, [])
   \<and> length ''GET / HTTP/1.1'' < (16 :: nat)"
proof -
  have r: "axil_read (\<lambda>c n. (Got (take n c), drop n c)) (\<lambda>n. True) 16 ''GET / HTTP/1.1''
      = (14, None, ''GET / HTTP/1.1'', 16, [])"
    by (simp add: axil_read_def axil_read_loop.simps c_consts)
  with axil_read_leaves_room [OF r] show ?thesis by simp
qed

text \<open>A request that fills the local buffer exactly is lost: the next call of the lower layer
  has nothing to give, and its \<open>EAGAIN\<close>, which the caller takes for "nothing to read", is returned
  instead of the bytes already read.\<close>

theorem axil_read_full_chunk_lost:
  assumes "rd c BUFSIZ = (Got buf, c1)" "length buf = BUFSIZ" "rd c1 BUFSIZ = (RErr EAGAIN, c2)" "alloc (sz * 2 + BUFSIZ)"
  shows "\<exists>sz'. axil_read rd alloc sz c = (- 1, Some EAGAIN, buf, sz', c2)"
proof -
  have "buf \<noteq> []" using assms(2) by (auto simp: c_consts)
  then show ?thesis
    using assms by (simp add: axil_read_def axil_read_loop.simps [of rd alloc 0] axil_read_loop.simps [of rd alloc "Suc 0"] Let_def)
qed

theorem axil_read_full_chunk_lost_witness:
  "\<exists>sz'. axil_read (\<lambda>c n. if c = [] then (RErr EAGAIN, []) else (Got (take n c), drop n c)) (\<lambda>n. True) 16384
      (replicate BUFSIZ (CHR ''x'')) = (- 1, Some EAGAIN, replicate BUFSIZ (CHR ''x''), sz', [])"
  by (rule axil_read_full_chunk_lost [where ?c1.0 = "[]"]) (simp_all add: c_consts del: replicate.simps)

end
