(* ===== verification/Axil_Static.thy ===== *)
theory Axil_Static
  imports Axil_Headers
begin

text \<open>
  Static files: dates, entity tags and the conditional request of \<open>src/libaxil.c\<close> (lines 1630 to
  1735 and 1834 to 1920), and the mapping files of \<open>src/axil-posix.c\<close> (lines 136 to 352).

  \<open>fnmatch\<close>, \<open>realpath\<close> and \<open>stat\<close> are parameters; a mapping file is its bytes.  The integers read
  from a date are unbounded: the additions of the day count that C makes in \<open>unsigned\<close> wrap at
  \<open>2 ^ 32\<close>, the others are those of \<open>int\<close> and \<open>time_t\<close> within range.

  The lemmas: the date computation counts the days of the calendar; the entity-tag list is
  searched for an exact element; a file served lies under the directory its mapping names; a
  cache directive cannot break the header block.
\<close>

section \<open>Dates\<close>

definition up_low :: "char \<Rightarrow> char" where
  "up_low c = (if 65 \<le> ccode c \<and> ccode c \<le> 90 then char_of (ccode c + 32) else c)"

text \<open>The strings are compared on their first three bytes, the NUL included.\<close>

definition month_eq :: "string \<Rightarrow> string \<Rightarrow> bool" where
  "month_eq a b \<longleftrightarrow>
     list_all (\<lambda>i. up_low ((a @ [NUL, NUL, NUL]) ! i) = up_low ((b @ [NUL, NUL, NUL]) ! i)) [0, 1, 2]"

definition month_names :: "string list" where
  "month_names = [''Jan'', ''Feb'', ''Mar'', ''Apr'', ''May'', ''Jun'', ''Jul'', ''Aug'', ''Sep'', ''Oct'', ''Nov'', ''Dec'']"

fun month_scan :: "string list \<Rightarrow> string \<Rightarrow> int \<Rightarrow> int" where
  "month_scan [] mon i = - 1"
| "month_scan (n # ns) mon i = (if month_eq mon n then i else month_scan ns mon (i + 1))"

definition month_number :: "string \<Rightarrow> int" where
  "month_number mon = month_scan month_names mon 0"

record tm =
  tm_year :: int
  tm_mon :: int
  tm_mday :: int
  tm_hour :: int
  tm_min :: int
  tm_sec :: int

definition tm_to_time_t_utc :: "tm \<Rightarrow> int" where
  "tm_to_time_t_utc t =
     (let m = tm_mon t + 1;
          y0 = tm_year t + 1900;
          y = (if m \<le> 2 then y0 - 1 else y0);
          era = (if 0 \<le> y then y div 400 else - ((399 - y) div 400));
          yoe = (y - era * 400) mod 2 ^ 32;
          doy = ((153 * (m + (if m > 2 then - 3 else 9)) + 2) div 5 + tm_mday t - 1) mod 2 ^ 32;
          doe = (yoe * 365 + yoe div 4 - yoe div 100 + doy) mod 2 ^ 32;
          days = era * 146097 + doe - 719468 in
      days * 86400 + tm_hour t * 3600 + tm_min t * 60 + tm_sec t)"

text \<open>The conversions of the format: letters, a literal, \<open>%d\<close>.\<close>

definition is_letter :: "char \<Rightarrow> bool" where
  "is_letter c \<longleftrightarrow> isupper c \<or> islower c"

definition scan_letters3 :: "string \<Rightarrow> (string \<times> string) option" where
  "scan_letters3 s =
     (let w = takeWhile is_letter (take 3 s) in if w = [] then None else Some (w, drop (length w) s))"

definition scan_lit :: "char \<Rightarrow> string \<Rightarrow> string option" where
  "scan_lit c s = (case s of x # r \<Rightarrow> if x = c then Some r else None | [] \<Rightarrow> None)"

fun dec_value :: "nat \<Rightarrow> string \<Rightarrow> nat" where
  "dec_value n [] = n"
| "dec_value n (c # cs) = dec_value (10 * n + (ccode c - 48)) cs"

definition scan_int :: "string \<Rightarrow> (int \<times> string) option" where
  "scan_int s =
     (let t = dropWhile isspace s;
          neg = (t \<noteq> [] \<and> hd t = CHR ''-'');
          u = (if t \<noteq> [] \<and> (hd t = CHR ''-'' \<or> hd t = CHR ''+'') then tl t else t);
          ds = takeWhile isdigit u in
      if ds = [] then None
      else Some (if neg then - int (dec_value 0 ds) else int (dec_value 0 ds), dropWhile isdigit u))"

definition http_date_parse :: "string option \<Rightarrow> int option" where
  "http_date_parse arg =
     Option.bind arg (\<lambda>s.
     Option.bind (scan_letters3 s) (\<lambda>(wday, s1).
     Option.bind (scan_lit (CHR '','') s1) (\<lambda>s2.
     Option.bind (scan_int (dropWhile isspace s2)) (\<lambda>(day, s3).
     Option.bind (scan_letters3 (dropWhile isspace s3)) (\<lambda>(mon, s4).
     Option.bind (scan_int (dropWhile isspace s4)) (\<lambda>(year, s5).
     Option.bind (scan_int (dropWhile isspace s5)) (\<lambda>(hh, s6).
     Option.bind (scan_lit (CHR '':'') s6) (\<lambda>s7.
     Option.bind (scan_int s7) (\<lambda>(mm, s8).
     Option.bind (scan_lit (CHR '':'') s8) (\<lambda>s9.
     Option.bind (scan_int s9) (\<lambda>(ss, s10).
       let m = month_number mon in
       if m < 0 then None
       else Some (tm_to_time_t_utc \<lparr>tm_year = year - 1900, tm_mon = m, tm_mday = day,
                    tm_hour = hh, tm_min = mm, tm_sec = ss\<rparr>))))))))))))"

section \<open>Validators\<close>

record stat_t =
  st_ino :: nat
  st_mtime :: int
  st_mtime_nsec :: nat
  st_size :: nat
  st_isreg :: bool
  st_isdir :: bool

definition static_etag :: "stat_t \<Rightarrow> nat \<Rightarrow> string" where
  "static_etag sb outlen =
     snprintf_trunc outlen
       ([CHR 0x22] @ show_hex (st_ino sb) @ ''-'' @ show_hex (nat (st_mtime sb mod 2 ^ 64)) @ ''-''
        @ show_hex (st_mtime_nsec sb) @ ''-'' @ show_hex (st_size sb) @ [CHR 0x22])"

definition static_validator_headers :: "string \<Rightarrow> string \<Rightarrow> string \<Rightarrow> nat \<Rightarrow> string" where
  "static_validator_headers etag last_mod cache_ctl outlen =
     (let e = (if etag \<noteq> [] then snprintf_trunc 80 (''ETag: '' @ etag @ CRLF) else []);
          l = (if last_mod \<noteq> [] then snprintf_trunc 100 (''Last-Modified: '' @ last_mod @ CRLF) else []);
          c = (if cache_ctl \<noteq> [] then snprintf_trunc 256 (''Cache-Control: '' @ cache_ctl @ CRLF) else []) in
      snprintf_trunc outlen (e @ l @ c))"

definition is_blank :: "char \<Rightarrow> bool" where
  "is_blank c \<longleftrightarrow> c = CHR '' '' \<or> c = TAB"

definition rtrim :: "string \<Rightarrow> string" where
  "rtrim s = rev (dropWhile is_blank (rev s))"

lemma dropWhile_hd_not: "dropWhile P s = c # cs \<Longrightarrow> \<not> P c"
  by (induction s) (auto split: if_splits)

function etag_scan :: "string \<Rightarrow> string \<Rightarrow> bool" where
  "etag_scan p etag =
     (let p1 = dropWhile (\<lambda>c. is_blank c \<or> c = CHR '','') p in
      if p1 = [] then False
      else let item = rtrim (takeWhile (\<lambda>c. c \<noteq> CHR '','') p1) in
        if item = etag then True else etag_scan (drop (length item) p1) etag)"
  by pat_completeness auto
termination
proof (relation "measure (\<lambda>(p, etag). length p)", goal_cases)
  case 1
  then show ?case by simp
next
  case (2 p etag p1 item)
  have le: "length p1 \<le> length p" unfolding 2(1) by (rule length_dropWhile_le)
  obtain c cs where p1: "p1 = c # cs" using 2(2) by (metis neq_Nil_conv)
  have "\<not> (is_blank c \<or> c = CHR '','')" by (rule dropWhile_hd_not [of _ p c cs]) (use 2(1) p1 in metis)
  then have t: "takeWhile (\<lambda>c. c \<noteq> CHR '','') p1 = c # takeWhile (\<lambda>c. c \<noteq> CHR '','') cs" "\<not> is_blank c"
    using p1 by simp_all
  have "item \<noteq> []" unfolding 2(3) t(1) rtrim_def using t(2) by (simp add: dropWhile_eq_Nil_conv)
  then have "0 < length item" "0 < length p1" using p1 by simp_all
  then have "length p1 - length item < length p1" by (rule diff_less)
  then show ?case using le by simp
qed

declare etag_scan.simps [simp del]

definition static_etag_matches :: "string \<Rightarrow> string \<Rightarrow> bool" where
  "static_etag_matches inm etag \<longleftrightarrow> (if inm = ''*'' then True else etag_scan inm etag)"

section \<open>Mapping files\<close>

text \<open>A line of the file at \<open>pos\<close> and the position of the next; a NUL ends a line too.\<close>

definition axil_mmap_iter :: "string \<Rightarrow> nat \<Rightarrow> string \<times> nat" where
  "axil_mmap_iter start pos =
     (let line = takeWhile (\<lambda>c. c \<noteq> LF \<and> c \<noteq> NUL) (drop pos start) in (line, pos + length line + 1))"

text \<open>The kernel's file system: \<open>realpath\<close> and \<open>stat\<close>.\<close>

record fs =
  realpath :: "string \<Rightarrow> string option"
  fstat :: "string \<Rightarrow> stat_t option"

text \<open>\<open>strncmp(root, output, strlen(root))\<close> and the component test after it.\<close>

definition under_root :: "string \<Rightarrow> string \<Rightarrow> bool" where
  "under_root root out \<longleftrightarrow>
     prefix root out \<and> (length root = 1 \<or> length out = length root \<or> out ! length root = CHR ''/'')"

definition static_mapping_resolve ::
  "fs \<Rightarrow> string \<Rightarrow> string \<Rightarrow> string \<Rightarrow> nat \<Rightarrow> (string \<times> stat_t) option" where
  "static_mapping_resolve f dir glob path output_len =
     (case strchr glob (CHR ''*'') of
        None \<Rightarrow> None
      | Some offset \<Rightarrow>
          let root_spec = ''./'' @ dir in
          if BUFSIZ \<le> length root_spec then None
          else case realpath f root_spec of
              None \<Rightarrow> None
            | Some root \<Rightarrow>
                let candidate = ''./'' @ dir @ ''/'' @ drop offset path in
                if BUFSIZ \<le> length candidate then None
                else case realpath f candidate of
                    None \<Rightarrow> None
                  | Some out \<Rightarrow>
                      if output_len \<le> length out then None
                      else if \<not> under_root root out then None
                      else map_option (\<lambda>st. (out, st)) (fstat f out))"

function static_allowed_loop ::
  "fs \<Rightarrow> (string \<Rightarrow> string \<Rightarrow> bool) \<Rightarrow> (stat_t \<Rightarrow> bool) \<Rightarrow> string \<Rightarrow> nat \<Rightarrow> string \<Rightarrow> nat
     \<Rightarrow> (string \<times> stat_t) option" where
  "static_allowed_loop f fnmatch keep mmap len path pos =
     (case axil_mmap_iter mmap pos of (line, pos') \<Rightarrow>
        (case strchr line (CHR '' '') of
           None \<Rightarrow> None
         | Some g \<Rightarrow>
             let dir = take g line; glob = drop (g + 1) line;
                 r = (if fnmatch glob path then static_mapping_resolve f dir glob path BUFSIZ else None) in
             (case r of
                Some (out, st) \<Rightarrow>
                  if keep st then Some (out, st)
                  else if pos' < len then static_allowed_loop f fnmatch keep mmap len path pos' else None
              | None \<Rightarrow>
                  if pos' < len then static_allowed_loop f fnmatch keep mmap len path pos' else None)))"
  by pat_completeness auto
termination
  by (relation "measure (\<lambda>(f, fm, keep, mmap, len, path, pos). len - pos)")
    (auto simp: axil_mmap_iter_def Let_def)

declare static_allowed_loop.simps [simp del]

text \<open>\<open>None\<close> for the file: it is absent or empty and was not mapped.\<close>

definition static_allowed ::
  "fs \<Rightarrow> (string \<Rightarrow> string \<Rightarrow> bool) \<Rightarrow> string option \<Rightarrow> string \<Rightarrow> (string \<times> stat_t) option" where
  "static_allowed f fnmatch statics path =
     (case statics of
        None \<Rightarrow> None
      | Some m \<Rightarrow> static_allowed_loop f fnmatch (\<lambda>st. True) m (length m) path 0)"

function autoindex_listed :: "(string \<Rightarrow> string \<Rightarrow> bool) \<Rightarrow> string \<Rightarrow> nat \<Rightarrow> string \<Rightarrow> nat \<Rightarrow> bool" where
  "autoindex_listed fnmatch mmap len uri pos =
     (case axil_mmap_iter mmap pos of (line, pos') \<Rightarrow>
        if fnmatch line uri then True
        else if pos' < len then autoindex_listed fnmatch mmap len uri pos' else False)"
  by pat_completeness auto
termination
  by (relation "measure (\<lambda>(fm, mmap, len, path, pos). len - pos)")
    (auto simp: axil_mmap_iter_def Let_def)

declare autoindex_listed.simps [simp del]

definition autoindex_allowed ::
  "fs \<Rightarrow> (string \<Rightarrow> string \<Rightarrow> bool) \<Rightarrow> string option \<Rightarrow> string option \<Rightarrow> string \<Rightarrow> string option" where
  "autoindex_allowed f fnmatch statics autoindex uri =
     (case statics of
        None \<Rightarrow> None
      | Some m \<Rightarrow>
          (case static_allowed_loop f fnmatch st_isdir m (length m) uri 0 of
             None \<Rightarrow> None
           | Some (out, st) \<Rightarrow>
               (case autoindex of
                  None \<Rightarrow> None
                | Some a \<Rightarrow> if autoindex_listed fnmatch a (length a) uri 0 then Some out else None)))"

fun cache_directive_loop :: "string \<Rightarrow> nat \<Rightarrow> string \<Rightarrow> string" where
  "cache_directive_loop [] outlen out = out"
| "cache_directive_loop (c # cs) outlen out =
     (if length out < outlen - 1
      then cache_directive_loop cs outlen (if c \<noteq> CR \<and> c \<noteq> LF then out @ [c] else out)
      else out)"

definition cache_directive_copy :: "string \<Rightarrow> nat \<Rightarrow> string" where
  "cache_directive_copy inp outlen = cache_directive_loop inp outlen []"

function cache_policy_loop :: "(string \<Rightarrow> string \<Rightarrow> bool) \<Rightarrow> string \<Rightarrow> nat \<Rightarrow> string \<Rightarrow> nat \<Rightarrow> nat \<Rightarrow> string option" where
  "cache_policy_loop fnmatch mmap len uri outlen pos =
     (case axil_mmap_iter mmap pos of (line, pos') \<Rightarrow>
        let next = (if pos' < len then cache_policy_loop fnmatch mmap len uri outlen pos' else None) in
        (case strchr line (CHR '' '') of
           None \<Rightarrow> next
         | Some g \<Rightarrow>
             if drop (g + 1) line = [] then next
             else if fnmatch (take g line) uri then Some (cache_directive_copy (drop (g + 1) line) outlen)
             else next))"
  by pat_completeness auto
termination
  by (relation "measure (\<lambda>(fm, mmap, len, path, outlen, pos). len - pos)")
    (auto simp: axil_mmap_iter_def Let_def)

declare cache_policy_loop.simps [simp del]

definition cache_policy :: "(string \<Rightarrow> string \<Rightarrow> bool) \<Rightarrow> string option \<Rightarrow> string \<Rightarrow> nat \<Rightarrow> string option" where
  "cache_policy fnmatch cache uri outlen =
     (case cache of
        None \<Rightarrow> None
      | Some m \<Rightarrow> if outlen = 0 then None else cache_policy_loop fnmatch m (length m) uri outlen 0)"

definition static_cache_control :: "(string \<Rightarrow> string \<Rightarrow> bool) \<Rightarrow> string option \<Rightarrow> string \<Rightarrow> nat \<Rightarrow> string" where
  "static_cache_control fnmatch cache uri outlen =
     (case cache_policy fnmatch cache uri outlen of
        Some d \<Rightarrow> d | None \<Rightarrow> snprintf_trunc outlen ''no-cache'')"

section \<open>The conditional request\<close>

datatype static_outcome =
    NotStatic
  | NotModified string string string
  | SendFile string string stat_t string string string

text \<open>
  \<open>request_handle_static\<close> up to the response it chooses.  The tables, the clock's date text
  and the open of the file are parameters; the requests' headers come from the environment.
\<close>

definition file_ext :: "string \<Rightarrow> string" where
  "file_ext filename = last (split_on (CHR ''.'') filename)"

definition request_handle_static ::
  "'m string_map \<Rightarrow> fs \<Rightarrow> (string \<Rightarrow> string \<Rightarrow> bool) \<Rightarrow> string option \<Rightarrow> string option \<Rightarrow> (string \<Rightarrow> string option)
     \<Rightarrow> (int \<Rightarrow> string) \<Rightarrow> 'm \<Rightarrow> string \<Rightarrow> static_outcome" where
  "request_handle_static q f fnmatch statics cache mime http_date env uri0 =
     (let uri = (if uri0 \<noteq> [] \<and> last uri0 = CHR ''/'' then snprintf_trunc BUFSIZ (uri0 @ ''index.html'') else uri0) in
      case static_allowed f fnmatch statics uri of
        None \<Rightarrow> NotStatic
      | Some (filename, st) \<Rightarrow>
          if \<not> st_isreg st then NotStatic
          else
            let content_type = (case mime (file_ext filename) of Some t \<Rightarrow> t | None \<Rightarrow> ''application/octet-stream'');
                etag = static_etag st 64;
                last_mod = http_date (st_mtime st);
                cache_ctl = static_cache_control fnmatch cache uri 256;
                send = SendFile filename content_type st etag last_mod cache_ctl in
            (case axil_header_get q env ''If-None-Match'' 64 of
               Some inm \<Rightarrow>
                 if static_etag_matches inm etag then NotModified etag last_mod cache_ctl else send
             | None \<Rightarrow>
                 (case axil_header_get q env ''If-Modified-Since'' 64 of
                    None \<Rightarrow> send
                  | Some ims \<Rightarrow>
                      (case http_date_parse (Some ims) of
                         None \<Rightarrow> send
                       | Some t \<Rightarrow> if st_mtime st \<le> t then NotModified etag last_mod cache_ctl else send))))"

section \<open>The calendar\<close>

text \<open>Days as a calendar counts them, year by year and month by month, from 1 January 1970.\<close>

definition leap :: "int \<Rightarrow> bool" where
  "leap y \<longleftrightarrow> 4 dvd y \<and> (\<not> 100 dvd y \<or> 400 dvd y)"

definition month_lengths :: "int \<Rightarrow> int list" where
  "month_lengths y = [31, if leap y then 29 else 28, 31, 30, 31, 30, 31, 31, 30, 31, 30, 31]"

fun days_before_year :: "nat \<Rightarrow> int" where
  "days_before_year 0 = 0"
| "days_before_year (Suc n) = days_before_year n + (if leap (1970 + int n) then 366 else 365)"

definition calendar_seconds :: "nat \<Rightarrow> nat \<Rightarrow> int \<Rightarrow> int \<Rightarrow> int \<Rightarrow> int \<Rightarrow> int" where
  "calendar_seconds n mon mday hh mm ss =
     (days_before_year n + sum_list (take mon (month_lengths (1970 + int n))) + mday - 1) * 86400
      + hh * 3600 + mm * 60 + ss"

lemma div_quad:
  fixes y e r :: int
  assumes "y = 400 * e + r" "0 \<le> r" "r < 400"
  shows "e * 146097 + (r * 365 + r div 4 - r div 100) = 365 * y + y div 4 - y div 100 + e"
proof -
  have "y div 4 = 100 * e + r div 4"
    using assms(1) div_mult_self3 [of 4 "100 * e" r] by (simp add: ac_simps)
  moreover have "y div 100 = 4 * e + r div 100"
    using assms(1) div_mult_self3 [of 100 "4 * e" r] by (simp add: ac_simps)
  ultimately show ?thesis using assms(1) by simp
qed

lemma div_pred:
  fixes y k :: int
  assumes "0 < k"
  shows "y div k = (y - 1) div k + (if k dvd y then 1 else 0)"
proof (cases "k dvd y")
  case True
  then obtain j where j: "y = k * j" by blast
  have "(y - 1) div k = j - 1"
    by (rule int_div_pos_eq [of _ _ _ "k - 1"]) (use assms j in \<open>simp_all add: algebra_simps\<close>)
  with True j assms show ?thesis by simp
next
  case False
  then have "0 < y mod k" using assms by (metis dvd_eq_mod_eq_0 less_le pos_mod_sign)
  have "(y - 1) div k = y div k"
    by (rule int_div_pos_eq [of _ _ _ "y mod k - 1"])
      (use \<open>0 < y mod k\<close> pos_mod_bound [OF assms, of y] in \<open>simp_all\<close>)
  with False show ?thesis by simp
qed

definition year_count :: "int \<Rightarrow> int" where
  "year_count y = 365 * y + y div 4 - y div 100 + y div 400"

lemma count_diff:
  fixes y a b c :: int
  assumes "a = a' + i" "b = b' + j" "c = c' + k"
  shows "365 * y + a - b + c - (365 * (y - 1) + a' - b' + c') = 365 + i - j + k"
  using assms by (simp add: algebra_simps)

lemma year_count_step: "year_count y = year_count (y - 1) + (if leap y then 366 else 365)"
proof -
  have "400 dvd y \<Longrightarrow> 100 dvd y" by (rule dvd_trans [of 100 400]) simp_all
  moreover have "100 dvd y \<Longrightarrow> 4 dvd y" by (rule dvd_trans [of 4 100]) simp_all
  moreover have "year_count y - year_count (y - 1)
      = 365 + (if 4 dvd y then 1 else 0) - (if 100 dvd y then 1 else 0) + (if 400 dvd y then 1 else 0)"
    unfolding year_count_def
    by (rule count_diff; rule div_pred; simp)
  ultimately show ?thesis
    unfolding leap_def by (cases "400 dvd y"; cases "100 dvd y"; cases "4 dvd y"; simp only: simp_thms if_True if_False; linarith)
qed

lemma year_start: "year_count (1969 + int n) = 719162 + days_before_year n"
proof (induction n)
  case 0
  then show ?case by (simp add: year_count_def)
next
  case (Suc n)
  then show ?case using year_count_step [of "1970 + int n"] by (simp add: add.commute)
qed

lemma month_offset:
  assumes "mon < 12"
  shows "sum_list (take mon (month_lengths y))
    = (if mon < 2 then (153 * (int mon + 10) + 2) div 5 - 306
       else (153 * (int mon - 2) + 2) div 5 + 59 + (if leap y then 1 else 0))"
proof -
  have "mon = 0 \<or> mon = 1 \<or> mon = 2 \<or> mon = 3 \<or> mon = 4 \<or> mon = 5 \<or> mon = 6 \<or> mon = 7
      \<or> mon = 8 \<or> mon = 9 \<or> mon = 10 \<or> mon = 11" using assms by presburger
  then show ?thesis by (elim disjE; simp add: month_lengths_def numeral_eq_Suc)
qed

lemma time_of_count:
  assumes "0 \<le> tm_year t + 1899" "y = tm_year t + 1900 - (if tm_mon t + 1 \<le> 2 then 1 else 0)"
    "doy = (153 * (tm_mon t + 1 + (if tm_mon t + 1 > 2 then - 3 else 9)) + 2) div 5 + tm_mday t - 1"
    "0 \<le> doy" "doy < 1000"
  shows "tm_to_time_t_utc t = (year_count y + doy - 719468) * 86400 + tm_hour t * 3600 + tm_min t * 60 + tm_sec t"
proof -
  have y: "0 \<le> y" using assms(1,2) by (simp split: if_splits)
  have m2: "(if tm_mon t + 1 \<le> 2 then tm_year t + 1900 - 1 else tm_year t + 1900) = y"
    using assms(2) by simp
  let ?e = "y div 400" and ?r = "y mod 400"
  have r: "0 \<le> ?r" "?r < 400" by simp_all
  have e: "y - ?e * 400 = ?r" by (simp add: minus_div_mult_eq_mod)
  have r32: "?r mod 2 ^ 32 = ?r" by (rule mod_pos_pos_trivial) (use r in simp_all)
  have d32: "doy mod 2 ^ 32 = doy" by (rule mod_pos_pos_trivial) (use assms(4,5) in simp_all)
  have b: "0 \<le> ?r * 365 + ?r div 4 - ?r div 100 + doy" "?r * 365 + ?r div 4 - ?r div 100 + doy < 2 ^ 32"
    using r assms(4,5) by (simp; linarith)+
  have s32: "(?r * 365 + ?r div 4 - ?r div 100 + doy) mod 2 ^ 32 = ?r * 365 + ?r div 4 - ?r div 100 + doy"
    by (rule mod_pos_pos_trivial) (use b in simp_all)
  have q: "?e * 146097 + (?r * 365 + ?r div 4 - ?r div 100 + doy) = year_count y + doy"
    using div_quad [of y ?e ?r] r unfolding year_count_def by simp
  have "tm_to_time_t_utc t = (?e * 146097 + (?r * 365 + ?r div 4 - ?r div 100 + doy) - 719468) * 86400
      + tm_hour t * 3600 + tm_min t * 60 + tm_sec t"
    by (simp only: tm_to_time_t_utc_def Let_def m2 assms(3) [symmetric] y if_True e r32 d32 s32)
  then show ?thesis by (simp only: q)
qed

text \<open>C36. For every valid date from 1970 on, the closed formula of the source computes the seconds
  that counting the days of the calendar gives, year by year with the leap rule and month by
  month.\<close>

theorem time_counts_calendar:
  assumes "mon < 12" "1 \<le> mday" "mday \<le> 31"
  shows "tm_to_time_t_utc \<lparr>tm_year = 70 + int n, tm_mon = int mon, tm_mday = mday, tm_hour = hh, tm_min = mm, tm_sec = ss\<rparr>
    = calendar_seconds n mon mday hh mm ss"
proof -
  let ?t = "\<lparr>tm_year = 70 + int n, tm_mon = int mon, tm_mday = mday, tm_hour = hh, tm_min = mm, tm_sec = ss\<rparr>"
  let ?doy = "(153 * (int mon + 1 + (if int mon + 1 > 2 then - 3 else 9)) + 2) div 5 + mday - 1"
  let ?y = "70 + int n + 1900 - (if int mon + 1 \<le> 2 then 1 else 0)"
  have doy: "0 \<le> ?doy" "?doy < 1000" using assms by (auto simp: div_le_dividend) 
  have t: "tm_to_time_t_utc ?t = (year_count ?y + ?doy - 719468) * 86400 + hh * 3600 + mm * 60 + ss"
    using time_of_count [of ?t ?y ?doy] doy by simp
  have "year_count ?y + ?doy - 719468
      = days_before_year n + sum_list (take mon (month_lengths (1970 + int n))) + mday - 1"
  proof (cases "mon < 2")
    case True
    then have "?y = 1969 + int n" by simp
    with True show ?thesis
      using year_start [of n] month_offset [OF assms(1), of "1970 + int n"] by (simp add: algebra_simps)
  next
    case False
    then have "?y = 1970 + int n" by simp
    with False show ?thesis
      using year_start [of n] year_count_step [of "1970 + int n"] month_offset [OF assms(1), of "1970 + int n"]
      by (simp add: algebra_simps)
  qed
  with t show ?thesis by (simp only: calendar_seconds_def)
qed

theorem time_counts_calendar_witness:
  "tm_to_time_t_utc \<lparr>tm_year = 100, tm_mon = 1, tm_mday = 29, tm_hour = 0, tm_min = 0, tm_sec = 1\<rparr>
    = calendar_seconds 30 1 29 0 0 1"
  using time_counts_calendar [of 1 29 30 0 0 1] by simp

section \<open>Entity tags\<close>

definition trim :: "string \<Rightarrow> string" where
  "trim s = rtrim (dropWhile is_blank s)"

text \<open>The non-empty elements of a comma-separated list, blanks around them removed.\<close>

definition list_items :: "string \<Rightarrow> string set" where
  "list_items s = trim ` set (split_on (CHR '','') s) - {[]}"

lemma trim_Nil [simp]: "trim [] = []" "rtrim [] = []"
  by (simp_all add: trim_def rtrim_def)

lemma trim_blank: "is_blank c \<Longrightarrow> trim (c # s) = trim s"
  by (simp add: trim_def)

lemma not_blank_comma [simp]: "\<not> is_blank (CHR '','')"
  by (simp add: is_blank_def)

lemma list_items_blank:
  assumes "is_blank c"
  shows "list_items (c # s) = list_items s"
proof -
  have "CHR '','' \<notin> set [c]" using assms by (auto simp: is_blank_def)
  from split_on_prefix [OF this, of s]
  have "split_on (CHR '','') (c # s) = (c # hd (split_on (CHR '','') s)) # tl (split_on (CHR '','') s)" by simp
  moreover obtain p ps where "split_on (CHR '','') s = p # ps" by (meson neq_Nil_conv split_on_ne)
  ultimately show ?thesis using trim_blank [OF assms] by (simp add: list_items_def)
qed

lemma list_items_comma: "list_items (CHR '','' # s) = list_items s"
  by (simp add: list_items_def insert_Diff_if)

lemma list_items_skip: "list_items (dropWhile (\<lambda>c. is_blank c \<or> c = CHR '','') p) = list_items p"
  by (induction p) (auto simp: list_items_blank list_items_comma)

lemma list_items_blanks: "list_all is_blank b \<Longrightarrow> list_items (b @ s) = list_items s"
  by (induction b) (auto simp: list_items_blank)

lemma rtrim_split: "\<exists>b. s = rtrim s @ b \<and> list_all is_blank b"
proof -
  have "rev s = takeWhile is_blank (rev s) @ dropWhile is_blank (rev s)" by simp
  then have "s = rtrim s @ rev (takeWhile is_blank (rev s))"
    unfolding rtrim_def by (metis rev_append rev_rev_ident)
  moreover have "list_all is_blank (rev (takeWhile is_blank (rev s)))"
    by (auto simp: list_all_iff dest: set_takeWhileD)
  ultimately show ?thesis by blast
qed

lemma list_items_first:
  assumes "p \<noteq> []" "\<not> is_blank (hd p)" "hd p \<noteq> CHR '',''"
    and item: "item = rtrim (takeWhile (\<lambda>c. c \<noteq> CHR '','') p)"
  shows "list_items p = insert item (list_items (drop (length item) p))" "item \<noteq> []"
proof -
  let ?w = "takeWhile (\<lambda>c. c \<noteq> CHR '','') p" and ?r = "dropWhile (\<lambda>c. c \<noteq> CHR '','') p"
  obtain b where b: "?w = item @ b" "list_all is_blank b" using rtrim_split item by metis
  have p: "p = ?w @ ?r" by (rule takeWhile_dropWhile_id [symmetric])
  obtain c cs where w: "?w = c # cs" "\<not> is_blank c"
    using assms(1-3) by (cases p) auto
  then have tw: "trim ?w = item" by (simp add: trim_def item)
  show ne: "item \<noteq> []" using w unfolding item rtrim_def by (simp add: dropWhile_eq_Nil_conv)
  have nc: "CHR '','' \<notin> set ?w" by (auto dest: set_takeWhileD)
  have hr: "hd (split_on (CHR '','') ?r) = []"
  proof (cases ?r)
    case (Cons d ds)
    then have "d = CHR '',''" using dropWhile_hd_not [OF Cons] by simp
    with Cons show ?thesis by simp
  next
    case Nil
    show ?thesis unfolding Nil by simp
  qed
  have s: "split_on (CHR '','') p = ?w # tl (split_on (CHR '','') ?r)"
    using split_on_prefix [OF nc, of ?r] hr p by simp
  have "list_items ?r = trim ` set (tl (split_on (CHR '','') ?r)) - {[]}"
    using hr by (cases "split_on (CHR '','') ?r") (auto simp: list_items_def)
  moreover have "drop (length item) p = b @ ?r"
    using p b(1) by (metis append_assoc append_eq_conv_conj)
  ultimately show "list_items p = insert item (list_items (drop (length item) p))"
    using list_items_blanks [OF b(2), of ?r] ne tw
    by (simp only: list_items_def s list.set image_insert) (simp add: insert_Diff_if)
qed

lemma etag_scan_items: "etag \<noteq> [] \<Longrightarrow> etag_scan p etag \<longleftrightarrow> etag \<in> list_items p"
proof (induction p etag rule: etag_scan.induct)
  case (1 p etag)
  let ?p1 = "dropWhile (\<lambda>c. is_blank c \<or> c = CHR '','') p"
  let ?item = "rtrim (takeWhile (\<lambda>c. c \<noteq> CHR '','') ?p1)"
  have it: "list_items p = list_items ?p1" by (rule list_items_skip [symmetric])
  show ?case
  proof (cases "?p1 = []")
    case True
    have "etag \<notin> list_items p" unfolding it True using "1.prems" by (simp add: list_items_def)
    then show ?thesis using True by (subst etag_scan.simps) (simp only: Let_def if_True refl)
  next
    case False
    have h: "\<not> is_blank (hd ?p1)" "hd ?p1 \<noteq> CHR '',''"
      using hd_dropWhile [OF False] by auto
    note f = list_items_first [OF False h refl]
    show ?thesis
    proof (cases "?item = etag")
      case True
      then show ?thesis using f it False by (subst etag_scan.simps) (simp add: Let_def)
    next
      case ne: False
      then have "etag_scan (drop (length ?item) ?p1) etag \<longleftrightarrow> etag \<in> list_items (drop (length ?item) ?p1)"
        using "1.IH" [OF refl False refl] "1.prems" by blast
      then show ?thesis using f it False ne by (subst etag_scan.simps) (auto simp: Let_def)
    qed
  qed
qed

lemma hex_char_plain:
  assumes "n < 16"
  shows "hexdig_lower n \<noteq> CHR '',''" "\<not> is_blank (hexdig_lower n)"
proof -
  have c: "ccode (hexdig_lower n) = (if n < 10 then 48 + n else 87 + n)"
    using assms by (simp add: hexdig_lower_def)
  have "ccode (hexdig_lower n) \<noteq> 44 \<and> ccode (hexdig_lower n) \<noteq> 32 \<and> ccode (hexdig_lower n) \<noteq> 9"
    using c by (simp split: if_splits)
  then show "hexdig_lower n \<noteq> CHR '',''" "\<not> is_blank (hexdig_lower n)"
    by (auto simp: is_blank_def)
qed

definition plain :: "char \<Rightarrow> bool" where
  "plain c \<longleftrightarrow> c \<noteq> CHR '','' \<and> \<not> is_blank c"

lemma show_hex_plain: "list_all plain (show_hex n)"
proof (induction n rule: show_hex.induct)
  case (1 n)
  then show ?case
    using hex_char_plain [of n] hex_char_plain [of "n mod 16"]
    by (subst show_hex.simps) (cases "n < 16"; simp add: plain_def [of "hexdig_lower m" for m])
qed

lemma static_etag_plain: "list_all plain (static_etag sb n)"
proof -
  have "plain (CHR 0x22)" "plain (CHR ''-'')" by (simp_all add: plain_def is_blank_def)
  then have "list_all plain ([CHR 0x22] @ show_hex (st_ino sb) @ ''-'' @ show_hex (nat (st_mtime sb mod 2 ^ 64)) @ ''-''
        @ show_hex (st_mtime_nsec sb) @ ''-'' @ show_hex (st_size sb) @ [CHR 0x22])"
    using show_hex_plain by simp
  then show ?thesis
    unfolding static_etag_def list_all_iff using snp.copy_set by blast
qed

lemma static_etag_ne: "1 < n \<Longrightarrow> static_etag sb n \<noteq> []"
  by (cases n) (auto simp: static_etag_def snprintf_trunc_def take_Cons')


definition demo_fs :: fs where
  "demo_fs = \<lparr>realpath = (\<lambda>p. if p = ''./htdocs'' then Some ''/srv/htdocs''
      else if p = ''./htdocs//a.txt'' then Some ''/srv/htdocs/a.txt'' else None),
    fstat = (\<lambda>p. Some \<lparr>st_ino = 1, st_mtime = 2, st_mtime_nsec = 0, st_size = 3, st_isreg = True, st_isdir = False\<rparr>)\<rparr>"

lemma demo_allowed:
  "static_allowed demo_fs (\<lambda>g p. True) (Some ''htdocs *'') ''/a.txt''
     = Some (''/srv/htdocs/a.txt'', \<lparr>st_ino = 1, st_mtime = 2, st_mtime_nsec = 0, st_size = 3, st_isreg = True, st_isdir = False\<rparr>)"
  by (simp add: static_allowed_def static_allowed_loop.simps axil_mmap_iter_def Let_def
      static_mapping_resolve_def demo_fs_def under_root_def c_consts)


section \<open>Confinement\<close>

text \<open>What a mapping grants: the file found is the resolved directory of the mapping or lies under it,
  the file system's root being the one directory whose name ends in a slash.\<close>

definition inside :: "string \<Rightarrow> string \<Rightarrow> bool" where
  "inside root out \<longleftrightarrow> out = root \<or> prefix (root @ ''/'') out \<or> length root = 1 \<and> prefix root out"

lemma under_root_inside: "under_root root out \<Longrightarrow> inside root out"
  by (auto simp: under_root_def inside_def prefix_def nth_append neq_Nil_conv split: if_splits)

definition granted :: "fs \<Rightarrow> (string \<Rightarrow> string \<Rightarrow> bool) \<Rightarrow> string \<Rightarrow> string \<Rightarrow> string \<Rightarrow> stat_t \<Rightarrow> bool" where
  "granted f fnmatch mmap path out st \<longleftrightarrow>
     (\<exists>dir glob root. sublist (dir @ '' '' @ glob) mmap \<and> fnmatch glob path
        \<and> realpath f (''./'' @ dir) = Some root \<and> inside root out
        \<and> (\<exists>rest. realpath f (''./'' @ dir @ ''/'' @ rest) = Some out)
        \<and> fstat f out = Some st \<and> length out < BUFSIZ)"

lemma resolve_granted:
  assumes "static_mapping_resolve f dir glob path BUFSIZ = Some (out, st)" "fnmatch glob path"
    "sublist (dir @ '' '' @ glob) mmap"
  shows "granted f fnmatch mmap path out st"
  using assms unfolding granted_def static_mapping_resolve_def
  by (auto simp: Let_def split: option.splits if_splits intro!: under_root_inside)

lemma mmap_line_sublist: "sublist (fst (axil_mmap_iter m pos)) m"
proof -
  have "prefix (fst (axil_mmap_iter m pos)) (drop pos m)"
    by (simp add: axil_mmap_iter_def Let_def takeWhile_is_prefix)
  then show ?thesis
    by (metis prefix_imp_sublist sublist_order.order_trans sublist_drop)
qed

lemma static_allowed_loop_granted:
  "static_allowed_loop f fnmatch keep mmap len path pos = Some (out, st) \<Longrightarrow>
     granted f fnmatch mmap path out st \<and> keep st"
proof (induction f fnmatch keep mmap len path pos rule: static_allowed_loop.induct)
  case (1 f fnmatch keep mmap len path pos)
  obtain line pos' where l: "axil_mmap_iter mmap pos = (line, pos')" by fastforce
  obtain g where g: "strchr line (CHR '' '') = Some g"
    using "1.prems" l by (subst (asm) static_allowed_loop.simps) (auto split: option.splits)
  have sub: "sublist (take g line @ '' '' @ drop (g + 1) line) mmap"
    using strchr_split [OF g] mmap_line_sublist [of mmap pos] l by simp
  let ?r = "if fnmatch (drop (g + 1) line) path
    then static_mapping_resolve f (take g line) (drop (g + 1) line) path BUFSIZ else None"
  have step: "static_allowed_loop f fnmatch keep mmap len path pos =
      (case ?r of Some (out, st) \<Rightarrow> if keep st then Some (out, st)
         else if pos' < len then static_allowed_loop f fnmatch keep mmap len path pos' else None
       | None \<Rightarrow> if pos' < len then static_allowed_loop f fnmatch keep mmap len path pos' else None)"
    by (subst static_allowed_loop.simps) (simp only: l g prod.case option.case Let_def)
  note IH = "1.IH" [OF l [symmetric] g refl refl refl]
  show ?case
  proof (cases ?r)
    case None
    then have "static_allowed_loop f fnmatch keep mmap len path pos
        = (if pos' < len then static_allowed_loop f fnmatch keep mmap len path pos' else None)"
      by (simp only: step option.case)
    with "1.prems" have "pos' < len" "static_allowed_loop f fnmatch keep mmap len path pos' = Some (out, st)"
      by (cases "pos' < len"; simp)+
    then show ?thesis by (rule IH(1) [OF None])
  next
    case (Some a)
    obtain o' s' where a: "a = (o', s')" by (cases a)
    then have step': "static_allowed_loop f fnmatch keep mmap len path pos
        = (if keep s' then Some (o', s')
           else if pos' < len then static_allowed_loop f fnmatch keep mmap len path pos' else None)"
      using Some by (simp only: step option.case prod.case)
    show ?thesis
    proof (cases "keep s'")
      case True
      with "1.prems" step' have eq: "o' = out" "s' = st" by auto
      have fm: "fnmatch (drop (g + 1) line) path" using Some by (cases "fnmatch (drop (g + 1) line) path") auto
      then have "static_mapping_resolve f (take g line) (drop (g + 1) line) path BUFSIZ = Some (o', s')"
        using Some a by simp
      with resolve_granted [where fnmatch = fnmatch and mmap = mmap, OF this fm sub] True eq show ?thesis by simp
    next
      case False
      with "1.prems" step' have "pos' < len" "static_allowed_loop f fnmatch keep mmap len path pos' = Some (out, st)"
        by (cases "pos' < len"; simp)+
      then show ?thesis by (rule IH(2) [OF Some a [symmetric] False])
    qed
  qed
qed



lemma cache_directive_loop_eq:
  "cache_directive_loop s n out = (if length out < n - 1 then
     take (n - 1) (out @ filter (\<lambda>c. c \<noteq> CR \<and> c \<noteq> LF) s) else out)"
  by (induction s arbitrary: out) (auto simp: take_Cons' not_less)

text \<open>A cache directive copied from its file has no line break and fits its buffer, so it cannot
  end the header it is put in; nothing else of it is dropped unless the buffer is full.\<close>

theorem cache_directive_clean:
  "0 < n \<Longrightarrow> cache_directive_copy s n = take (n - 1) (filter (\<lambda>c. c \<noteq> CR \<and> c \<noteq> LF) s)
     \<and> CR \<notin> set (cache_directive_copy s n) \<and> LF \<notin> set (cache_directive_copy s n)
     \<and> length (cache_directive_copy s n) < n"
  by (auto simp: cache_directive_copy_def cache_directive_loop_eq dest: in_set_takeD)

theorem cache_directive_clean_witness: "cache_directive_copy (''max-age=1'' @ CRLF) 256 = ''max-age=1''"
  using cache_directive_clean [of 256 "''max-age=1'' @ CRLF"] by simp

end
