(* ===== verification/Axil_Cmd.thy ===== *)
theory Axil_Cmd
  imports Axil_Queue
begin

text \<open>
  The command line of a request in \<open>src/libaxil.c\<close>: splitting it into arguments (lines 448 to
  481), choosing and gating the command (761 to 813), and the two together (815 to 837).

  The input buffer is the whole allocated block, so the bytes an earlier request left behind
  the terminating NUL are there; an argument is an offset into it.  The write of
  \<open>argv[8]\<close>, one past the array, is \<open>Overruns\<close>.  What \<open>cmd_proc\<close> calls (the hooks, the
  command's function, the fallback) is a list of actions.

  The lemmas: a request line is split into its words; an unauthenticated descriptor reaches
  open commands only; eight or more words overrun the array; a line without a carriage return
  makes the header pointer run past the bytes received.
\<close>

section \<open>Splitting\<close>

definition CMD_ARGM :: nat where
  "CMD_ARGM = 8"

function cmd_split :: "string \<Rightarrow> nat \<Rightarrow> nat list \<Rightarrow> string \<times> nat \<times> nat list" where
  "cmd_split buf p argv =
     (if p < length buf \<and> buf ! p \<noteq> NUL \<and> buf ! p \<noteq> CR \<and> length argv < CMD_ARGM
      then if isspace (buf ! p) then cmd_split (buf[p := NUL]) (p + 1) (argv @ [p + 1])
           else cmd_split buf (p + 1) argv
      else (buf, p, argv))"
  by pat_completeness auto
termination
  by (relation "measure (\<lambda>(buf, p, argv). length buf - p)") auto

declare cmd_split.simps [simp del]

function skip_line :: "string \<Rightarrow> nat \<Rightarrow> nat" where
  "skip_line buf p =
     (if p < length buf \<and> buf ! p \<noteq> NUL \<and> buf ! p \<noteq> CR then skip_line buf (p + 1) else p)"
  by pat_completeness auto
termination
  by (relation "measure (\<lambda>(buf, p). length buf - p)") auto

declare skip_line.simps [simp del]

text \<open>The buffer, the arguments, and the offset of what follows the line.\<close>

definition cmd_new :: "string \<Rightarrow> nat \<Rightarrow> (string \<times> nat list \<times> nat) run" where
  "cmd_new inp len =
     (let buf = inp[len := NUL] in
      if buf ! 0 = NUL \<or> \<not> isalnum (buf ! 0) then Done (buf, [], 0)
      else case cmd_split buf 0 [0] of (buf1, p, argv) \<Rightarrow>
        let p1 = skip_line buf1 p in
        if length argv = CMD_ARGM then Overruns else Done (buf1, argv, p1 + 2))"

definition cstr_at :: "string \<Rightarrow> nat \<Rightarrow> string" where
  "cstr_at buf i = cstr (drop i buf)"

section \<open>Dispatch\<close>

definition CF_NOAUTH :: "32 word" where "CF_NOAUTH = 1"

definition CF_NOTRIM :: "32 word" where "CF_NOTRIM = 2"

datatype cmd_action =
    CmdClose
  | CmdHook "string list"
  | CmdCall string "string list" "nat option"
  | CmdVim "string list"
  | CmdFlush "string list"

text \<open>
  \<open>cmds\<close> gives the flags of a registered command.  The offset carried by a call is that of the
  text after the line, \<open>None\<close> when \<open>argv[argc]\<close> was replaced by the empty string.
\<close>

definition trim_line :: "string \<Rightarrow> nat \<Rightarrow> string" where
  "trim_line buf rest = (if buf ! (rest - 2) = CR then buf[rest - 2 := NUL] else buf)"

definition alnum_end :: "string \<Rightarrow> nat \<Rightarrow> nat" where
  "alnum_end buf i = i + length (takeWhile isalnum (drop i buf))"

definition cmd_proc ::
  "(string \<Rightarrow> 32 word option) \<Rightarrow> bool \<Rightarrow> bool \<Rightarrow> bool \<Rightarrow> flagw \<Rightarrow> string \<Rightarrow> nat list \<Rightarrow> nat
     \<Rightarrow> string \<times> cmd_action list" where
  "cmd_proc cmds has_hook has_vim has_flush fl buf argv rest =
     (if argv = [] then (buf, [])
      else if 3 \<le> length argv \<and> cstr_at buf (argv ! 0) = ''PRI'' \<and> cstr_at buf (argv ! 1) = ''*''
           \<and> prefix ''HTTP/2'' (cstr_at buf (argv ! 2)) then (buf, [CmdClose])
      else
        let buf1 = buf[alnum_end buf (argv ! 0) := NUL];
            name = cstr_at buf1 (argv ! 0) in
        if \<not> has fl DF_AUTHENTICATED \<and> (case cmds name of None \<Rightarrow> True | Some f \<Rightarrow> f AND CF_NOAUTH = 0)
        then (buf1, [])
        else
          let trimmed = (case cmds name of None \<Rightarrow> True | Some f \<Rightarrow> f AND CF_NOTRIM = 0);
              buf2 = (if trimmed then trim_line buf1 rest else buf1);
              tail = (if trimmed then None else Some rest);
              args = map (cstr_at buf2) argv in
          (buf2,
            (case cmds name of
               Some f \<Rightarrow> (if has_hook then [CmdHook args] else []) @ [CmdCall name args tail]
             | None \<Rightarrow> if has_vim then [CmdVim args] else [])
            @ (if has_flush then [CmdFlush args] else [])))"

definition cmd_parse ::
  "(string \<Rightarrow> 32 word option) \<Rightarrow> bool \<Rightarrow> bool \<Rightarrow> bool \<Rightarrow> flagw \<Rightarrow> string \<Rightarrow> nat
     \<Rightarrow> (int \<times> string \<times> cmd_action list) run" where
  "cmd_parse cmds has_hook has_vim has_flush fl inp len =
     bind_run (cmd_new inp len) (\<lambda>(buf, argv, rest).
       if argv = [] then Done (0, buf, [])
       else case cmd_proc cmds has_hook has_vim has_flush fl buf argv rest of (buf', acts) \<Rightarrow>
         Done (if length argv \<noteq> 3 then 0 else int len, buf', acts))"

section \<open>Lines of words\<close>

fun join :: "char \<Rightarrow> string list \<Rightarrow> string" where
  "join d [] = []"
| "join d [w] = w"
| "join d (w # v # ws) = w @ d # join d (v # ws)"

text \<open>The offsets of the words after the first, the first being at \<open>n\<close>.\<close>

fun starts :: "nat \<Rightarrow> string list \<Rightarrow> nat list" where
  "starts n [] = []"
| "starts n [w] = []"
| "starts n (w # v # ws) = (n + length w + 1) # starts (n + length w + 1) (v # ws)"

definition word_char :: "char \<Rightarrow> bool" where
  "word_char c \<longleftrightarrow> c \<noteq> NUL \<and> c \<noteq> CR \<and> \<not> isspace c"

lemma length_starts [simp]: "length (starts n ws) = length ws - 1"
  by (induction n ws rule: starts.induct) auto

lemma cmd_split_word:
  "list_all word_char w \<Longrightarrow> length argv < CMD_ARGM \<Longrightarrow>
     cmd_split (pre @ w @ post) (length pre) argv = cmd_split (pre @ w @ post) (length pre + length w) argv"
proof (induction w arbitrary: pre)
  case (Cons c w)
  have "cmd_split (pre @ (c # w) @ post) (length pre) argv = cmd_split (pre @ (c # w) @ post) (length pre + 1) argv"
    using Cons.prems by (subst cmd_split.simps) (auto simp: nth_append word_char_def)
  also have "\<dots> = cmd_split ((pre @ [c]) @ w @ post) (length (pre @ [c])) argv" by simp
  also have "\<dots> = cmd_split ((pre @ [c]) @ w @ post) (length (pre @ [c]) + length w) argv"
    using Cons by (intro Cons.IH) auto
  finally show ?case by simp
qed simp

lemma cmd_split_words:
  "t = CR \<or> t = NUL \<Longrightarrow> ws \<noteq> [] \<Longrightarrow> list_all (list_all word_char) ws \<Longrightarrow> length argv + length ws \<le> CMD_ARGM \<Longrightarrow>
     cmd_split (pre @ join (CHR '' '') ws @ t # post) (length pre) argv
       = (pre @ join NUL ws @ t # post, length pre + length (join NUL ws), argv @ starts (length pre) ws)"
proof (induction ws arbitrary: pre argv rule: induct_list012)
  case (2 w)
  have "cmd_split (pre @ w @ t # post) (length pre + length w) argv = (pre @ w @ t # post, length pre + length w, argv)"
    using "2.prems"(1) by (subst cmd_split.simps) (auto simp: nth_append)
  with 2 cmd_split_word [of w argv pre "t # post"] show ?case by simp
next
  case (3 w v ws)
  let ?post = "CHR '' '' # join (CHR '' '') (v # ws) @ t # post"
  have lt: "length argv < CMD_ARGM" using "3.prems" by simp
  have "cmd_split (pre @ w @ ?post) (length pre) argv = cmd_split (pre @ w @ ?post) (length pre + length w) argv"
    using "3.prems" lt by (intro cmd_split_word) auto
  also have "\<dots> = cmd_split ((pre @ w @ [NUL]) @ join (CHR '' '') (v # ws) @ t # post) (length (pre @ w @ [NUL]))
      (argv @ [length (pre @ w @ [NUL])])"
    using lt by (subst cmd_split.simps)
      (simp add: nth_append isspace_def list_update_append)
  finally show ?case
    using "3.IH"(2) [of "argv @ [length (pre @ w @ [NUL])]" "pre @ w @ [NUL]"] "3.prems" by simp
qed simp

lemma skip_line_stop: "p < length buf \<Longrightarrow> buf ! p = CR \<or> buf ! p = NUL \<Longrightarrow> skip_line buf p = p"
  by (subst skip_line.simps) auto

lemma length_join: "length (join d ws) = length (join e ws)"
  by (induction ws rule: induct_list012) auto

lemma word_char_no_nul: "list_all word_char w \<Longrightarrow> NUL \<notin> set w"
  by (auto simp: list_all_iff word_char_def)

lemma cstr_append: "NUL \<notin> set w \<Longrightarrow> cstr (w @ s) = w @ cstr s"
  by (simp add: cstr_def takeWhile_append)

lemma join_words_at:
  "i < length ws \<Longrightarrow> length pre = n \<Longrightarrow>
     \<exists>s. drop ((n # starts n ws) ! i) (pre @ join NUL ws @ tail) = ws ! i @ s
       \<and> (if i = length ws - 1 then s = tail else hd s = NUL \<and> s \<noteq> [])"
proof (induction ws arbitrary: i pre n rule: induct_list012)
  case (3 w v ws)
  show ?case
  proof (cases i)
    case 0
    with 3 show ?thesis by (intro exI [of _ "NUL # join NUL (v # ws) @ tail"]) simp
  next
    case (Suc j)
    with "3.prems" "3.IH"(2) [of j "pre @ w @ [NUL]" "n + length w + 1"] show ?thesis by simp
  qed
qed simp_all

text \<open>The exact outcome for a line of fewer than eight words: blanks become NULs, and so does the byte
  after what was read.\<close>

lemma cmd_new_line:
  assumes "ws \<noteq> []" "list_all (list_all word_char) ws" "hd ws \<noteq> []" "isalnum (hd (hd ws))"
    "length ws < CMD_ARGM"
    "inp = join (CHR '' '') ws @ CR # LF # body @ z # stale" "len = length (join (CHR '' '') ws) + 2 + length body"
  shows "cmd_new inp len = Done (join NUL ws @ CR # LF # body @ NUL # stale, 0 # starts 0 ws, length (join NUL ws) + 2)"
proof -
  let ?tail = "CR # LF # body @ NUL # stale"
  let ?buf = "join NUL ws @ ?tail"
  have upd: "inp[len := NUL] = join (CHR '' '') ws @ ?tail"
    using assms(6,7) by (simp add: list_update_append)
  obtain c cs ws' where w: "ws = (c # cs) # ws'" using assms(1,3) by (cases ws; cases "hd ws") auto
  then have first: "(join (CHR '' '') ws @ ?tail) ! 0 = c" by (cases ws') auto
  have c: "c \<noteq> NUL" "isalnum c" using w assms(2,4) by (auto simp: word_char_def)
  have split: "cmd_split (join (CHR '' '') ws @ ?tail) 0 [0] = (?buf, length (join NUL ws), 0 # starts 0 ws)"
    using cmd_split_words [of CR ws "[0]" "[]" "LF # body @ NUL # stale"] assms(1,2,5) by simp
  have skip: "skip_line ?buf (length (join NUL ws)) = length (join NUL ws)"
    by (rule skip_line_stop) (simp_all add: nth_append)
  have n: "length (0 # starts 0 ws) = length ws" using assms(1) by (cases ws) auto
  show ?thesis
    using upd first c split skip n assms(5)
    by (simp add: cmd_new_def Let_def del: list.size(4))
qed

text \<open>A request line of fewer than eight words is split at its blanks, whatever follows it in
  the buffer: every argument but the last is its word, the last is its word and what follows it
  up to the next NUL, and the pointer to the headers is at the first byte after the line.\<close>

theorem request_line_split:
  assumes "ws \<noteq> []" "list_all (list_all word_char) ws" "hd ws \<noteq> []" "isalnum (hd (hd ws))"
    "length ws < CMD_ARGM"
    "inp = join (CHR '' '') ws @ CR # LF # body @ z # stale" "len = length (join (CHR '' '') ws) + 2 + length body"
  shows "\<exists>buf argv rest. cmd_new inp len = Done (buf, argv, rest) \<and> length argv = length ws
    \<and> (\<forall>i < length ws - 1. cstr_at buf (argv ! i) = ws ! i)
    \<and> cstr_at buf (last argv) = last ws @ CR # LF # cstr body
    \<and> cstr_at buf rest = cstr body"
proof -
  let ?tail = "CR # LF # body @ NUL # stale"
  let ?buf = "join NUL ws @ ?tail"
  let ?rest = "length (join NUL ws) + 2"
  have n: "length (0 # starts 0 ws) = length ws" using assms(1) by (cases ws) auto
  have new: "cmd_new inp len = Done (?buf, 0 # starts 0 ws, ?rest)" by (rule cmd_new_line [OF assms])
  have ct: "cstr (body @ NUL # stale) = cstr body" by (induction body) (simp_all add: cstr_def)
  have "cstr_at ?buf ((0 # starts 0 ws) ! i) = ws ! i" if "i < length ws - 1" for i
  proof -
    have "i < length ws" "i \<noteq> length ws - 1" using that by simp_all
    from join_words_at [OF this(1), of "[]" 0 ?tail] this(2) obtain s where
      "drop ((0 # starts 0 ws) ! i) ?buf = ws ! i @ s" "hd s = NUL" "s \<noteq> []"
      by (simp only: append_Nil if_False list.size) blast
    moreover have "NUL \<notin> set (ws ! i)"
      using that assms(2) by (intro word_char_no_nul) (simp add: list_all_length)
    ultimately show ?thesis by (cases s) (simp_all add: cstr_at_def cstr_append, simp add: cstr_def)
  qed
  moreover have "cstr_at ?buf (last (0 # starts 0 ws)) = last ws @ CR # LF # cstr body"
  proof -
    have l: "last (0 # starts 0 ws) = (0 # starts 0 ws) ! (length ws - 1)" "last ws = ws ! (length ws - 1)"
      using n assms(1) by (simp_all add: last_conv_nth del: list.size(4) last.simps)
    moreover have "drop ((0 # starts 0 ws) ! (length ws - 1)) ?buf = ws ! (length ws - 1) @ ?tail"
      using join_words_at [of "length ws - 1" ws "[]" 0 ?tail] assms(1) by auto
    moreover have "NUL \<notin> set (ws ! (length ws - 1))"
      using assms(1,2) by (intro word_char_no_nul) (simp add: list_all_length)
    ultimately show ?thesis using ct by (simp add: cstr_at_def cstr_append) (simp add: cstr_def)
  qed
  moreover have "cstr_at ?buf ?rest = cstr body" using ct by (simp add: cstr_at_def)
  ultimately show ?thesis using new n by blast
qed

theorem request_line_split_witness:
  "\<exists>buf argv rest. cmd_new (''GET /a HTTP/1.1'' @ CR # LF # ''H: v'' @ ''!'') 21 = Done (buf, argv, rest)
     \<and> length argv = 3 \<and> cstr_at buf (argv ! 0) = ''GET'' \<and> cstr_at buf (argv ! 1) = ''/a''
     \<and> cstr_at buf rest = cstr ''H: v''"
proof -
  have "\<exists>buf argv rest. cmd_new (''GET /a HTTP/1.1'' @ CR # LF # ''H: v'' @ ''!'') 21 = Done (buf, argv, rest)
    \<and> length argv = length [''GET'', ''/a'', ''HTTP/1.1'']
    \<and> (\<forall>i < length [''GET'', ''/a'', ''HTTP/1.1''] - 1. cstr_at buf (argv ! i) = [''GET'', ''/a'', ''HTTP/1.1''] ! i)
    \<and> cstr_at buf (last argv) = last [''GET'', ''/a'', ''HTTP/1.1''] @ CR # LF # cstr ''H: v''
    \<and> cstr_at buf rest = cstr ''H: v''"
    by (rule request_line_split [where z = "CHR ''!''" and stale = "[]"])
      (simp_all add: CMD_ARGM_def word_char_def isspace_def isalnum_def isupper_def)
  then show ?thesis by (auto simp: numeral_2_eq_2 All_less_Suc)
qed

text \<open>C20. A descriptor that is not authenticated reaches no callback but those of registered commands
  open to everyone; in particular never the fallback for unknown commands.\<close>

theorem unauthenticated_gated:
  assumes "\<not> has fl DF_AUTHENTICATED"
    "cmd_parse cmds has_hook has_vim has_flush fl inp len = Done (r, buf, acts)"
  shows "(\<forall>name args tail. CmdCall name args tail \<in> set acts \<longrightarrow> (\<exists>f. cmds name = Some f \<and> f AND CF_NOAUTH \<noteq> 0))
    \<and> (\<forall>args. CmdVim args \<notin> set acts)"
proof -
  have gate: "(CmdCall name args tail \<in> set (snd (cmd_proc cmds has_hook has_vim has_flush fl b argv rest))
        \<longrightarrow> (\<exists>f. cmds name = Some f \<and> f AND CF_NOAUTH \<noteq> 0))
      \<and> CmdVim args' \<notin> set (snd (cmd_proc cmds has_hook has_vim has_flush fl b argv rest))" for name args tail args' b argv rest
    using assms(1)
    by (cases "cmds (cstr_at (b[alnum_end b (argv ! 0) := NUL]) (argv ! 0))") (auto simp: cmd_proc_def Let_def)
  obtain b argv rest where "cmd_new inp len = Done (b, argv, rest)"
    using assms(2) by (cases "cmd_new inp len") (auto simp: cmd_parse_def)
  with assms(2) have "acts = [] \<or> acts = snd (cmd_proc cmds has_hook has_vim has_flush fl b argv rest)"
    by (auto simp: cmd_parse_def split: if_splits prod.splits)
  then show ?thesis using gate by auto
qed

lemma demo_line:
  "cmd_new [CHR ''l'', CHR ''s'', CR, LF, CHR ''x''] 4 = Done ([CHR ''l'', CHR ''s'', CR, LF, NUL], [0], 4)"
  by (simp add: cmd_new_def cmd_split.simps skip_line.simps isspace_def isalnum_def islower_def CMD_ARGM_def)

theorem unauthenticated_gated_witness:
  "\<exists>r buf acts. cmd_parse (\<lambda>c. if c = ''GET'' then Some CF_NOAUTH else None) False True False DF_ACCEPTED
      (''ls'' @ CRLF @ ''x'') 4 = Done (r, buf, acts) \<and> (\<forall>args. CmdVim args \<notin> set acts)"
proof -
  have "\<not> has DF_ACCEPTED DF_AUTHENTICATED" by (simp add: has_def df_defs)
  moreover obtain r buf acts where "cmd_parse (\<lambda>c. if c = ''GET'' then Some CF_NOAUTH else None) False True False DF_ACCEPTED
      (''ls'' @ CRLF @ ''x'') 4 = Done (r, buf, acts)"
    by (cases "cmd_proc (\<lambda>c. if c = ''GET'' then Some CF_NOAUTH else None) False True False DF_ACCEPTED
          [CHR ''l'', CHR ''s'', CR, LF, NUL] [0] 4") (simp add: cmd_parse_def demo_line)
  ultimately show ?thesis using unauthenticated_gated by blast
qed

lemma cmd_split_full:
  "list_all (list_all word_char) ws \<Longrightarrow> ws \<noteq> [] \<Longrightarrow> length argv \<le> CMD_ARGM \<Longrightarrow> CMD_ARGM < length argv + length ws \<Longrightarrow>
     \<exists>b p a. cmd_split (pre @ join (CHR '' '') ws @ post) (length pre) argv = (b, p, a) \<and> length a = CMD_ARGM"
proof (induction ws arbitrary: pre argv rule: induct_list012)
  case (2 w)
  then have "length argv = CMD_ARGM" by simp
  then show ?case by (subst cmd_split.simps) simp
next
  case (3 w v ws)
  show ?case
  proof (cases "length argv = CMD_ARGM")
    case True
    then show ?thesis by (subst cmd_split.simps) simp
  next
    case False
    let ?post = "CHR '' '' # join (CHR '' '') (v # ws) @ post"
    have lt: "length argv < CMD_ARGM" using "3.prems" False by simp
    have "cmd_split (pre @ w @ ?post) (length pre) argv = cmd_split (pre @ w @ ?post) (length pre + length w) argv"
      using "3.prems" lt by (intro cmd_split_word) auto
    also have "\<dots> = cmd_split ((pre @ w @ [NUL]) @ join (CHR '' '') (v # ws) @ post) (length (pre @ w @ [NUL]))
        (argv @ [length (pre @ w @ [NUL])])"
      using lt by (subst cmd_split.simps)
        (simp add: nth_append isspace_def list_update_append)
    finally show ?thesis
      using "3.IH"(2) [of "argv @ [length (pre @ w @ [NUL])]" "pre @ w @ [NUL]"] "3.prems" lt by simp
  qed
qed simp

text \<open>A line of eight words or more fills the argument array, and the pointer to the headers is
  then written past its end: any client can make the server write outside the array.\<close>

theorem eight_words_overrun:
  assumes "CMD_ARGM \<le> length ws" "list_all (list_all word_char) ws" "hd ws \<noteq> []" "isalnum (hd (hd ws))"
    "inp = join (CHR '' '') ws @ post @ z # stale" "len = length (join (CHR '' '') ws) + length post"
  shows "cmd_new inp len = Overruns"
proof -
  have upd: "inp[len := NUL] = join (CHR '' '') ws @ post @ NUL # stale"
    using assms(5,6) by (simp add: list_update_append)
  have ne: "ws \<noteq> []" using assms(1) by (auto simp: CMD_ARGM_def)
  then obtain c cs ws' where w: "ws = (c # cs) # ws'" using assms(3) by (cases ws; cases "hd ws") auto
  then have first: "(join (CHR '' '') ws @ post @ NUL # stale) ! 0 = c" by (cases ws') auto
  have c: "c \<noteq> NUL" "isalnum c" using w assms(2,4) by (auto simp: word_char_def)
  obtain b p a where "cmd_split (join (CHR '' '') ws @ post @ NUL # stale) 0 [0] = (b, p, a)" "length a = CMD_ARGM"
    using cmd_split_full [OF assms(2) ne, of "[0]" "[]" "post @ NUL # stale"] assms(1)
    by (auto simp: CMD_ARGM_def)
  with upd first c show ?thesis by (simp add: cmd_new_def Let_def)
qed

theorem eight_words_overrun_witness:
  "cmd_new (''GET a b c d e f g'' @ CRLF @ ''x'') 19 = Overruns"
  using eight_words_overrun [of "[''GET'', ''a'', ''b'', ''c'', ''d'', ''e'', ''f'', ''g'']"
      "''GET a b c d e f g'' @ CRLF @ ''x''" CRLF "CHR ''x''" "[]" 19]
  by (simp add: CMD_ARGM_def word_char_def isspace_def isalnum_def isupper_def)

text \<open>When the line has no carriage return, the pointer to the headers skips the NUL that ends the
  request and points at what an earlier request, of another client even, left in the buffer:
  those bytes are parsed as this request's headers.\<close>

theorem line_without_cr_exposes_buffer:
  assumes "ws \<noteq> []" "list_all (list_all word_char) ws" "hd ws \<noteq> []" "isalnum (hd (hd ws))"
    "length ws < CMD_ARGM" "inp = join (CHR '' '') ws @ z # y # stale" "len = length (join (CHR '' '') ws)"
  shows "\<exists>buf argv rest. cmd_new inp len = Done (buf, argv, rest) \<and> length argv = length ws
    \<and> len < rest \<and> cstr_at buf rest = cstr stale"
proof -
  let ?tail = "NUL # y # stale"
  let ?buf = "join NUL ws @ ?tail"
  have upd: "inp[len := NUL] = join (CHR '' '') ws @ ?tail"
    using assms(6,7) by (simp add: list_update_append)
  obtain c cs ws' where w: "ws = (c # cs) # ws'" using assms(1,3) by (cases ws; cases "hd ws") auto
  then have first: "(join (CHR '' '') ws @ ?tail) ! 0 = c" by (cases ws') auto
  have c: "c \<noteq> NUL" "isalnum c" using w assms(2,4) by (auto simp: word_char_def)
  have split: "cmd_split (join (CHR '' '') ws @ ?tail) 0 [0] = (?buf, length (join NUL ws), 0 # starts 0 ws)"
    using cmd_split_words [of NUL ws "[0]" "[]" "y # stale"] assms(1,2,5) by simp
  have skip: "skip_line ?buf (length (join NUL ws)) = length (join NUL ws)"
    by (rule skip_line_stop) (simp_all add: nth_append)
  have n: "length (0 # starts 0 ws) = length ws" using assms(1) by (cases ws) auto
  have "cmd_new inp len = Done (?buf, 0 # starts 0 ws, length (join NUL ws) + 2)"
    using upd first c split skip n assms(5)
    by (simp add: cmd_new_def Let_def del: list.size(4))
  moreover have "len < length (join NUL ws) + 2" using assms(7) length_join [of "CHR '' ''" ws NUL] by simp
  moreover have "cstr_at ?buf (length (join NUL ws) + 2) = cstr stale" by (simp add: cstr_at_def)
  ultimately show ?thesis using n by blast
qed

theorem line_without_cr_exposes_buffer_witness:
  "\<exists>buf argv rest. cmd_new (''GET / HTTP/1.0xyCookie: a'') 14 = Done (buf, argv, rest)
     \<and> cstr_at buf rest = ''Cookie: a''"
  using line_without_cr_exposes_buffer [of "[''GET'', ''/'', ''HTTP/1.0'']" "''GET / HTTP/1.0xyCookie: a''"
      "CHR ''x''" "CHR ''y''" "''Cookie: a''" 14]
  by (auto simp: CMD_ARGM_def word_char_def isspace_def isalnum_def isupper_def)

end
