(* ===== verification/Axil_Descr.thy ===== *)
theory Axil_Descr
  imports Axil_Cmd Axil_Ws
begin

text \<open>
  The descriptor table of \<open>src/libaxil.c\<close>: closing (302 to 368, 893 to 948), opening (405 to 439,
  605 to 692), WebSocket proxy pairs (2395 to 2456, 2587 to 2608), upgrades (2537 to 2560), and the
  main loop with its passes over the descriptors (839 to 891, 955 to 1055, 1285 to 1338).

  A descriptor is the record \<open>descr\<close> with the fields these operations use; pointers to TLS
  state and environment tables are presence flags.  The table of \<open>io\<close> functions is an
  enumeration: none, the plain or TLS ones behind the write queue, or the WebSocket ones.  The pair
  table holds \<open>-1\<close> for \<open>INVALID_SOCKET\<close>, the \<open>fd_set\<close>s are sets, the block \<open>input\<close> has
  \<open>input_size\<close> bytes.  What the kernel, \<open>malloc\<close> and the TLS library answer, and which optional
  hooks are defined, are fields of \<open>kernel\<close>; calls that leave the model (hooks, \<open>close\<close>, bytes
  sent) are events, in order.  What a command callback does to the server is an argument.
\<close>

section \<open>State\<close>

record passwd =
  pw_name :: string
  pw_dir :: string
  pw_uid :: nat
  pw_gid :: nat

record descr =
  d_fd :: int
  d_flags :: flagw
  d_ssl :: bool
  d_epid :: int
  d_pipe_in :: int
  d_pipe_out :: int
  d_pipe_err :: int
  d_mask :: flagw
  d_sor :: int
  d_total :: nat
  d_env :: bool
  d_user :: string
  d_pw :: "passwd option"
  d_headers :: string
  d_queue :: wqueue

datatype sevent =
    EvDisconnect nat
  | EvWsClose nat
  | EvCleanup nat
  | EvSslFree nat
  | EvEnvClose nat
  | EvOpenFd int
  | EvCloseFd int
  | EvAccept nat
  | EvTick nat
  | EvUpdate
  | EvSent nat string
  | EvExecLoop nat
  | EvPipeWrite int string
  | EvKill int

text \<open>\<open>EvOpenFd\<close> marks a descriptor the kernel gave out, \<open>EvCloseFd\<close> one given back.\<close>

datatype io_ops = NoIo | RawIo | WsIo

record server =
  descr_map :: "nat \<Rightarrow> descr"
  io :: "nat \<Rightarrow> io_ops"
  ws_fl :: "nat \<Rightarrow> 32 word"
  tunnel_pair :: "nat \<Rightarrow> int"
  fds_active :: "nat set"
  fds_read :: "nat set"
  fds_write :: "nat set"
  fds_wactive :: "nat set"
  srv_fd :: int
  srv_ssl_fd :: int
  input :: string
  events :: "sevent list"

datatype ssl_result = SslDone | SslWantRead | SslFailed

text \<open>\<open>k_recv\<close> lists the answers of a descriptor's read function, \<open>k_write\<close> says how
  many bytes its lower write function takes at a time, or its error.\<close>

record kernel =
  k_accept :: "bool \<Rightarrow> int"
  k_malloc :: bool
  k_ssl :: "nat \<Rightarrow> ssl_result"
  k_recv :: "nat \<Rightarrow> kread list"
  k_write :: "nat \<Rightarrow> kwrite"
  k_alloc :: "nat \<Rightarrow> bool"
  h_disconnect :: bool
  h_accept :: bool
  h_tick :: bool
  h_cleanup :: bool
  h_exec_loop :: bool
  h_update :: bool
  h_parse :: "nat \<Rightarrow> string \<Rightarrow> int"
  h_connect :: "nat \<Rightarrow> bool"
  h_cmds :: "string \<Rightarrow> 32 word option"
  h_command :: bool
  h_vim :: bool
  h_flush :: bool

definition FIRST_INPUT_SIZE :: nat where
  "FIRST_INPUT_SIZE = BUFSIZ * 2"

definition empty_queue :: wqueue where
  "empty_queue = \<lparr>remaining = [], remaining_size = 0, remaining_off = 0, remaining_len = 0\<rparr>"

definition fresh_queue :: wqueue where
  "fresh_queue = \<lparr>remaining = replicate (BUFSIZ * 1024) NUL, remaining_size = BUFSIZ * 1024,
     remaining_off = 0, remaining_len = 0\<rparr>"

text \<open>\<open>memset(d, 0, sizeof *d); d->fd = fd\<close>\<close>

definition zero_descr :: "int \<Rightarrow> descr" where
  "zero_descr fd = \<lparr>d_fd = fd, d_flags = 0, d_ssl = False, d_epid = 0, d_pipe_in = 0, d_pipe_out = 0,
     d_pipe_err = 0, d_mask = 0, d_sor = 0, d_total = 0, d_env = False, d_user = [], d_pw = None, d_headers = [], d_queue = empty_queue\<rparr>"

definition emit :: "sevent list \<Rightarrow> server \<Rightarrow> server" where
  "emit es s = s\<lparr>events := events s @ es\<rparr>"

definition upd_descr :: "nat \<Rightarrow> (descr \<Rightarrow> descr) \<Rightarrow> server \<Rightarrow> server" where
  "upd_descr i f s = s\<lparr>descr_map := (descr_map s)(i := f (descr_map s i))\<rparr>"

definition add_flags :: "flagw \<Rightarrow> descr \<Rightarrow> descr" where
  "add_flags f d = d\<lparr>d_flags := d_flags d OR f\<rparr>"

definition clear_flags :: "flagw \<Rightarrow> descr \<Rightarrow> descr" where
  "clear_flags f d = d\<lparr>d_flags := d_flags d AND NOT f\<rparr>"

definition fd_clr_all :: "nat \<Rightarrow> server \<Rightarrow> server" where
  "fd_clr_all i s = s\<lparr>fds_active := fds_active s - {i}, fds_read := fds_read s - {i},
     fds_write := fds_write s - {i}, fds_wactive := fds_wactive s - {i}\<rparr>"

section \<open>Closing\<close>

definition ssl_drop_events :: "nat \<Rightarrow> descr \<Rightarrow> sevent list" where
  "ssl_drop_events i d = (if d_ssl d then [EvSslFree i] else [])"

definition axil_raw_descr_reset :: "int \<Rightarrow> server \<Rightarrow> server" where
  "axil_raw_descr_reset fd s =
     (if fd = - 1 \<or> int FD_SETSIZE \<le> fd then s
      else let i = nat fd; d = descr_map s i in
        emit (ssl_drop_events i d @ (if d_env d then [EvEnvClose i] else []) @ [EvCloseFd fd])
          ((fd_clr_all i s)\<lparr>tunnel_pair := (tunnel_pair s)(i := - 1), io := (io s)(i := NoIo),
             descr_map := (descr_map s)(i := zero_descr (- 1))\<rparr>))"

definition axil_tunnel_close_raw :: "int \<Rightarrow> server \<Rightarrow> server" where
  "axil_tunnel_close_raw fd s =
     (if fd = - 1 \<or> int FD_SETSIZE \<le> fd then s
      else
        let peer = tunnel_pair s (nat fd);
            s1 = s\<lparr>tunnel_pair := (tunnel_pair s)(nat fd := - 1)\<rparr>;
            has_peer = (peer \<noteq> - 1 \<and> peer < int FD_SETSIZE \<and> peer \<noteq> fd);
            s2 = (if has_peer then s1\<lparr>tunnel_pair := (tunnel_pair s1)(nat peer := - 1)\<rparr> else s1);
            s3 = axil_raw_descr_reset fd s2 in
        if has_peer then axil_raw_descr_reset peer s3 else s3)"

definition TEARDOWN :: flagw where
  "TEARDOWN = DF_TUNNEL OR DF_WS_PROXY_PENDING OR DF_WS_WAITING"

definition shrink_input :: "(nat \<Rightarrow> bool) \<Rightarrow> string \<Rightarrow> string" where
  "shrink_input alloc inp =
     (if FIRST_INPUT_SIZE * 4 < length inp \<and> alloc FIRST_INPUT_SIZE then take FIRST_INPUT_SIZE inp else inp)"

definition axil_close :: "kernel \<Rightarrow> int \<Rightarrow> server \<Rightarrow> server" where
  "axil_close k fd s =
     (if fd = - 1 \<or> int FD_SETSIZE \<le> fd then s
      else let i = nat fd; d = descr_map s i in
        if has (d_flags d) TEARDOWN then axil_tunnel_close_raw fd s
        else
          emit ((if has (d_flags d) DF_CONNECTED \<and> h_disconnect k then [EvDisconnect i] else [])
                @ (if has (d_flags d) DF_WEBSOCKET then [EvWsClose i] else [])
                @ (if h_cleanup k then [EvCleanup i] else [])
                @ ssl_drop_events i d
                @ (if d_env d then [EvEnvClose i] else [])
                @ [EvCloseFd fd])
            ((fd_clr_all i s)\<lparr>tunnel_pair := (tunnel_pair s)(i := - 1),
               descr_map := (descr_map s)(i := zero_descr (- 1)),
               input := shrink_input (k_alloc k) (input s)\<rparr>))"

section \<open>Opening\<close>

text \<open>The return value of \<open>ssl_accept\<close>, non-zero when the descriptor was closed.\<close>

definition ssl_accept :: "kernel \<Rightarrow> nat \<Rightarrow> server \<Rightarrow> int \<times> server" where
  "ssl_accept k i s =
     (let s1 = upd_descr i (clear_flags DF_ACCEPTED) s in
      case k_ssl k i of
        SslDone \<Rightarrow> (0, upd_descr i (add_flags DF_ACCEPTED) s1)
      | SslWantRead \<Rightarrow> (0, s1)
      | SslFailed \<Rightarrow> (1, axil_close k (int i) s1))"

definition descr_new :: "kernel \<Rightarrow> bool \<Rightarrow> server \<Rightarrow> server" where
  "descr_new k ssl s =
     (let fd = k_accept k ssl in
      if fd \<le> 0 then s
      else if int FD_SETSIZE \<le> fd then emit [EvOpenFd fd, EvCloseFd fd] s
      else
        let i = nat fd;
            s1 = (emit [EvOpenFd fd] s)\<lparr>fds_active := insert i (fds_active s), io := (io s)(i := NoIo),
                   descr_map := (descr_map s)(i := zero_descr fd)\<rparr> in
        if \<not> k_malloc k then emit [EvCloseFd fd]
             (upd_descr i (\<lambda>d. d\<lparr>d_queue := empty_queue\<lparr>remaining_size := BUFSIZ * 1024\<rparr>\<rparr>)
               (s1\<lparr>fds_active := fds_active s1 - {i}\<rparr>))
        else
          let s2 = upd_descr i (\<lambda>d. d\<lparr>d_queue := fresh_queue, d_env := True, d_ssl := ssl,
                       d_flags := (if ssl then d_flags d else DF_ACCEPTED)\<rparr>)
                     (s1\<lparr>io := (io s1)(i := RawIo)\<rparr>);
              (r, s3) = (if ssl then ssl_accept k i s2 else (0, s2)) in
          if r \<noteq> 0 then s3 else if h_accept k then emit [EvAccept i] s3 else s3)"

definition axil_upstream_descr_init :: "kernel \<Rightarrow> nat \<Rightarrow> server \<Rightarrow> server" where
  "axil_upstream_descr_init k i s =
     (let s1 = s\<lparr>io := (io s)(i := NoIo),
                 descr_map := (descr_map s)(i := (zero_descr (int i))\<lparr>d_flags := DF_ACCEPTED\<rparr>)\<rparr> in
      if \<not> k_malloc k then emit [EvCloseFd (int i)]
           (upd_descr i (\<lambda>d. d\<lparr>d_queue := empty_queue\<lparr>remaining_size := BUFSIZ * 1024\<rparr>\<rparr>) s1)
      else upd_descr i (\<lambda>d. d\<lparr>d_queue := fresh_queue, d_env := True\<rparr>) (s1\<lparr>io := (io s1)(i := RawIo)\<rparr>))"

text \<open>The state before \<open>main\<close> (2675 to 2695), the listening sockets (1064 to 1106) and the start of the
  server (1220 to 1283); \<open>sock\<close> is the descriptor \<open>socket\<close> gave, the calls that abort the process when
  they fail are taken to succeed.\<close>

definition axil_pre_init :: server where
  "axil_pre_init = \<lparr>descr_map = (\<lambda>_. zero_descr 0), io = (\<lambda>_. NoIo), ws_fl = (\<lambda>_. 0), tunnel_pair = (\<lambda>_. - 1),
     fds_active = {}, fds_read = {}, fds_write = {}, fds_wactive = {}, srv_fd = - 1, srv_ssl_fd = - 1,
     input = [], events = []\<rparr>"

definition axil_bind :: "bool \<Rightarrow> int \<Rightarrow> server \<Rightarrow> server" where
  "axil_bind ssl sock s =
     (let i = nat sock;
          s1 = (upd_descr i (\<lambda>d. d\<lparr>d_fd := sock\<rparr>) (emit [EvOpenFd sock] s))\<lparr>fds_active := insert i (fds_active s)\<rparr> in
      if ssl then s1\<lparr>srv_ssl_fd := sock\<rparr> else s1\<lparr>srv_fd := sock\<rparr>)"

definition mime_types :: "(string \<times> string) list" where
  "mime_types =
     [(''html'', ''text/html; charset=utf-8''), (''txt'', ''text/plain; charset=utf-8''), (''css'', ''text/css''),
      (''js'', ''application/javascript''), (''wasm'', ''application/wasm''), (''jpeg'', ''image/jpeg''),
      (''jpg'', ''image/jpeg''), (''png'', ''image/png''), (''gif'', ''image/gif''), (''webp'', ''image/webp''),
      (''svg'', ''image/svg+xml''), (''pdf'', ''application/pdf''), (''mp3'', ''audio/mpeg''), (''ogg'', ''audio/ogg''),
      (''wav'', ''audio/wav''), (''json'', ''application/json'')]"

definition axil_init :: "bool \<Rightarrow> int \<Rightarrow> int \<Rightarrow> server \<Rightarrow> server" where
  "axil_init ssl ssl_sock sock s =
     (let s1 = s\<lparr>input := replicate FIRST_INPUT_SIZE NUL\<rparr>;
          s2 = (if ssl then axil_bind True ssl_sock s1 else s1) in
      axil_bind False sock s2)"

section \<open>Writing\<close>

definition sent_events :: "nat \<Rightarrow> string \<Rightarrow> sevent list" where
  "sent_events i txt = (if txt = [] then [] else [EvSent i txt])"

definition queue_result :: "kernel \<Rightarrow> nat \<Rightarrow> int \<times> wqueue \<times> string \<times> bool \<Rightarrow> server \<Rightarrow> int \<times> server" where
  "queue_result k i res s =
     (case res of (r, q, sent, cl) \<Rightarrow>
        let s1 = emit (sent_events i sent) (upd_descr i (\<lambda>d. d\<lparr>d_queue := q\<rparr>) s) in
        (r, if cl then axil_close k (int i) s1 else s1))"

text \<open>The descriptors the kernel has open, from the events; its answer on any other is an error.\<close>

fun live_from :: "int set \<Rightarrow> sevent list \<Rightarrow> int set" where
  "live_from L [] = L"
| "live_from L (EvOpenFd fd # es) = live_from (insert fd L) es"
| "live_from L (EvCloseFd fd # es) = live_from (L - {fd}) es"
| "live_from L (e # es) = live_from L es"

definition live :: "server \<Rightarrow> int set" where
  "live s = live_from {} (events s)"

definition k_answer :: "kernel \<Rightarrow> nat \<Rightarrow> server \<Rightarrow> kwrite" where
  "k_answer k i s = (if int i \<in> live s then k_write k i else WErr EOTHER)"

definition offered :: "kwrite \<Rightarrow> nat \<Rightarrow> kwrite" where
  "offered a n = (case a of Wrote r \<Rightarrow> Wrote (min r n) | WErr e \<Rightarrow> WErr e)"

lemma offered_simps [simp]: "offered (Wrote r) n = Wrote (min r n)" "offered (WErr e) n = WErr e"
  by (simp_all add: offered_def)

lemma takes_offered [simp]: "takes (offered a n) n"
  by (cases a) (simp_all add: takes_def)

lemma offered_err [simp]: "offered a n = WErr e \<longleftrightarrow> a = WErr e"
  by (cases a) simp_all

definition server_flush :: "kernel \<Rightarrow> nat \<Rightarrow> server \<Rightarrow> (int \<times> server) run" where
  "server_flush k i s =
     (let d = descr_map s i in
      if remaining_len (d_queue d) = 0 then Done (0, s)
      else if io s i = NoIo then NullCall
      else Done (queue_result k i
             (axil_write_remaining (has (d_flags d) DF_TO_CLOSE)
               (offered (k_answer k i s) (remaining_len (d_queue d))) (d_queue d)) s))"

text \<open>\<open>dio->write\<close>: \<open>axil_low_write\<close>, or \<open>ws_write\<close> that goes past the queue.\<close>

definition answer_of :: "kwrite \<Rightarrow> int" where
  "answer_of a = (case a of Wrote r \<Rightarrow> int r | WErr e \<Rightarrow> - 1)"

definition lower_send :: "kwrite \<Rightarrow> string list \<Rightarrow> string \<Rightarrow> int \<times> string list" where
  "lower_send a sent txt =
     (answer_of (offered a (length txt)), case a of Wrote r \<Rightarrow> sent @ [take r txt] | WErr e \<Rightarrow> sent)"

definition raw_write :: "kernel \<Rightarrow> nat \<Rightarrow> string \<Rightarrow> server \<Rightarrow> (int \<times> wqueue \<times> string \<times> bool) run" where
  "raw_write k i txt s =
     (let d = descr_map s i in
      axil_low_write (k_alloc k) (has (d_flags d) DF_TO_CLOSE)
        (offered (k_answer k i s) (remaining_len (d_queue d) + length txt)) txt (d_queue d))"

definition server_write :: "kernel \<Rightarrow> nat \<Rightarrow> string \<Rightarrow> server \<Rightarrow> (int \<times> server) run" where
  "server_write k i txt s =
     (case io s i of
        NoIo \<Rightarrow> NullCall
      | RawIo \<Rightarrow> bind_run (raw_write k i txt s) (\<lambda>res. Done (queue_result k i res s))
      | WsIo \<Rightarrow>
          case ws_write (lower_send (k_answer k i s)) txt \<lparr>ws_flags = ws_fl s i, frame = zero_frame\<rparr> [] of
            (r, sent) \<Rightarrow> Done (r, emit (concat (map (sent_events i) sent)) s))"

definition axil_write :: "kernel \<Rightarrow> int \<Rightarrow> string \<Rightarrow> server \<Rightarrow> (int \<times> server) run" where
  "axil_write k fd txt s = (if fd \<le> 0 then Done (- 1, s) else server_write k (nat fd) txt s)"

section \<open>Proxy pairs and upgrades\<close>

definition upgrade_request :: "string \<Rightarrow> string \<Rightarrow> string \<Rightarrow> string" where
  "upgrade_request argv0 argv1 ws_key =
     argv0 @ '' '' @ argv1 @ '' HTTP/1.1'' @ CRLF @ ''Host: 127.0.0.1:3000'' @ CRLF
     @ ''Upgrade: websocket'' @ CRLF @ ''Connection: Upgrade'' @ CRLF
     @ ''Sec-WebSocket-Key: '' @ ws_key @ CRLF @ ''Sec-WebSocket-Version: 13'' @ CRLF @ CRLF"

text \<open>Lines 2395 to 2456 of \<open>request_handle\<close>, after the registered handler connected the upstream; the
  key is what \<open>axil_env_get\<close> found, cut to its buffer.\<close>

definition ws_proxy_start ::
  "kernel \<Rightarrow> nat \<Rightarrow> string \<Rightarrow> string \<Rightarrow> string option \<Rightarrow> int \<Rightarrow> server \<Rightarrow> server" where
  "ws_proxy_start k fd argv0 argv1 key upstream s =
     (if upstream = - 1 then s
      else case key of
        None \<Rightarrow> emit [EvCloseFd upstream] s
      | Some ws_key \<Rightarrow>
          let req = upgrade_request argv0 argv1 (snprintf_trunc 128 ws_key) in
          if 2048 \<le> length req \<or> int FD_SETSIZE \<le> upstream then emit [EvCloseFd upstream] s
          else
            let u = nat upstream;
                s1 = axil_upstream_descr_init k u s;
                s2 = s1\<lparr>tunnel_pair := (tunnel_pair s1)(fd := upstream, u := int fd)\<rparr>;
                s3 = upd_descr u (add_flags (DF_WS_WAITING OR DF_WS_PROXY_PENDING))
                       (upd_descr fd (add_flags DF_WS_PROXY_PENDING) s2);
                s4 = s3\<lparr>fds_active := insert u (fds_active s3)\<rparr>;
                (wr, sent) = lower_send (k_answer k u s4) [] req;
                s5 = emit (concat (map (sent_events u) sent)) s4 in
            if wr < 0 \<or> wr < int (length req) then axil_tunnel_close_raw upstream s5 else s5)"

definition axil_ws_tunnel :: "nat \<Rightarrow> nat \<Rightarrow> server \<Rightarrow> server" where
  "axil_ws_tunnel a b s =
     (let s1 = s\<lparr>fds_active := insert b (insert a (fds_active s))\<rparr>;
          f = (\<lambda>d. add_flags DF_TUNNEL (clear_flags (DF_WS_WAITING OR DF_WS_PROXY_PENDING) d));
          s2 = upd_descr b f (upd_descr a f s1) in
      s2\<lparr>tunnel_pair := (tunnel_pair s2)(a := int b, b := int a)\<rparr>)"

definition axil_ws_upgrade ::
  "(string \<Rightarrow> string) \<Rightarrow> kernel \<Rightarrow> nat \<Rightarrow> string option \<Rightarrow> server \<Rightarrow> int \<times> server" where
  "axil_ws_upgrade sha1 k i key s =
     (if has (d_flags (descr_map s i)) DF_WEBSOCKET then (0, s)
      else case key of
        None \<Rightarrow> (- 1, s)
      | Some v \<Rightarrow>
          let (st, sent) = ws_init sha1 (lower_send (k_answer k i s)) (snprintf_trunc ENV_VALUE_LEN v)
                \<lparr>ws_flags = ws_fl s i, frame = zero_frame\<rparr> [];
              s1 = (emit (concat (map (sent_events i) sent)) s)\<lparr>ws_fl := (ws_fl s)(i := ws_flags st)\<rparr>;
              s2 = (upd_descr i (add_flags DF_WEBSOCKET) s1)\<lparr>io := (io s)(i := WsIo)\<rparr> in
          (0, if h_connect k i then upd_descr i (add_flags DF_CONNECTED) s2 else s2))"

definition axil_set_flags :: "nat \<Rightarrow> flagw \<Rightarrow> server \<Rightarrow> server" where
  "axil_set_flags i fl = upd_descr i (\<lambda>d. d\<lparr>d_flags := fl\<rparr>)"

definition axil_fd_watch :: "nat \<Rightarrow> server \<Rightarrow> server" where
  "axil_fd_watch i s =
     (upd_descr i (\<lambda>d. add_flags DF_EXTERN (d\<lparr>d_fd := int i\<rparr>)) s)\<lparr>fds_active := insert i (fds_active s)\<rparr>"

definition axil_fd_unwatch :: "nat \<Rightarrow> server \<Rightarrow> server" where
  "axil_fd_unwatch i s = s\<lparr>fds_active := fds_active s - {i}, fds_read := fds_read s - {i}\<rparr>"

definition axil_clear_active :: "nat \<Rightarrow> server \<Rightarrow> server" where
  "axil_clear_active i s = s\<lparr>fds_active := fds_active s - {i}\<rparr>"

section \<open>The passes of the main loop\<close>

text \<open>A stream socket: the answers are used up in order, a read takes at most \<open>n\<close> bytes.\<close>

definition recv_from :: "kread list \<Rightarrow> nat \<Rightarrow> kread \<times> kread list" where
  "recv_from as n =
     (case as of
        [] \<Rightarrow> (RErr EAGAIN, [])
      | RErr e # rest \<Rightarrow> (RErr e, rest)
      | Got b # rest \<Rightarrow> (Got (take n b), if length b \<le> n then rest else Got (drop n b) # rest))"

text \<open>The block \<open>input\<close> after \<open>axil_read\<close> put \<open>inp\<close> in it and made it \<open>sz\<close> bytes long.\<close>

definition store_input :: "string \<Rightarrow> nat \<Rightarrow> string \<Rightarrow> string" where
  "store_input inp sz block = inp @ drop (length inp) (take sz block @ replicate (sz - length block) NUL)"

type_synonym callbacks = "nat \<Rightarrow> cmd_action list \<Rightarrow> server \<Rightarrow> server"

definition descr_read :: "kernel \<Rightarrow> callbacks \<Rightarrow> nat \<Rightarrow> server \<Rightarrow> (int \<times> server) run" where
  "descr_read k cb i s =
     (let d = descr_map s i in
      if d_fd d \<noteq> int i then Done (1, s)
      else if \<not> has (d_flags d) DF_ACCEPTED then Done (0, s)
      else if io s i = NoIo then NullCall
      else case axil_read recv_from (k_alloc k) (length (input s)) (k_recv k i) of
        (ret, err, inp, sz, _) \<Rightarrow>
          let s1 = s\<lparr>input := store_input inp sz (input s)\<rparr> in
          if ret = - 1 then Done (if err = Some EAGAIN then 0 else - 1, s1)
          else if ret = 0 then Done (- 1, s1)
          else if h_parse k i inp < 0 then Done (0, s1)
          else bind_run
            (cmd_parse (h_cmds k) (h_command k) (h_vim k) (h_flush k) (d_flags d) (input s1) (length inp))
            (\<lambda>(r, buf, acts).
               let s2 = s1\<lparr>input := buf\<rparr> in
               Done (r, if acts = [CmdClose] then axil_close k (int i) s2 else cb i acts s2)))"

definition proc_write_fd :: "kernel \<Rightarrow> nat \<Rightarrow> server \<Rightarrow> server run" where
  "proc_write_fd k i s =
     (let d = descr_map s i;
          s1 = (if \<not> has (d_flags d) DF_ACCEPTED \<and> d_ssl d then snd (ssl_accept k i s) else s) in
      if i \<notin> fds_write s1 \<or> int i = srv_fd s1 \<or> int i = srv_ssl_fd s1
         \<or> has (d_flags (descr_map s1 i)) DF_EXTERN then Done s1
      else bind_run (server_flush k i s1) (\<lambda>(_, s2).
        Done (if d_epid (descr_map s2 i) \<noteq> 0 \<and> h_exec_loop k then emit [EvExecLoop i] s2 else s2)))"

text \<open>What the reads of a waiting upstream and of a tunnel do before they forward (lines 983 to 1000 and
  1024 to 1041): the bytes read and the peer, or none when the pair is closed instead.\<close>

definition relay_read :: "kernel \<Rightarrow> nat \<Rightarrow> (int \<Rightarrow> bool) \<Rightarrow> server \<Rightarrow> (string \<times> nat) option" where
  "relay_read k i peer_ok s =
     (case fst (recv_from (k_recv k i) 4096) of
        RErr e \<Rightarrow> None
      | Got buf \<Rightarrow>
          let peer = tunnel_pair s i in
          if buf = [] \<or> peer = - 1 \<or> peer = int i \<or> int FD_SETSIZE \<le> peer
             \<or> d_fd (descr_map s (nat peer)) \<noteq> peer \<or> \<not> peer_ok peer then None
          else Some (buf, nat peer))"

definition ws_waiting_read :: "kernel \<Rightarrow> nat \<Rightarrow> server \<Rightarrow> server run" where
  "ws_waiting_read k i s =
     (if io s i = NoIo then NullCall
      else case relay_read k i (\<lambda>p. tunnel_pair s (nat p) = int i
                 \<and> has (d_flags (descr_map s (nat p))) DF_WS_PROXY_PENDING) s of
        None \<Rightarrow> Done (axil_tunnel_close_raw (int i) s)
      | Some (buf, peer) \<Rightarrow>
          bind_run (server_write k peer buf s) (\<lambda>(_, s1).
            Done (if prefix ''HTTP/1.1 101'' buf then axil_ws_tunnel peer i s1
                  else axil_tunnel_close_raw (int i) s1)))"

definition tunnel_read :: "kernel \<Rightarrow> nat \<Rightarrow> server \<Rightarrow> server run" where
  "tunnel_read k i s =
     (if io s i = NoIo then NullCall
      else case relay_read k i (\<lambda>p. True) s of
        None \<Rightarrow> Done (axil_tunnel_close_raw (int i) s)
      | Some (buf, peer) \<Rightarrow> bind_run (server_write k peer buf s) (\<lambda>(_, s1). Done s1))"

definition proc_read_fd :: "kernel \<Rightarrow> callbacks \<Rightarrow> nat \<Rightarrow> server \<Rightarrow> server run" where
  "proc_read_fd k cb i s =
     (let d = descr_map s i in
      if i \<notin> fds_read s then Done s
      else if int i = srv_fd s then Done (descr_new k False s)
      else if int i = srv_ssl_fd s then Done (descr_new k True s)
      else if d_fd d \<noteq> int i then Done s
      else if has (d_flags d) DF_EXTERN then Done (if h_tick k then emit [EvTick i] s else s)
      else if has (d_flags d) DF_WS_WAITING then ws_waiting_read k i s
      else if has (d_flags d) DF_TUNNEL then tunnel_read k i s
      else if d_epid d \<noteq> 0 then Done s
      else bind_run (descr_read k cb i s) (\<lambda>(r, s1).
        Done (if r < 0 then axil_close k (int i) s1 else s1)))"

fun run_pass :: "(nat \<Rightarrow> 's \<Rightarrow> 's run) \<Rightarrow> nat list \<Rightarrow> 's \<Rightarrow> 's run" where
  "run_pass f [] s = Done s"
| "run_pass f (i # is) s = bind_run (f i s) (run_pass f is)"

definition descr_proc_writes :: "kernel \<Rightarrow> server \<Rightarrow> server run" where
  "descr_proc_writes k = run_pass (proc_write_fd k) [0..<FD_SETSIZE]"

definition descr_proc_reads :: "kernel \<Rightarrow> callbacks \<Rightarrow> server \<Rightarrow> server run" where
  "descr_proc_reads k cb = run_pass (proc_read_fd k cb) [0..<FD_SETSIZE]"

text \<open>The answers of \<open>select\<close>: ready sets, none within the time, an error that is retried, another.\<close>

datatype select_ans = SelReady "nat set" "nat set" | SelTimeout | SelRetry | SelFail

record iteration =
  it_wake :: bool
  it_wake_updated :: bool
  it_kernel :: kernel
  it_select :: select_ans

text \<open>One iteration, after the test of \<open>AXIL_WAKE\<close>; the first component is the value \<open>axil_main\<close>
  returns, \<open>None\<close> when it goes on.\<close>

definition main_iteration :: "callbacks \<Rightarrow> iteration \<Rightarrow> server \<Rightarrow> (int option \<times> server) run" where
  "main_iteration cb it s =
     (let k = it_kernel it; s0 = (if h_update k then emit [EvUpdate] s else s) in
      if \<not> it_wake_updated it then Done (Some 0, s0)
      else bind_run (run_pass (\<lambda>i t. bind_run (server_flush k i t) (\<lambda>(_, t'). Done t')) [0..<FD_SETSIZE] s0)
        (\<lambda>s1. let s2 = s1\<lparr>fds_read := fds_active s1, fds_write := fds_wactive s1\<rparr> in
          case it_select it of
            SelRetry \<Rightarrow> Done (None, s2)
          | SelFail \<Rightarrow> Done (Some (- 1), s2)
          | SelTimeout \<Rightarrow> Done (None, s2\<lparr>fds_read := {}, fds_write := {}\<rparr>)
          | SelReady rd wr \<Rightarrow>
              bind_run (descr_proc_writes k (s2\<lparr>fds_read := fds_read s2 \<inter> rd, fds_write := fds_write s2 \<inter> wr\<rparr>))
                (\<lambda>s3. bind_run (descr_proc_reads k cb s3) (\<lambda>s4. Done (None, s4)))))"

fun axil_main_loop :: "callbacks \<Rightarrow> iteration list \<Rightarrow> server \<Rightarrow> (int option \<times> server) run" where
  "axil_main_loop cb [] s = Done (None, s)"
| "axil_main_loop cb (it # its) s =
     (if \<not> it_wake it then Done (Some 0, s)
      else bind_run (main_iteration cb it s) (\<lambda>(r, s').
        case r of Some v \<Rightarrow> Done (Some v, s') | None \<Rightarrow> axil_main_loop cb its s'))"

end
