(* ===== verification/Axil_Server.thy ===== *)
theory Axil_Server
  imports Axil_Descr
begin

text \<open>
  The proofs about the descriptor table of \<open>Axil_Descr\<close>.  \<open>live\<close> are the descriptors the kernel
  has open, read off the events; \<open>server_ok\<close> says that pairs are sound and that the loop waits only
  on open descriptors.  Every operation keeps it, under the guards written in the step relation
  \<open>server_step\<close>, an instance of \<open>transition_system\<close>.  The properties: closing one end tears down
  both and nothing else, an upstream's answer decides between tunnel and teardown, a tunnel forwards
  in order, and two ways to break the pairs when a guard is dropped.
\<close>

section \<open>Descriptors the kernel has open\<close>

lemma live_from_append [simp]: "live_from L (es @ fs) = live_from (live_from L es) fs"
  by (induction L es rule: live_from.induct) auto

lemma live_from_sent [simp]: "live_from L (sent_events i txt) = L"
  by (simp add: sent_events_def)

lemma live_from_sents [simp]: "live_from L (concat (map (sent_events i) txts)) = L"
  by (induction txts) auto

lemma live_from_ssl [simp]: "live_from L (ssl_drop_events i d) = L"
  by (simp add: ssl_drop_events_def)

named_theorems server_simps "how the operations act on the components of the state"

lemma emit_simps [server_simps, simp]:
  "descr_map (emit es s) = descr_map s" "io (emit es s) = io s" "ws_fl (emit es s) = ws_fl s"
  "tunnel_pair (emit es s) = tunnel_pair s" "fds_active (emit es s) = fds_active s"
  "fds_read (emit es s) = fds_read s" "fds_write (emit es s) = fds_write s"
  "fds_wactive (emit es s) = fds_wactive s" "srv_fd (emit es s) = srv_fd s"
  "srv_ssl_fd (emit es s) = srv_ssl_fd s" "input (emit es s) = input s"
  "live (emit es s) = live_from (live s) es" "events (emit es s) = events s @ es"
  by (simp_all add: emit_def live_def)

lemma upd_descr_simps [server_simps, simp]:
  "descr_map (upd_descr i f s) = (descr_map s)(i := f (descr_map s i))" "io (upd_descr i f s) = io s"
  "tunnel_pair (upd_descr i f s) = tunnel_pair s" "fds_active (upd_descr i f s) = fds_active s"
  "fds_read (upd_descr i f s) = fds_read s" "srv_fd (upd_descr i f s) = srv_fd s"
  "srv_ssl_fd (upd_descr i f s) = srv_ssl_fd s" "live (upd_descr i f s) = live s" "input (upd_descr i f s) = input s"
  "events (upd_descr i f s) = events s"
  by (simp_all add: upd_descr_def live_def)

lemma live_updates [simp]:
  "live (s\<lparr>tunnel_pair := tp\<rparr>) = live s" "live (s\<lparr>io := f\<rparr>) = live s" "live (s\<lparr>descr_map := dm\<rparr>) = live s"
  "live (s\<lparr>fds_active := fa\<rparr>) = live s" "live (s\<lparr>fds_read := fa\<rparr>) = live s" "live (s\<lparr>input := b\<rparr>) = live s"
  "live (s\<lparr>ws_fl := w\<rparr>) = live s" "live (s\<lparr>fds_write := fa\<rparr>) = live s" "live (s\<lparr>fds_wactive := fa\<rparr>) = live s"
  by (simp_all add: live_def)

lemma fd_clr_all_simps [server_simps, simp]:
  "descr_map (fd_clr_all i s) = descr_map s" "io (fd_clr_all i s) = io s" "live (fd_clr_all i s) = live s"
  "tunnel_pair (fd_clr_all i s) = tunnel_pair s" "events (fd_clr_all i s) = events s" "input (fd_clr_all i s) = input s"
  "fds_active (fd_clr_all i s) = fds_active s - {i}"
  by (simp_all add: fd_clr_all_def live_def)

lemma add_flags_simps [simp]:
  "d_flags (add_flags f d) = d_flags d OR f" "d_fd (add_flags f d) = d_fd d" "d_queue (add_flags f d) = d_queue d"
  by (simp_all add: add_flags_def)

lemma clear_flags_simps [simp]:
  "d_flags (clear_flags f d) = d_flags d AND NOT f" "d_fd (clear_flags f d) = d_fd d"
  "d_queue (clear_flags f d) = d_queue d"
  by (simp_all add: clear_flags_def)

lemma zero_descr_simps [simp]:
  "d_fd (zero_descr fd) = fd" "d_flags (zero_descr fd) = 0" "d_queue (zero_descr fd) = empty_queue"
  by (simp_all add: zero_descr_def)

lemma has_or [simp]: "has (a OR b) f \<longleftrightarrow> has a f \<or> has b f"
  by (simp add: has_def bit.conj_disj_distrib2 or_eq_0_iff)

lemma has_zero [simp]: "\<not> has 0 f"
  by (simp add: has_def)

lemma has_split: "has a (f OR g) \<longleftrightarrow> has a f \<or> has a g"
  by (simp add: has_def bit.conj_disj_distrib or_eq_0_iff)

section \<open>Pairs\<close>

definition end_ok :: "server \<Rightarrow> nat \<Rightarrow> bool" where
  "end_ok s i \<longleftrightarrow> i < FD_SETSIZE \<and> has (d_flags (descr_map s i)) TEARDOWN
     \<and> d_fd (descr_map s i) = int i \<and> int i \<in> live s"

definition pairs_ok :: "server \<Rightarrow> bool" where
  "pairs_ok s \<longleftrightarrow> (\<forall>i. tunnel_pair s i \<noteq> - 1 \<longrightarrow> end_ok s i
     \<and> (\<exists>j. tunnel_pair s i = int j \<and> j \<noteq> i \<and> tunnel_pair s j = int i))"

lemma pairs_okD:
  assumes "pairs_ok s" "tunnel_pair s i \<noteq> - 1"
  obtains j where "tunnel_pair s i = int j" "j \<noteq> i" "tunnel_pair s j = int i" "end_ok s i" "end_ok s j"
proof -
  obtain j where j: "tunnel_pair s i = int j" "j \<noteq> i" "tunnel_pair s j = int i" "end_ok s i"
    using assms by (auto simp: pairs_ok_def)
  moreover have "end_ok s j" using assms(1) j(3) by (auto simp: pairs_ok_def)
  ultimately show thesis by (rule that)
qed

text \<open>Dropping pairs as wholes, and leaving the other ends alone, keeps the pairs sound.\<close>

lemma pairs_ok_drop:
  assumes "pairs_ok s" "\<And>i. tunnel_pair s' i = (if i \<in> C then - 1 else tunnel_pair s i)"
    "\<And>i j. tunnel_pair s i = int j \<Longrightarrow> i \<in> C \<longleftrightarrow> j \<in> C"
    "\<And>i. i \<notin> C \<Longrightarrow> tunnel_pair s i \<noteq> - 1 \<Longrightarrow> end_ok s i \<Longrightarrow> end_ok s' i"
  shows "pairs_ok s'"
  unfolding pairs_ok_def
proof (intro allI impI)
  fix i assume "tunnel_pair s' i \<noteq> - 1"
  then have i: "i \<notin> C" "tunnel_pair s i \<noteq> - 1" "tunnel_pair s' i = tunnel_pair s i"
    using assms(2) by (auto split: if_splits)
  obtain j where j: "tunnel_pair s i = int j" "j \<noteq> i" "tunnel_pair s j = int i" "end_ok s i"
    using pairs_okD [OF assms(1) i(2)] by metis
  have "j \<notin> C" using assms(3) [OF j(1)] i(1) by simp
  then have "tunnel_pair s' j = int i" using assms(2) j(3) by simp
  then show "end_ok s' i \<and> (\<exists>j. tunnel_pair s' i = int j \<and> j \<noteq> i \<and> tunnel_pair s' j = int i)"
    using i(3) j assms(4) [OF i(1,2) j(4)] by auto
qed

lemma pairs_ok_keep:
  assumes "pairs_ok s" "tunnel_pair s' = tunnel_pair s"
    "\<And>i. tunnel_pair s i \<noteq> - 1 \<Longrightarrow> end_ok s i \<Longrightarrow> end_ok s' i"
  shows "pairs_ok s'"
  using assms(1) by (rule pairs_ok_drop [where C = "{}"]) (use assms(2,3) in auto)

section \<open>What closing does\<close>

lemma raw_reset_simps [server_simps]:
  assumes "i < FD_SETSIZE"
  shows "descr_map (axil_raw_descr_reset (int i) s) = (descr_map s)(i := zero_descr (- 1))"
    and "tunnel_pair (axil_raw_descr_reset (int i) s) = (tunnel_pair s)(i := - 1)"
    and "io (axil_raw_descr_reset (int i) s) = (io s)(i := NoIo)"
    and "live (axil_raw_descr_reset (int i) s) = live s - {int i}"
    and "fds_active (axil_raw_descr_reset (int i) s) = fds_active s - {i}"
  using assms by (simp_all add: axil_raw_descr_reset_def Let_def)

text \<open>Closing an end of a pair resets both ends and nothing else; \<open>C\<close> is the set of descriptors closed.\<close>

definition closed_with :: "server \<Rightarrow> nat \<Rightarrow> nat set" where
  "closed_with s i = insert i {j. tunnel_pair s i = int j}"

lemma tunnel_close_effect:
  assumes "i < FD_SETSIZE" "\<And>j. tunnel_pair s i = int j \<Longrightarrow> j < FD_SETSIZE" "- 1 \<le> tunnel_pair s i"
  defines "s' \<equiv> axil_tunnel_close_raw (int i) s" and "C \<equiv> closed_with s i"
  shows "descr_map s' j = (if j \<in> C then zero_descr (- 1) else descr_map s j)"
    and "tunnel_pair s' j = (if j \<in> C then - 1 else tunnel_pair s j)"
    and "io s' j = (if j \<in> C then NoIo else io s j)"
    and "live s' = live s - int ` C"
    and "fds_active s' = fds_active s - C"
proof -
  have "s' = (if tunnel_pair s i = - 1 \<or> tunnel_pair s i = int i
      then axil_raw_descr_reset (int i) (s\<lparr>tunnel_pair := (tunnel_pair s)(i := - 1)\<rparr>)
      else axil_raw_descr_reset (tunnel_pair s i) (axil_raw_descr_reset (int i)
        (s\<lparr>tunnel_pair := (tunnel_pair s)(i := - 1, nat (tunnel_pair s i) := - 1)\<rparr>)))"
    using assms(1,2,3) by (cases "tunnel_pair s i") (auto simp: s'_def axil_tunnel_close_raw_def Let_def)
  moreover have "tunnel_pair s i = - 1 \<or> (\<exists>p. tunnel_pair s i = int p \<and> p < FD_SETSIZE)"
    using assms(2,3) by (cases "tunnel_pair s i = - 1") (auto intro: exI [of _ "nat (tunnel_pair s i)"])
  ultimately show "descr_map s' j = (if j \<in> C then zero_descr (- 1) else descr_map s j)"
    "tunnel_pair s' j = (if j \<in> C then - 1 else tunnel_pair s j)"
    "io s' j = (if j \<in> C then NoIo else io s j)"
    "live s' = live s - int ` C" "fds_active s' = fds_active s - C"
    using assms(1) by (auto simp: raw_reset_simps C_def closed_with_def)
qed

lemma pair_sym:
  assumes "pairs_ok s" "tunnel_pair s a = int b"
  shows "tunnel_pair s b = int a" "b \<noteq> a" "end_ok s a" "end_ok s b" "b < FD_SETSIZE"
proof -
  have "tunnel_pair s a \<noteq> - 1" using assms(2) by simp
  then obtain j where "tunnel_pair s a = int j" "j \<noteq> a" "tunnel_pair s j = int a" "end_ok s a" "end_ok s j"
    using pairs_okD [OF assms(1)] by metis
  then show "tunnel_pair s b = int a" "b \<noteq> a" "end_ok s a" "end_ok s b" "b < FD_SETSIZE"
    using assms(2) by (auto simp: end_ok_def)
qed

lemma closed_with_pairs:
  assumes "pairs_ok s" "tunnel_pair s a = int b"
  shows "a \<in> closed_with s i \<longleftrightarrow> b \<in> closed_with s i"
proof -
  have "a \<in> closed_with s i \<Longrightarrow> b \<in> closed_with s i" if "tunnel_pair s a = int b" for a b
    using that pair_sym(1) [OF assms(1), of i a] by (auto simp: closed_with_def)
  from this [of a b] this [of b a] show ?thesis using assms(2) pair_sym(1) [OF assms] by blast
qed

lemma pair_ge:
  assumes "pairs_ok s"
  shows "- 1 \<le> tunnel_pair s i"
  using assms by (cases "tunnel_pair s i = - 1") (auto elim: pairs_okD)

lemma close_plain_effect:
  fixes k :: kernel
  assumes "i < FD_SETSIZE" "\<not> has (d_flags (descr_map s i)) TEARDOWN"
  defines "s' \<equiv> axil_close k (int i) s"
  shows "descr_map s' = (descr_map s)(i := zero_descr (- 1))"
    and "tunnel_pair s' = (tunnel_pair s)(i := - 1)" and "io s' = io s" and "live s' = live s - {int i}"
    and "fds_active s' = fds_active s - {i}"
  using assms(1,2) by (simp_all add: s'_def axil_close_def Let_def)

lemma close_marked:
  "has (d_flags (descr_map s i)) TEARDOWN \<Longrightarrow> axil_close k (int i) s = axil_tunnel_close_raw (int i) s"
  by (simp add: axil_close_def axil_tunnel_close_raw_def)

text \<open>With sound pairs, \<open>axil_close\<close> closes a descriptor with its peer, whichever way it goes.\<close>

lemma close_effect:
  fixes k :: kernel
  assumes "pairs_ok s" "i < FD_SETSIZE"
  defines "s' \<equiv> axil_close k (int i) s" and "C \<equiv> closed_with s i"
  shows "descr_map s' j = (if j \<in> C then zero_descr (- 1) else descr_map s j)"
    and "tunnel_pair s' j = (if j \<in> C then - 1 else tunnel_pair s j)"
    and "live s' = live s - int ` C"
    and "fds_active s' = fds_active s - C"
    and "j \<notin> C \<Longrightarrow> io s' j = io s j"
    and "io s' j = NoIo \<or> io s' j = io s j"
proof -
  have "descr_map s' j = (if j \<in> C then zero_descr (- 1) else descr_map s j)
    \<and> tunnel_pair s' j = (if j \<in> C then - 1 else tunnel_pair s j)
    \<and> live s' = live s - int ` C \<and> fds_active s' = fds_active s - C \<and> (j \<notin> C \<longrightarrow> io s' j = io s j)
    \<and> (io s' j = NoIo \<or> io s' j = io s j)"
  proof (cases "has (d_flags (descr_map s i)) TEARDOWN")
    case True
    show ?thesis
      unfolding s'_def C_def close_marked [where k = k, OF True]
      using tunnel_close_effect [OF assms(2), of s] pair_ge [OF assms(1)] pair_sym(5) [OF assms(1)] by auto
  next
    case False
    then have "tunnel_pair s i = - 1" using assms(1) by (auto simp: pairs_ok_def end_ok_def)
    then have "C = {i}" by (auto simp: C_def closed_with_def)
    then show ?thesis using close_plain_effect [OF assms(2) False, where k = k] by (simp add: s'_def)
  qed
  then show "descr_map s' j = (if j \<in> C then zero_descr (- 1) else descr_map s j)"
    "tunnel_pair s' j = (if j \<in> C then - 1 else tunnel_pair s j)"
    "live s' = live s - int ` C" "fds_active s' = fds_active s - C" "j \<notin> C \<Longrightarrow> io s' j = io s j"
    "io s' j = NoIo \<or> io s' j = io s j"
    by blast+
qed

lemma close_out_of_table: "\<not> (0 \<le> fd \<and> fd < int FD_SETSIZE) \<Longrightarrow> - 1 \<le> fd \<Longrightarrow> axil_close k fd s = s"
  by (auto simp: axil_close_def)

lemma tunnel_close_out_of_table:
  "\<not> (0 \<le> fd \<and> fd < int FD_SETSIZE) \<Longrightarrow> - 1 \<le> fd \<Longrightarrow> axil_tunnel_close_raw fd s = s"
  by (auto simp: axil_tunnel_close_raw_def)

section \<open>Operations and pairs\<close>

lemma end_ok_close:
  assumes "i \<notin> C" "end_ok s i" "descr_map s' i = descr_map s i" "live s' = live s - int ` C"
  shows "end_ok s' i"
  using assms by (auto simp: end_ok_def)

lemma tunnel_close_pairs:
  assumes "pairs_ok s" "- 1 \<le> fd"
  shows "pairs_ok (axil_tunnel_close_raw fd s)"
proof (cases "0 \<le> fd \<and> fd < int FD_SETSIZE")
  case True
  then obtain i where i: "fd = int i" "i < FD_SETSIZE" by (cases fd) auto
  note e = tunnel_close_effect [OF i(2) pair_sym(5) [OF assms(1)] pair_ge [OF assms(1)]]
  show ?thesis unfolding i(1)
    by (rule pairs_ok_drop [OF assms(1), where C = "closed_with s i"])
      (use e closed_with_pairs [OF assms(1)] in \<open>auto intro!: end_ok_close [where C = "closed_with s i" and s = s]\<close>)
next
  case False
  with assms show ?thesis by (simp add: tunnel_close_out_of_table)
qed

lemma close_pairs:
  assumes "pairs_ok s" "- 1 \<le> fd"
  shows "pairs_ok (axil_close k fd s)"
proof (cases "0 \<le> fd \<and> fd < int FD_SETSIZE")
  case True
  then obtain i where i: "fd = int i" "i < FD_SETSIZE" by (cases fd) auto
  note e = close_effect [OF assms(1) i(2)]
  show ?thesis unfolding i(1)
    by (rule pairs_ok_drop [OF assms(1), where C = "closed_with s i"])
      (use e closed_with_pairs [OF assms(1)] in \<open>auto intro!: end_ok_close [where C = "closed_with s i" and s = s]\<close>)
next
  case False
  with assms show ?thesis by (simp add: close_out_of_table)
qed

lemma pairs_upd:
  assumes "pairs_ok s" "\<And>d. d_fd d = int i \<Longrightarrow> d_fd (f d) = int i" "\<And>d. has (d_flags d) TEARDOWN \<Longrightarrow> has (d_flags (f d)) TEARDOWN"
  shows "pairs_ok (upd_descr i f s)"
  by (rule pairs_ok_keep [OF assms(1)]) (use assms(2,3) in \<open>auto simp: end_ok_def\<close>)

lemma pairs_emit:
  assumes "pairs_ok s" "\<And>i. tunnel_pair s i \<noteq> - 1 \<Longrightarrow> int i \<in> live s \<Longrightarrow> int i \<in> live_from (live s) es"
  shows "pairs_ok (emit es s)"
  by (rule pairs_ok_keep [OF assms(1)]) (use assms(2) in \<open>auto simp: end_ok_def\<close>)

lemma end_ok_updates [simp]:
  "end_ok (s\<lparr>io := f\<rparr>) = end_ok s" "end_ok (s\<lparr>fds_active := fa\<rparr>) = end_ok s" "end_ok (s\<lparr>fds_read := fa\<rparr>) = end_ok s"
  "end_ok (s\<lparr>input := b\<rparr>) = end_ok s" "end_ok (s\<lparr>ws_fl := w\<rparr>) = end_ok s" "end_ok (s\<lparr>tunnel_pair := tp\<rparr>) = end_ok s"
  by (auto simp: end_ok_def)

lemma pairs_updates [simp]:
  "pairs_ok (s\<lparr>io := f\<rparr>) = pairs_ok s" "pairs_ok (s\<lparr>fds_active := fa\<rparr>) = pairs_ok s"
  "pairs_ok (s\<lparr>fds_read := fa\<rparr>) = pairs_ok s" "pairs_ok (s\<lparr>input := b\<rparr>) = pairs_ok s"
  "pairs_ok (s\<lparr>ws_fl := w\<rparr>) = pairs_ok s"
  by (simp_all add: pairs_ok_def)

lemma has_clear_disjoint: "NOT f AND g = g \<Longrightarrow> has (fl AND NOT f) g \<longleftrightarrow> has fl g"
  by (simp add: has_def and.assoc)

lemma teardown_accepted [simp]: "has (fl AND NOT DF_ACCEPTED) TEARDOWN \<longleftrightarrow> has fl TEARDOWN"
  by (rule has_clear_disjoint) (simp add: TEARDOWN_def df_defs)

section \<open>What the loop waits on\<close>

text \<open>Every descriptor handed to \<open>select\<close> is in the table under its own number and open.\<close>

definition active_ok :: "server \<Rightarrow> bool" where
  "active_ok s \<longleftrightarrow> (\<forall>i \<in> fds_active s. d_fd (descr_map s i) = int i \<and> int i \<in> live s)"

definition server_ok :: "server \<Rightarrow> bool" where
  "server_ok s \<longleftrightarrow> pairs_ok s \<and> active_ok s"

lemma active_mono:
  assumes "active_ok s" "\<And>i. i \<in> fds_active s' \<Longrightarrow> i \<in> fds_active s \<or> d_fd (descr_map s' i) = int i \<and> int i \<in> live s'"
    "\<And>i. i \<in> fds_active s' \<Longrightarrow> i \<in> fds_active s \<Longrightarrow> d_fd (descr_map s i) = int i \<Longrightarrow> int i \<in> live s \<Longrightarrow>
      d_fd (descr_map s' i) = int i \<and> int i \<in> live s'"
  shows "active_ok s'"
  using assms unfolding active_ok_def by blast

lemma active_upd:
  assumes "active_ok s" "\<And>d. d_fd d = int i \<Longrightarrow> d_fd (f d) = int i"
  shows "active_ok (upd_descr i f s)"
  by (rule active_mono [OF assms(1)]) (use assms(2) in auto)

lemma active_emit:
  assumes "active_ok s" "\<And>i. i \<in> fds_active s \<Longrightarrow> int i \<in> live s \<Longrightarrow> int i \<in> live_from (live s) es"
  shows "active_ok (emit es s)"
  by (rule active_mono [OF assms(1)]) (use assms(2) in auto)

lemma active_updates [simp]:
  "active_ok (s\<lparr>io := f\<rparr>) = active_ok s" "active_ok (s\<lparr>fds_read := fa\<rparr>) = active_ok s"
  "active_ok (s\<lparr>input := b\<rparr>) = active_ok s" "active_ok (s\<lparr>ws_fl := w\<rparr>) = active_ok s"
  "active_ok (s\<lparr>tunnel_pair := tp\<rparr>) = active_ok s"
  by (simp_all add: active_ok_def)

lemma tunnel_close_active:
  assumes "server_ok s" "- 1 \<le> fd"
  shows "active_ok (axil_tunnel_close_raw fd s)"
proof (cases "0 \<le> fd \<and> fd < int FD_SETSIZE")
  case True
  then obtain i where i: "fd = int i" "i < FD_SETSIZE" by (cases fd) auto
  have p: "pairs_ok s" using assms(1) by (simp add: server_ok_def)
  note e = tunnel_close_effect [OF i(2) pair_sym(5) [OF p] pair_ge [OF p]]
  show ?thesis unfolding i(1)
    by (rule active_mono [of s]) (use e assms(1) in \<open>auto simp: server_ok_def\<close>)
next
  case False
  with assms show ?thesis by (simp add: tunnel_close_out_of_table server_ok_def)
qed

lemma close_active:
  assumes "server_ok s" "- 1 \<le> fd"
  shows "active_ok (axil_close k fd s)"
proof (cases "0 \<le> fd \<and> fd < int FD_SETSIZE")
  case True
  then obtain i where i: "fd = int i" "i < FD_SETSIZE" by (cases fd) auto
  have p: "pairs_ok s" using assms(1) by (simp add: server_ok_def)
  note e = close_effect [OF p i(2)]
  show ?thesis unfolding i(1)
    by (rule active_mono [of s]) (use e assms(1) in \<open>auto simp: server_ok_def\<close>)
next
  case False
  with assms show ?thesis by (simp add: close_out_of_table server_ok_def)
qed

lemma server_ok_close: "server_ok s \<Longrightarrow> - 1 \<le> fd \<Longrightarrow> server_ok (axil_close k fd s)"
  using close_active close_pairs by (simp add: server_ok_def)

lemma server_ok_tunnel_close: "server_ok s \<Longrightarrow> - 1 \<le> fd \<Longrightarrow> server_ok (axil_tunnel_close_raw fd s)"
  using tunnel_close_active tunnel_close_pairs by (simp add: server_ok_def)

lemma server_ok_upd:
  assumes "server_ok s" "\<And>d. d_fd d = int i \<Longrightarrow> d_fd (f d) = int i" "\<And>d. has (d_flags d) TEARDOWN \<Longrightarrow> has (d_flags (f d)) TEARDOWN"
  shows "server_ok (upd_descr i f s)"
  using assms pairs_upd active_upd by (simp add: server_ok_def)

lemma server_ok_emit:
  assumes "server_ok s" "\<And>i. i \<in> fds_active s \<or> tunnel_pair s i \<noteq> - 1 \<Longrightarrow> int i \<in> live s \<Longrightarrow> int i \<in> live_from (live s) es"
  shows "server_ok (emit es s)"
  using assms pairs_emit active_emit by (simp add: server_ok_def)

lemma server_ok_updates [simp]:
  "server_ok (s\<lparr>io := f\<rparr>) = server_ok s" "server_ok (s\<lparr>fds_read := fa\<rparr>) = server_ok s"
  "server_ok (s\<lparr>input := b\<rparr>) = server_ok s" "server_ok (s\<lparr>ws_fl := w\<rparr>) = server_ok s"
  by (simp_all add: server_ok_def)

lemma server_ok_keep:
  assumes "server_ok s" "tunnel_pair s' = tunnel_pair s" "\<And>i. tunnel_pair s i \<noteq> - 1 \<Longrightarrow> end_ok s i \<Longrightarrow> end_ok s' i"
    "\<And>i. i \<in> fds_active s' \<Longrightarrow> i \<in> fds_active s \<or> d_fd (descr_map s' i) = int i \<and> int i \<in> live s'"
    "\<And>i. i \<in> fds_active s' \<Longrightarrow> i \<in> fds_active s \<Longrightarrow> d_fd (descr_map s i) = int i \<Longrightarrow> int i \<in> live s \<Longrightarrow>
      d_fd (descr_map s' i) = int i \<and> int i \<in> live s'"
  shows "server_ok s'"
  using assms pairs_ok_keep active_mono unfolding server_ok_def by blast

lemma server_okD: "server_ok s \<Longrightarrow> pairs_ok s" "server_ok s \<Longrightarrow> active_ok s"
  by (simp_all add: server_ok_def)

section \<open>Every operation keeps the table sound\<close>

lemma queue_result_ok:
  assumes "server_ok s"
  shows "server_ok (snd (queue_result k i res s))"
proof -
  have "server_ok (emit (sent_events i sent) (upd_descr i (\<lambda>d. d\<lparr>d_queue := q\<rparr>) s))" for sent q
    by (intro server_ok_emit server_ok_upd assms) auto
  then show ?thesis by (auto simp: queue_result_def Let_def intro: server_ok_close split: prod.split)
qed

lemma server_flush_ok:
  assumes "server_ok s" "server_flush k i s = Done (r, s')"
  shows "server_ok s'"
proof -
  have "server_ok (snd (queue_result k i res s))" for res by (rule queue_result_ok [OF assms(1)])
  then have "queue_result k i res s = (r, s') \<Longrightarrow> server_ok s'" for res by (metis snd_conv)
  then show ?thesis using assms by (auto simp: server_flush_def Let_def split: if_splits)
qed

lemma server_write_ok:
  assumes "server_ok s" "server_write k i txt s = Done (r, s')"
  shows "server_ok s'"
proof (cases "io s i")
  case RawIo
  then have "\<exists>res. queue_result k i res s = (r, s')"
    using assms(2) by (cases "raw_write k i txt s") (auto simp: server_write_def)
  then show ?thesis using queue_result_ok [OF assms(1)] by (metis snd_conv)
next
  case WsIo
  with assms show ?thesis by (auto simp: server_write_def intro!: server_ok_emit split: prod.splits)
qed (use assms in \<open>simp add: server_write_def\<close>)

lemma ssl_accept_ok:
  assumes "server_ok s"
  shows "server_ok (snd (ssl_accept k i s))"
  using assms by (auto simp: ssl_accept_def Let_def intro!: server_ok_close server_ok_upd split: ssl_result.split)

text \<open>A descriptor the kernel has just given out is in no pair.\<close>

lemma fresh_unpaired:
  assumes "pairs_ok s" "int i \<notin> live s"
  shows "tunnel_pair s i = - 1"
  using assms by (auto simp: pairs_ok_def end_ok_def)

lemma descr_new_ok:
  assumes "server_ok s" "k_accept k ssl \<notin> live s"
  shows "server_ok (descr_new k ssl s)"
proof (cases "0 < k_accept k ssl \<and> k_accept k ssl < int FD_SETSIZE")
  case True
  then obtain i where i: "k_accept k ssl = int i" "0 < i" "i < FD_SETSIZE" by (cases "k_accept k ssl") auto
  have un: "int i \<notin> live s" using assms(2) i(1) by simp
  let ?s1 = "(emit [EvOpenFd (int i)] s)\<lparr>fds_active := insert i (fds_active s), io := (io s)(i := NoIo),
                   descr_map := (descr_map s)(i := zero_descr (int i))\<rparr>"
  let ?s2 = "upd_descr i (\<lambda>d. d\<lparr>d_queue := fresh_queue, d_env := True, d_ssl := ssl,
      d_flags := (if ssl then d_flags d else DF_ACCEPTED)\<rparr>) (?s1\<lparr>io := (io ?s1)(i := RawIo)\<rparr>)"
  let ?fail = "emit [EvCloseFd (int i)] (upd_descr i (\<lambda>d. d\<lparr>d_queue := empty_queue\<lparr>remaining_size := BUFSIZ * 1024\<rparr>\<rparr>)
    (?s1\<lparr>fds_active := fds_active ?s1 - {i}\<rparr>))"
  have fail: "server_ok ?fail" by (rule server_ok_keep [OF assms(1)]) (use un in \<open>auto simp: end_ok_def\<close>)
  have s2: "server_ok ?s2" by (rule server_ok_keep [OF assms(1)]) (use un in \<open>auto simp: end_ok_def\<close>)
  obtain r s3 where r: "(if ssl then ssl_accept k i ?s2 else (0, ?s2)) = (r, s3)" by fastforce
  then have s3: "server_ok s3" using s2 ssl_accept_ok [OF s2, of k i] by (auto split: if_splits)
  have "descr_new k ssl s = (if \<not> k_malloc k then ?fail
      else if r \<noteq> 0 then s3 else if h_accept k then emit [EvAccept i] s3 else s3)"
    using i by (simp only: descr_new_def Let_def nat_int r prod.case) simp
  then show ?thesis using fail s3 by (simp add: server_ok_emit)
next
  case False
  then have "descr_new k ssl s = s \<or> descr_new k ssl s = emit [EvOpenFd (k_accept k ssl), EvCloseFd (k_accept k ssl)] s"
    by (auto simp: descr_new_def Let_def)
  moreover have "server_ok (emit [EvOpenFd (k_accept k ssl), EvCloseFd (k_accept k ssl)] s)"
    by (rule server_ok_emit [OF assms(1)]) (use assms(2) in auto)
  ultimately show ?thesis using assms(1) by metis
qed

lemma pairs_ok_join:
  assumes "pairs_ok s" "tunnel_pair s a = - 1" "tunnel_pair s b = - 1" "a \<noteq> b"
    "tunnel_pair s' = (tunnel_pair s)(a := int b, b := int a)" "end_ok s' a" "end_ok s' b"
    "\<And>i. i \<noteq> a \<Longrightarrow> i \<noteq> b \<Longrightarrow> end_ok s i \<Longrightarrow> end_ok s' i"
  shows "pairs_ok s'"
  unfolding pairs_ok_def
proof (intro allI impI)
  fix i assume i: "tunnel_pair s' i \<noteq> - 1"
  show "end_ok s' i \<and> (\<exists>j. tunnel_pair s' i = int j \<and> j \<noteq> i \<and> tunnel_pair s' j = int i)"
  proof (cases "i = a \<or> i = b")
    case True
    then show ?thesis using assms(4-7) by auto
  next
    case False
    then have "tunnel_pair s i \<noteq> - 1" using i assms(5) by simp
    then obtain j where j: "tunnel_pair s i = int j" "j \<noteq> i" "tunnel_pair s j = int i" "end_ok s i"
      using pairs_okD [OF assms(1)] by metis
    then have "j \<noteq> a" "j \<noteq> b" using assms(2,3) by auto
    then show ?thesis using j False assms(5,8) by auto
  qed
qed

lemma proxy_start_ok:
  assumes "server_ok s" "upstream \<notin> live s" "0 \<le> upstream" "fd < FD_SETSIZE" "tunnel_pair s fd = - 1"
    "d_fd (descr_map s fd) = int fd" "int fd \<in> live s" "k_malloc k"
  shows "server_ok (ws_proxy_start k fd argv0 argv1 key upstream (emit [EvOpenFd upstream] s))"
proof -
  obtain u where u: "upstream = int u" using assms(3) by (cases upstream) auto
  have s0: "server_ok (emit [EvOpenFd upstream] s)" by (rule server_ok_emit [OF assms(1)]) auto
  have un: "tunnel_pair s u = - 1"
    by (rule fresh_unpaired [OF server_okD(1) [OF assms(1)]]) (use assms(2) u in simp)
  have ne: "u \<noteq> fd" using assms(2,7) u by auto
  have none: "server_ok (emit [EvCloseFd upstream] (emit [EvOpenFd upstream] s))"
    by (rule server_ok_emit [OF s0]) (use assms(1,2) un u in \<open>auto simp: server_ok_def active_ok_def\<close>)
  show ?thesis
  proof (cases "key = None \<or> int FD_SETSIZE \<le> upstream
      \<or> 2048 \<le> length (upgrade_request argv0 argv1 (snprintf_trunc 128 (the key)))")
    case True
    then show ?thesis using none s0 by (cases key) (auto simp: ws_proxy_start_def)
  next
    case False
    then obtain v where v: "key = Some v" "int u < int FD_SETSIZE"
      "\<not> 2048 \<le> length (upgrade_request argv0 argv1 (snprintf_trunc 128 v))" using u by auto
    define s3 where "s3 = upd_descr u (add_flags (DF_WS_WAITING OR DF_WS_PROXY_PENDING))
      (upd_descr fd (add_flags DF_WS_PROXY_PENDING) ((axil_upstream_descr_init k u (emit [EvOpenFd upstream] s))
        \<lparr>tunnel_pair := (tunnel_pair s)(fd := upstream, u := int fd)\<rparr>))"
    have pairs: "pairs_ok s3"
      by (rule pairs_ok_join [OF server_okD(1) [OF assms(1)] assms(5) un, where s' = s3])
        (use assms v ne u in \<open>auto simp: s3_def axil_upstream_descr_init_def Let_def end_ok_def TEARDOWN_def has_split\<close>,
          simp_all add: has_def df_defs)
    have "active_ok (s3\<lparr>fds_active := insert u (fds_active s3)\<rparr>)"
      by (rule active_mono [OF server_okD(2) [OF assms(1)]])
        (use assms(8) u in \<open>auto simp: s3_def axil_upstream_descr_init_def Let_def\<close>)
    with pairs have "server_ok (s3\<lparr>fds_active := insert u (fds_active s3)\<rparr>)" by (simp add: server_ok_def)
    then have "server_ok (emit (concat (map (sent_events u) sent)) (s3\<lparr>fds_active := insert u (fds_active s3)\<rparr>))" for sent
      by (intro server_ok_emit) auto
    then show ?thesis
      using v u assms(8) by (auto simp: ws_proxy_start_def Let_def lower_send_def s3_def axil_upstream_descr_init_def
        intro!: server_ok_tunnel_close split: prod.split)
  qed
qed

lemma ws_tunnel_ok:
  assumes "server_ok s" "tunnel_pair s a = int b"
  shows "server_ok (axil_ws_tunnel a b s)"
proof (rule server_ok_keep [OF assms(1)])
  note p = pair_sym [OF server_okD(1) [OF assms(1)] assms(2)]
  show "tunnel_pair (axil_ws_tunnel a b s) = tunnel_pair s"
    using p assms(2) by (auto simp: axil_ws_tunnel_def Let_def fun_eq_iff)
  have "has DF_TUNNEL TEARDOWN" by (simp add: has_def TEARDOWN_def df_defs)
  then show "end_ok (axil_ws_tunnel a b s) i" if "end_ok s i" for i
    using that p by (auto simp: axil_ws_tunnel_def Let_def end_ok_def)
qed (use pair_sym(3,4) [OF server_okD(1) [OF assms(1)] assms(2)] in \<open>auto simp: axil_ws_tunnel_def Let_def end_ok_def\<close>)

lemma server_write_survives:
  assumes "pairs_ok s" "i < FD_SETSIZE" "server_write k i txt s = Done (r, s')"
  shows "tunnel_pair s' = tunnel_pair s \<or> d_fd (descr_map s' i) = - 1"
proof -
  have q: "tunnel_pair s' = tunnel_pair s \<or> d_fd (descr_map s' i) = - 1"
    if "queue_result k i res s = (r, s')" for res
  proof -
    obtain r' q sent cl where res: "res = (r', q, sent, cl)" by (cases res)
    let ?s1 = "emit (sent_events i sent) (upd_descr i (\<lambda>d. d\<lparr>d_queue := q\<rparr>) s)"
    have "pairs_ok ?s1" by (intro pairs_emit pairs_upd assms) auto
    then show ?thesis
      using that close_effect(1) [of ?s1 i k i] assms(2)
      by (auto simp: res queue_result_def Let_def closed_with_def split: if_splits)
  qed
  show ?thesis
  proof (cases "io s i")
    case RawIo
    then show ?thesis using assms(3) q
      by (cases "raw_write k i txt s") (auto simp: server_write_def)
  qed (use assms(3) in \<open>auto simp: server_write_def split: prod.splits\<close>)
qed

lemma upgrade_ok:
  assumes "server_ok s"
  shows "server_ok (snd (axil_ws_upgrade sha1 k i key s))"
  using assms by (auto simp: axil_ws_upgrade_def Let_def intro!: server_ok_upd server_ok_emit split: prod.split option.split)

lemma set_flags_ok: "server_ok s \<Longrightarrow> tunnel_pair s i = - 1 \<Longrightarrow> server_ok (axil_set_flags i fl s)"
  by (rule server_ok_keep) (auto simp: axil_set_flags_def end_ok_def)

lemma fd_watch_ok: "server_ok s \<Longrightarrow> int i \<in> live s \<Longrightarrow> server_ok (axil_fd_watch i s)"
  by (rule server_ok_keep) (auto simp: axil_fd_watch_def end_ok_def)

lemma fewer_active_ok:
  "server_ok s \<Longrightarrow> server_ok (axil_fd_unwatch i s)" "server_ok s \<Longrightarrow> server_ok (axil_clear_active i s)"
  by (rule server_ok_keep; auto simp: axil_fd_unwatch_def axil_clear_active_def end_ok_def)+

lemma descr_read_ok:
  assumes "server_ok s" "i < FD_SETSIZE" "\<And>j acts t. server_ok t \<Longrightarrow> server_ok (cb j acts t)"
    "descr_read k cb i s = Done (r, s')"
  shows "server_ok s'"
proof (cases "d_fd (descr_map s i) \<noteq> int i \<or> \<not> has (d_flags (descr_map s i)) DF_ACCEPTED \<or> io s i = NoIo")
  case True
  with assms(1,4) show ?thesis by (auto simp: descr_read_def Let_def split: if_splits)
next
  case False
  obtain ret err inp sz c where rd: "axil_read recv_from (k_alloc k) (length (input s)) (k_recv k i) = (ret, err, inp, sz, c)"
    by (metis prod_cases5)
  let ?b = "store_input inp sz (input s)"
  show ?thesis
  proof (cases "ret = - 1 \<or> ret = 0 \<or> h_parse k i inp < 0")
    case True
    with False rd assms(1,4) show ?thesis by (auto simp: descr_read_def Let_def split: if_splits)
  next
    case go: False
    with False rd assms(4) obtain r' buf acts where
      "cmd_parse (h_cmds k) (h_command k) (h_vim k) (h_flush k) (d_flags (descr_map s i)) ?b (length inp) = Done (r', buf, acts)"
      "s' = (if acts = [CmdClose] then axil_close k (int i) (s\<lparr>input := buf\<rparr>) else cb i acts (s\<lparr>input := buf\<rparr>))"
      by (cases "cmd_parse (h_cmds k) (h_command k) (h_vim k) (h_flush k) (d_flags (descr_map s i)) ?b (length inp)")
        (auto simp: descr_read_def Let_def split: if_splits)
    then show ?thesis using assms(1,3) by (auto intro!: server_ok_close)
  qed
qed

text \<open>The one thing to ask of the kernel when a waiting upstream answers: forwarding the answer does
  not end in closing the client.\<close>

definition client_survives :: "kernel \<Rightarrow> nat \<Rightarrow> server \<Rightarrow> bool" where
  "client_survives k i s \<longleftrightarrow> (\<forall>buf r s'. server_write k (nat (tunnel_pair s i)) buf s = Done (r, s')
     \<longrightarrow> d_fd (descr_map s' (nat (tunnel_pair s i))) \<noteq> - 1)"

lemma relay_read_peer:
  assumes "relay_read k i P s = Some (buf, peer)" "pairs_ok s"
  shows "tunnel_pair s i = int peer" "tunnel_pair s peer = int i" "peer < FD_SETSIZE"
proof -
  have "tunnel_pair s i \<noteq> - 1" "peer = nat (tunnel_pair s i)"
    using assms(1) by (auto simp: relay_read_def Let_def split: kread.splits if_splits)
  then show "tunnel_pair s i = int peer" using pair_ge [OF assms(2), of i] by simp
  from pair_sym [OF assms(2) this] show "tunnel_pair s peer = int i" "peer < FD_SETSIZE" by auto
qed

lemma ws_waiting_ok:
  assumes "server_ok s" "client_survives k i s" "ws_waiting_read k i s = Done s'"
  shows "server_ok s'"
proof (cases "relay_read k i (\<lambda>p. tunnel_pair s (nat p) = int i \<and> has (d_flags (descr_map s (nat p))) DF_WS_PROXY_PENDING) s")
  case None
  with assms show ?thesis by (auto simp: ws_waiting_read_def intro!: server_ok_tunnel_close split: if_splits)
next
  case (Some bp)
  then obtain buf peer where bp: "relay_read k i (\<lambda>p. tunnel_pair s (nat p) = int i
      \<and> has (d_flags (descr_map s (nat p))) DF_WS_PROXY_PENDING) s = Some (buf, peer)" by (cases bp) auto
  note p = relay_read_peer [OF bp server_okD(1) [OF assms(1)]]
  obtain r s1 where w: "server_write k peer buf s = Done (r, s1)"
    "s' = (if prefix ''HTTP/1.1 101'' buf then axil_ws_tunnel peer i s1 else axil_tunnel_close_raw (int i) s1)"
    using assms(3) bp by (cases "server_write k peer buf s") (auto simp: ws_waiting_read_def split: if_splits)
  have s1: "server_ok s1" by (rule server_write_ok [OF assms(1) w(1)])
  have "d_fd (descr_map s1 peer) \<noteq> - 1" using assms(2) w(1) p(1) by (auto simp: client_survives_def)
  then have "tunnel_pair s1 peer = int i" using server_write_survives [OF server_okD(1) [OF assms(1)] p(3) w(1)] p(2) by auto
  then show ?thesis using s1 w(2) by (auto intro!: server_ok_tunnel_close ws_tunnel_ok)
qed

lemma tunnel_read_ok:
  assumes "server_ok s" "tunnel_read k i s = Done s'"
  shows "server_ok s'"
proof (cases "relay_read k i (\<lambda>p. True) s")
  case None
  with assms show ?thesis by (auto simp: tunnel_read_def intro!: server_ok_tunnel_close split: if_splits)
next
  case (Some bp)
  obtain buf peer where "bp = (buf, peer)" by (cases bp)
  with Some assms show ?thesis
    by (cases "server_write k peer buf s") (auto simp: tunnel_read_def split: if_splits intro: server_write_ok)
qed

lemma proc_read_ok:
  assumes "server_ok s" "i < FD_SETSIZE" "\<And>j acts t. server_ok t \<Longrightarrow> server_ok (cb j acts t)"
    "int i = srv_fd s \<Longrightarrow> k_accept k False \<notin> live s" "int i = srv_ssl_fd s \<Longrightarrow> k_accept k True \<notin> live s"
    "has (d_flags (descr_map s i)) DF_WS_WAITING \<Longrightarrow> client_survives k i s"
    "proc_read_fd k cb i s = Done s'"
  shows "server_ok s'"
proof -
  have "server_ok s1 \<and> server_ok (axil_close k (int i) s1)" if "descr_read k cb i s = Done (r, s1)" for r s1
    using descr_read_ok [OF assms(1,2,3) that] by (simp add: server_ok_close)
  then show ?thesis
    using assms(7) descr_new_ok [OF assms(1) assms(4)] descr_new_ok [OF assms(1) assms(5)]
      ws_waiting_ok [OF assms(1) assms(6)] tunnel_read_ok [OF assms(1)] assms(1)
    by (cases "descr_read k cb i s") (auto simp: proc_read_fd_def Let_def intro!: server_ok_emit split: if_splits)
qed

lemma proc_write_ok:
  assumes "server_ok s" "proc_write_fd k i s = Done s'"
  shows "server_ok s'"
proof -
  define s1 where "s1 = (if \<not> has (d_flags (descr_map s i)) DF_ACCEPTED \<and> d_ssl (descr_map s i) then snd (ssl_accept k i s) else s)"
  have s1: "server_ok s1" using assms(1) ssl_accept_ok by (auto simp: s1_def)
  then show ?thesis
    using assms(2) server_flush_ok [OF s1]
    by (cases "server_flush k i s1") (auto simp: proc_write_fd_def Let_def s1_def [symmetric] intro!: server_ok_emit split: if_splits)
qed


section \<open>Steps of the server\<close>

text \<open>
  One step: an operation a pass, a hook or a handler calls.  The guards are what the kernel
  promises (a descriptor it gives out is not open) and the conditions under which the code keeps
  its pairs sound: an upstream is connected for a client that is in no pair yet, its buffer can
  be allocated, forwarding an upstream's answer does not close the client, and
  \<open>axil_set_flags\<close> is not used on an end of a pair.  What command callbacks do are steps of their
  own.
\<close>

inductive server_step :: "server \<Rightarrow> server \<Rightarrow> bool" where
  reading: "i < FD_SETSIZE \<Longrightarrow> (int i = srv_fd s \<Longrightarrow> k_accept k False \<notin> live s)
    \<Longrightarrow> (int i = srv_ssl_fd s \<Longrightarrow> k_accept k True \<notin> live s)
    \<Longrightarrow> (has (d_flags (descr_map s i)) DF_WS_WAITING \<Longrightarrow> client_survives k i s)
    \<Longrightarrow> proc_read_fd k (\<lambda>j acts t. t) i s = Done s' \<Longrightarrow> server_step s s'"
| write_pass: "proc_write_fd k i s = Done s' \<Longrightarrow> server_step s s'"
| writing: "server_write k i txt s = Done (r, s') \<Longrightarrow> server_step s s'"
| flush: "server_flush k i s = Done (r, s') \<Longrightarrow> server_step s s'"
| closing: "- 1 \<le> fd \<Longrightarrow> server_step s (axil_close k fd s)"
| proxy: "upstream \<notin> live s \<Longrightarrow> 0 \<le> upstream \<Longrightarrow> fd < FD_SETSIZE \<Longrightarrow> tunnel_pair s fd = - 1
    \<Longrightarrow> d_fd (descr_map s fd) = int fd \<Longrightarrow> int fd \<in> live s \<Longrightarrow> k_malloc k
    \<Longrightarrow> server_step s (ws_proxy_start k fd argv0 argv1 key upstream (emit [EvOpenFd upstream] s))"
| upgrade: "server_step s (snd (axil_ws_upgrade sha1 k i key s))"
| set_flags: "tunnel_pair s i = - 1 \<Longrightarrow> server_step s (axil_set_flags i fl s)"
| watch: "int i \<in> live s \<Longrightarrow> server_step s (axil_fd_watch i s)"
| unwatch: "server_step s (axil_fd_unwatch i s)"
| clear: "server_step s (axil_clear_active i s)"
| opened: "fd \<notin> live s \<Longrightarrow> server_step s (emit [EvOpenFd fd] s)"
| shutting: "\<forall>i. fd = int i \<longrightarrow> i \<notin> fds_active s \<and> tunnel_pair s i = - 1 \<Longrightarrow> server_step s (emit [EvCloseFd fd] s)"
| begin_pass: "server_step s (s\<lparr>fds_read := rd, fds_write := wr\<rparr>)"

definition booted :: "server \<Rightarrow> bool" where
  "booted s \<longleftrightarrow> (\<exists>ssl a b. 0 \<le> a \<and> 0 \<le> b \<and> a \<noteq> b \<and> s = axil_init ssl a b axil_pre_init)"

lemma axil_bind_ok:
  assumes "server_ok s" "0 \<le> sock" "sock \<notin> live s"
  shows "server_ok (axil_bind ssl sock s)" "live (axil_bind ssl sock s) = insert sock (live s)"
proof -
  obtain i where i: "sock = int i" using assms(2) by (cases sock) auto
  have l: "live (t\<lparr>srv_fd := fd\<rparr>) = live t" "live (t\<lparr>srv_ssl_fd := fd\<rparr>) = live t" for t fd
    by (simp_all add: live_def)
  show "server_ok (axil_bind ssl sock s)"
    by (rule server_ok_keep [OF assms(1)]) (use assms(3) in \<open>auto simp: i l axil_bind_def Let_def end_ok_def split: if_splits\<close>)
  show "live (axil_bind ssl sock s) = insert sock (live s)" by (simp add: l axil_bind_def Let_def)
qed

lemma booted_ok:
  assumes "booted s"
  shows "server_ok s"
proof -
  obtain ssl a b where s: "s = axil_init ssl a b axil_pre_init" "0 \<le> a" "0 \<le> b" "a \<noteq> b"
    using assms by (auto simp: booted_def)
  let ?s1 = "axil_pre_init\<lparr>input := replicate FIRST_INPUT_SIZE NUL\<rparr>"
  have s1: "server_ok ?s1" "live ?s1 = {}"
    by (simp_all add: axil_pre_init_def server_ok_def pairs_ok_def active_ok_def live_def)
  then show ?thesis
    using s axil_bind_ok [OF s1(1) s(2), of True] by (auto simp: axil_init_def Let_def intro!: axil_bind_ok)
qed

lemma server_step_ok: "server_step s s' \<Longrightarrow> server_ok s \<Longrightarrow> server_ok s'"
proof (induction rule: server_step.induct)
  case (reading i s k s')
  show ?case by (rule proc_read_ok [OF reading.prems reading.hyps(1) _ reading.hyps(2,3,4,5)])
next
  case (begin_pass s rd wr)
  then show ?case by (simp add: server_ok_def pairs_ok_def active_ok_def end_ok_def)
next
  case (shutting fd s)
  then show ?case by (intro server_ok_emit) auto
qed (auto intro: proc_write_ok server_write_ok server_flush_ok server_ok_close proxy_start_ok upgrade_ok set_flags_ok
  fd_watch_ok fewer_active_ok server_ok_emit)

interpretation server: transition_system booted server_step server_ok
  by unfold_locales (auto intro: booted_ok server_step_ok)

text \<open>What the invariant says of a slot.\<close>

lemma server_ok_table:
  assumes "server_ok s"
  shows "(tunnel_pair s a \<noteq> - 1 \<longrightarrow> (\<exists>b. tunnel_pair s a = int b \<and> b \<noteq> a \<and> tunnel_pair s b = int a
      \<and> has (d_flags (descr_map s a)) TEARDOWN \<and> has (d_flags (descr_map s b)) TEARDOWN))
    \<and> (i \<in> fds_active s \<longrightarrow> d_fd (descr_map s i) = int i \<and> int i \<in> live s)"
proof -
  have "\<exists>b. tunnel_pair s a = int b \<and> b \<noteq> a \<and> tunnel_pair s b = int a
      \<and> has (d_flags (descr_map s a)) TEARDOWN \<and> has (d_flags (descr_map s b)) TEARDOWN" if "tunnel_pair s a \<noteq> - 1"
    using pairs_okD [OF server_okD(1) [OF assms] that] by (metis end_ok_def)
  then show ?thesis using assms by (auto simp: server_ok_def active_ok_def)
qed

section \<open>A run for the witnesses\<close>

text \<open>A server on descriptor 3 accepts a client on 5 and connects upstream 6 for it.\<close>

definition demo_kernel :: kernel where
  "demo_kernel = \<lparr>k_accept = (\<lambda>ssl. 5), k_malloc = True, k_ssl = (\<lambda>i. SslDone),
     k_recv = (\<lambda>i. if i = 6 then [Got (''HTTP/1.1 101 ok'')] else []), k_write = (\<lambda>i. Wrote (if i = 6 then 200 else 15)),
     k_alloc = (\<lambda>n. True), h_disconnect = False, h_accept = False, h_tick = False, h_cleanup = True,
     h_exec_loop = False, h_update = False, h_parse = (\<lambda>i b. 0), h_connect = (\<lambda>i. True), h_cmds = (\<lambda>c. None),
     h_command = False, h_vim = False, h_flush = False\<rparr>"

definition demo_boot :: server where
  "demo_boot = axil_init False 0 3 axil_pre_init"

definition demo_client :: server where
  "demo_client = descr_new demo_kernel False (demo_boot\<lparr>fds_read := {3}, fds_write := {}\<rparr>)"

definition demo_pair :: server where
  "demo_pair = ws_proxy_start demo_kernel 5 ''GET'' ''/ws'' (Some ''k'') 6 (emit [EvOpenFd 6] demo_client)"

lemma demo_booted: "booted demo_boot"
  unfolding booted_def demo_boot_def by (intro exI [of _ False] exI [of _ 0] exI [of _ 3]) simp

lemma FD_SETSIZE_gt [simp]: "5 < FD_SETSIZE" "6 < FD_SETSIZE"
  by (simp_all add: FD_SETSIZE_def)

lemma demo_client_state:
  "descr_map demo_client 5 = (zero_descr 5)\<lparr>d_queue := fresh_queue, d_env := True, d_flags := DF_ACCEPTED\<rparr>"
  "tunnel_pair demo_client = (\<lambda>_. - 1)" "live demo_client = {3, 5}" "io demo_client 5 = RawIo"
  "fds_active demo_client = {3, 5}"
  by (simp_all add: demo_client_def demo_boot_def descr_new_def demo_kernel_def Let_def axil_init_def axil_bind_def
    axil_pre_init_def zero_descr_def FD_SETSIZE_def emit_def upd_descr_def live_def insert_commute)

lemma demo_boot_state:
  "live demo_boot = {3}" "srv_fd demo_boot = 3" "srv_ssl_fd demo_boot = - 1" "\<not> has (d_flags (descr_map demo_boot 3)) f"
  by (simp_all add: demo_boot_def axil_init_def axil_bind_def axil_pre_init_def emit_def upd_descr_def live_def Let_def)

lemma demo_steps: "server_step\<^sup>*\<^sup>* demo_boot demo_client" "server_step\<^sup>*\<^sup>* demo_boot demo_pair"
proof -
  let ?s1 = "demo_boot\<lparr>fds_read := {3}, fds_write := {}\<rparr>"
  have l: "live ?s1 = {3}" using demo_boot_state(1) by (simp add: live_def)
  have "server_step demo_boot ?s1" by (rule begin_pass)
  moreover have "server_step ?s1 demo_client"
  proof (rule reading [where i = 3 and k = demo_kernel])
    show "proc_read_fd demo_kernel (\<lambda>j acts t. t) 3 ?s1 = Done demo_client"
      by (simp add: proc_read_fd_def demo_boot_state demo_client_def)
    show "k_accept demo_kernel False \<notin> live ?s1" by (simp only: l) (simp add: demo_kernel_def)
  qed (simp_all add: demo_boot_state FD_SETSIZE_def)
  ultimately show client: "server_step\<^sup>*\<^sup>* demo_boot demo_client"
    by (auto intro: rtranclp.rtrancl_into_rtrancl)
  have "server_step demo_client demo_pair"
    unfolding demo_pair_def
    by (rule proxy) (simp_all add: demo_client_state, simp add: demo_kernel_def)
  with client show "server_step\<^sup>*\<^sup>* demo_boot demo_pair" by (rule rtranclp.rtrancl_into_rtrancl)
qed

lemma length_demo_request: "length (upgrade_request ''GET'' ''/ws'' ''k'') = 132"
  by (simp add: upgrade_request_def)

lemma demo_pair_state:
  "tunnel_pair demo_pair = (\<lambda>_. - 1)(5 := 6, 6 := 5)" "live demo_pair = {3, 5, 6}" "io demo_pair 6 = RawIo"
  "io demo_pair 5 = RawIo" "d_fd (descr_map demo_pair 5) = 5" "d_queue (descr_map demo_pair 5) = fresh_queue"
  "d_flags (descr_map demo_pair 5) = DF_ACCEPTED OR DF_WS_PROXY_PENDING"
  "d_flags (descr_map demo_pair 6) = DF_ACCEPTED OR (DF_WS_WAITING OR DF_WS_PROXY_PENDING)"
  "d_fd (descr_map demo_pair 6) = 6"
  by (simp_all add: demo_pair_def ws_proxy_start_def Let_def length_demo_request snprintf_trunc_def lower_send_def
    demo_client_state axil_upstream_descr_init_def answer_of_def k_answer_def)
    (simp_all add: demo_kernel_def demo_client_state FD_SETSIZE_def insert_commute)

section \<open>Properties\<close>

text \<open>In every state the server reaches, pairs are symmetric between two different descriptors, and
  both ends carry a flag that makes \<open>axil_close\<close> tear the pair down; every descriptor handed to
  \<open>select\<close> is open and has its own slot in the table.\<close>

theorem reachable_table_sound:
  assumes "booted s0" "server_step\<^sup>*\<^sup>* s0 s"
  shows "(tunnel_pair s a \<noteq> - 1 \<longrightarrow> (\<exists>b. tunnel_pair s a = int b \<and> b \<noteq> a \<and> tunnel_pair s b = int a
      \<and> has (d_flags (descr_map s a)) TEARDOWN \<and> has (d_flags (descr_map s b)) TEARDOWN))
    \<and> (i \<in> fds_active s \<longrightarrow> d_fd (descr_map s i) = int i \<and> int i \<in> live s)"
  using server.reachable_inv [OF assms] by (rule server_ok_table)

theorem reachable_table_sound_witness:
  "\<exists>b. tunnel_pair demo_pair 5 = int b \<and> b \<noteq> 5 \<and> tunnel_pair demo_pair b = int 5
    \<and> has (d_flags (descr_map demo_pair 5)) TEARDOWN \<and> has (d_flags (descr_map demo_pair b)) TEARDOWN"
  using reachable_table_sound [OF demo_booted demo_steps(2), of 5 5] by (simp add: demo_pair_state)

text \<open>C2. Closing a descriptor of a state the server reaches closes it and the other end of its pair, if
  it has one: both slots are blank, both pair entries are gone, both descriptors are given back to
  the kernel and no longer waited on; every other slot, entry and descriptor is untouched.\<close>

theorem close_tears_down_pair:
  fixes k :: kernel
  assumes "booted s0" "server_step\<^sup>*\<^sup>* s0 s" "i < FD_SETSIZE"
  defines "C \<equiv> {i} \<union> {j. tunnel_pair s i = int j}" and "s' \<equiv> axil_close k (int i) s"
  shows "descr_map s' = (\<lambda>j. if j \<in> C then zero_descr (- 1) else descr_map s j)
    \<and> tunnel_pair s' = (\<lambda>j. if j \<in> C then - 1 else tunnel_pair s j)
    \<and> live s' = live s - int ` C \<and> fds_active s' = fds_active s - C"
proof -
  have C: "C = closed_with s i" by (auto simp: C_def closed_with_def)
  have "pairs_ok s" by (rule server_okD(1) [OF server.reachable_inv [OF assms(1,2)]])
  from close_effect [OF this assms(3)] show ?thesis by (auto simp: s'_def C fun_eq_iff)
qed

theorem close_tears_down_pair_witness:
  "d_fd (descr_map (axil_close demo_kernel 5 demo_pair) 6) = - 1 \<and> live (axil_close demo_kernel 5 demo_pair) = {3}"
proof -
  have "{5} \<union> {j. tunnel_pair demo_pair 5 = int j} = {5, 6}" by (auto simp: demo_pair_state)
  then show ?thesis
    using close_tears_down_pair [OF demo_booted demo_steps(2), of 5 demo_kernel] by (auto simp: demo_pair_state)
qed

text \<open>C8. When a waiting upstream answers and forwarding the answer does not close the client, the pair
  becomes a tunnel exactly if the answer begins with the 101 status line: both ends then carry the
  tunnel flag and no pending one and stay paired; otherwise both are closed.\<close>

theorem upstream_answer_decides:
  assumes "server_ok s" "tunnel_pair s i = int c" "fst (recv_from (k_recv k i) 4096) = Got buf" "buf \<noteq> []"
    "has (d_flags (descr_map s c)) DF_WS_PROXY_PENDING" "io s i \<noteq> NoIo" "client_survives k i s"
    "ws_waiting_read k i s = Done s'"
  shows "if prefix ''HTTP/1.1 101'' buf
    then tunnel_pair s' i = int c \<and> tunnel_pair s' c = int i
      \<and> (\<forall>j \<in> {i, c}. has (d_flags (descr_map s' j)) DF_TUNNEL
        \<and> \<not> has (d_flags (descr_map s' j)) (DF_WS_WAITING OR DF_WS_PROXY_PENDING))
    else descr_map s' i = zero_descr (- 1) \<and> descr_map s' c = zero_descr (- 1) \<and> live s' \<inter> {int i, int c} = {}"
proof -
  note p = pair_sym [OF server_okD(1) [OF assms(1)] assms(2)]
  have bounds: "i < FD_SETSIZE" "c < FD_SETSIZE" "d_fd (descr_map s c) = int c" using p by (auto simp: end_ok_def)
  have "relay_read k i (\<lambda>p. tunnel_pair s (nat p) = int i \<and> has (d_flags (descr_map s (nat p))) DF_WS_PROXY_PENDING) s
      = Some (buf, c)"
    using assms(2-5) p(1,2) bounds by (simp add: relay_read_def Let_def)
  then obtain r s1 where w: "server_write k c buf s = Done (r, s1)"
    "s' = (if prefix ''HTTP/1.1 101'' buf then axil_ws_tunnel c i s1 else axil_tunnel_close_raw (int i) s1)"
    using assms(6,8) by (cases "server_write k c buf s") (auto simp: ws_waiting_read_def)
  have s1: "pairs_ok s1" by (rule server_okD(1) [OF server_write_ok [OF assms(1) w(1)]])
  have "d_fd (descr_map s1 c) \<noteq> - 1" using assms(2,7) w(1) by (auto simp: client_survives_def)
  then have tp: "tunnel_pair s1 i = int c" using server_write_survives [OF server_okD(1) [OF assms(1)] bounds(2) w(1)] assms(2) by auto
  show ?thesis
  proof (cases "prefix ''HTTP/1.1 101'' buf")
    case True
    have "\<not> has (fl AND NOT g OR DF_TUNNEL) g" if "g = DF_WS_WAITING OR DF_WS_PROXY_PENDING" for fl g
      using that by (simp add: has_def bit.conj_disj_distrib2 and.assoc df_defs)
    moreover have "has DF_TUNNEL DF_TUNNEL" by (simp add: has_def df_defs)
    ultimately show ?thesis
      using True w(2) p(2) by (auto simp: axil_ws_tunnel_def Let_def)
  next
    case False
    note e = tunnel_close_effect [OF bounds(1) pair_sym(5) [OF s1] pair_ge [OF s1]]
    show ?thesis using False w(2) e tp by (auto simp: closed_with_def)
  qed
qed

lemma low_write_idle:
  assumes "remaining_len q = 0" "axil_low_write alloc tc ans dat q = Done (r, q', sent, cl)"
  shows "\<not> cl"
proof -
  have "bind_run (axil_rem_may_inc alloc n q) (\<lambda>q1. bind_run (memcpy_at 0 l q1) (\<lambda>q2. Done (x, h q2, y, False)))
      = Done (r, q', sent, cl) \<Longrightarrow> \<not> cl" for n l x h y
    by (cases "axil_rem_may_inc alloc n q") (auto simp: memcpy_at_def split: if_splits)
  then show ?thesis using assms by (auto simp: axil_low_write_def Let_def split: kwrite.splits if_splits)
qed

lemma client_survives_idle:
  assumes "tunnel_pair s i = int c" "io s c = RawIo" "remaining_len (d_queue (descr_map s c)) = 0" "d_fd (descr_map s c) = int c"
  shows "client_survives k i s"
  unfolding client_survives_def
proof (intro allI impI)
  fix buf r s' assume w: "server_write k (nat (tunnel_pair s i)) buf s = Done (r, s')"
  then obtain r' q sent cl where res: "raw_write k c buf s = Done (r', q, sent, cl)" "queue_result k c (r', q, sent, cl) s = (r, s')"
    using assms(1,2) by (cases "raw_write k c buf s") (auto simp: server_write_def)
  have "\<not> cl" by (rule low_write_idle [OF assms(3) res(1) [unfolded raw_write_def Let_def]])
  then show "d_fd (descr_map s' (nat (tunnel_pair s i))) \<noteq> - 1"
    using res(2) assms(1,4) by (auto simp: queue_result_def Let_def)
qed

lemma demo_ok: "server_ok demo_pair"
  by (rule server.reachable_inv [OF demo_booted demo_steps(2)])

lemma demo_survives: "client_survives demo_kernel 6 demo_pair"
  by (rule client_survives_idle [where c = 5]) (simp_all add: demo_pair_state fresh_queue_def)

lemma demo_kernel_sel:
  "k_recv demo_kernel 6 = [Got ''HTTP/1.1 101 ok'']" "k_write demo_kernel 5 = Wrote 15"
  by (simp_all add: demo_kernel_def)

lemma demo_answer: "k_answer demo_kernel 5 demo_pair = Wrote 15"
  by (simp add: k_answer_def demo_pair_state demo_kernel_sel)

lemma demo_forward: "\<exists>s'. ws_waiting_read demo_kernel 6 demo_pair = Done s'"
proof -
  have "has DF_WS_PROXY_PENDING DF_WS_PROXY_PENDING" by (simp add: has_def df_defs)
  then have "relay_read demo_kernel 6 (\<lambda>p. tunnel_pair demo_pair (nat p) = int 6
      \<and> has (d_flags (descr_map demo_pair (nat p))) DF_WS_PROXY_PENDING) demo_pair = Some (''HTTP/1.1 101 ok'', 5)"
    by (simp add: relay_read_def demo_kernel_sel recv_from_def demo_pair_state FD_SETSIZE_def)
  moreover have "\<exists>r s1. server_write demo_kernel 5 ''HTTP/1.1 101 ok'' demo_pair = Done (r, s1)"
    by (simp add: server_write_def raw_write_def demo_answer demo_pair_state axil_low_write_def fresh_queue_def split: prod.split)
  ultimately show ?thesis by (auto simp: ws_waiting_read_def demo_pair_state)
qed

theorem upstream_answer_decides_witness:
  "\<exists>s'. ws_waiting_read demo_kernel 6 demo_pair = Done s' \<and> tunnel_pair s' 6 = 5
     \<and> has (d_flags (descr_map s' 5)) DF_TUNNEL \<and> has (d_flags (descr_map s' 6)) DF_TUNNEL"
proof -
  obtain s' where s': "ws_waiting_read demo_kernel 6 demo_pair = Done s'" using demo_forward by blast
  have pend: "has DF_WS_PROXY_PENDING DF_WS_PROXY_PENDING" by (simp add: has_def df_defs)
  have "if prefix ''HTTP/1.1 101'' ''HTTP/1.1 101 ok''
    then tunnel_pair s' 6 = int 5 \<and> tunnel_pair s' 5 = int 6
      \<and> (\<forall>j \<in> {6, 5}. has (d_flags (descr_map s' j)) DF_TUNNEL
        \<and> \<not> has (d_flags (descr_map s' j)) (DF_WS_WAITING OR DF_WS_PROXY_PENDING))
    else descr_map s' 6 = zero_descr (- 1) \<and> descr_map s' 5 = zero_descr (- 1) \<and> live s' \<inter> {int 6, int 5} = {}"
    by (rule upstream_answer_decides [OF demo_ok _ _ _ _ _ demo_survives s'])
      (simp_all add: demo_pair_state demo_kernel_sel recv_from_def pend)
  then show ?thesis using s' by auto
qed

text \<open>C9. Bytes read from one end of a tunnel are forwarded in order: what the peer's socket takes now
  and what its queue then holds are the bytes it held followed by the bytes read; no other
  descriptor and no pair changes.  It holds unless the write closes the pair, and unless it fails
  with an error other than \<open>EAGAIN\<close> on an empty queue.\<close>

theorem tunnel_relays:
  assumes "server_ok s" "tunnel_pair s i = int p" "fst (recv_from (k_recv k i) 4096) = Got buf" "buf \<noteq> []"
    "io s p = RawIo" "wq_ok (d_queue (descr_map s p))"
    "\<not> (remaining_len (d_queue (descr_map s p)) = 0 \<and> (k_write k p = WErr EINTR \<or> k_write k p = WErr EOTHER))"
    "tunnel_read k i s = Done s'" "d_fd (descr_map s' p) \<noteq> - 1"
  shows "\<exists>sent. events s' = events s @ sent_events p sent
    \<and> sent @ pending (d_queue (descr_map s' p)) = pending (d_queue (descr_map s p)) @ buf
    \<and> (\<forall>j. j \<noteq> p \<longrightarrow> descr_map s' j = descr_map s j) \<and> tunnel_pair s' = tunnel_pair s"
proof -
  note pr = pair_sym [OF server_okD(1) [OF assms(1)] assms(2)]
  have "relay_read k i (\<lambda>p. True) s = Some (buf, p)"
    using assms(2-4) pr by (simp add: relay_read_def Let_def end_ok_def)
  then obtain r where w: "server_write k p buf s = Done (r, s')"
    using assms(8) by (cases "server_write k p buf s") (auto simp: tunnel_read_def split: if_splits)
  then obtain r' q sent cl where q: "raw_write k p buf s = Done (r', q, sent, cl)" "queue_result k p (r', q, sent, cl) s = (r, s')"
    using assms(5) by (cases "raw_write k p buf s") (auto simp: server_write_def)
  let ?s1 = "emit (sent_events p sent) (upd_descr p (\<lambda>d. d\<lparr>d_queue := q\<rparr>) s)"
  have "pairs_ok ?s1" by (intro pairs_emit pairs_upd server_okD(1) [OF assms(1)]) auto
  then have "d_fd (descr_map (axil_close k (int p) ?s1) p) = - 1"
    using close_effect(1) [of ?s1 p k p] pr(5) by (simp add: closed_with_def)
  then have s': "s' = ?s1" using q(2) assms(9) by (auto simp: queue_result_def Let_def split: if_splits)
  have "k_answer k p s = k_write k p" using pr(4) by (simp add: k_answer_def end_ok_def)
  then have "sent @ pending q = pending (d_queue (descr_map s p)) @ buf"
    using low_write_keeps [OF assms(6) q(1) [unfolded raw_write_def Let_def]] assms(7) by simp
  then show ?thesis using s' by (intro exI [of _ sent]) simp
qed

theorem tunnel_relays_witness:
  "\<exists>s' sent. tunnel_read demo_kernel 6 demo_pair = Done s' \<and> events s' = events demo_pair @ sent_events 5 sent
     \<and> sent @ pending (d_queue (descr_map s' 5)) = ''HTTP/1.1 101 ok''"
proof -
  have read: "fst (recv_from (k_recv demo_kernel 6) 4096) = Got ''HTTP/1.1 101 ok''"
    by (simp add: demo_kernel_sel recv_from_def)
  then have "relay_read demo_kernel 6 (\<lambda>p. True) demo_pair = Some (''HTTP/1.1 101 ok'', 5)"
    by (simp add: relay_read_def demo_pair_state FD_SETSIZE_def)
  moreover obtain r s' where w: "server_write demo_kernel 5 ''HTTP/1.1 101 ok'' demo_pair = Done (r, s')"
    by (simp add: server_write_def raw_write_def demo_answer demo_pair_state axil_low_write_def fresh_queue_def queue_result_def Let_def)
  ultimately have t: "tunnel_read demo_kernel 6 demo_pair = Done s'"
    by (simp add: tunnel_read_def demo_pair_state)
  have "d_fd (descr_map s' 5) \<noteq> - 1" using demo_survives w by (auto simp: client_survives_def demo_pair_state)
  from tunnel_relays [OF demo_ok _ read _ _ _ _ t this] obtain sent where
    "events s' = events demo_pair @ sent_events 5 sent" "sent @ pending (d_queue (descr_map s' 5)) = ''HTTP/1.1 101 ok''"
    by (auto simp: demo_pair_state demo_kernel_sel fresh_queue_def wq_ok_def takes_def pending_def BUFSIZ_def)
  with t show ?thesis by blast
qed

text \<open>What one proxy start that sends its request does to pairs and slots.\<close>

lemma proxy_start_effect:
  fixes k :: kernel and s :: server
  assumes "u < FD_SETSIZE" "u \<noteq> c" "k_malloc k" "length (upgrade_request a0 a1 (snprintf_trunc 128 v)) < 2048"
    "k_write k u = Wrote n" "length (upgrade_request a0 a1 (snprintf_trunc 128 v)) \<le> n" "int u \<in> live s"
  defines "s' \<equiv> ws_proxy_start k c a0 a1 (Some v) (int u) s"
  shows "tunnel_pair s' = (tunnel_pair s)(c := int u, u := int c)"
    and "j \<noteq> u \<Longrightarrow> d_fd (descr_map s' j) = d_fd (descr_map s j)" and "live s' = live s"
    and "d_fd (descr_map s' u) = int u"
  using assms(1-7) by (auto simp: s'_def ws_proxy_start_def Let_def lower_send_def answer_of_def axil_upstream_descr_init_def k_answer_def)

text \<open>C10. A client that asks for a second upgrade while its first is pending leaves the first upstream
  with a pair entry of its own.  When that upstream goes away it takes the client with it but not the
  second upstream, whose entry now names a closed descriptor; once the kernel reuses the number for
  a new connection, the end of the second upstream closes that connection.\<close>

theorem second_upgrade_closes_stranger:
  fixes k k' :: kernel
  assumes "server_ok s" "tunnel_pair s c = int u1" "int u2 \<notin> live s" "0 < c" "u2 < FD_SETSIZE" "k_malloc k"
    "length (upgrade_request a0 a1 (snprintf_trunc 128 v)) < 2048" "k_write k u2 = Wrote n"
    "length (upgrade_request a0 a1 (snprintf_trunc 128 v)) \<le> n" "k_accept k' False = int c" "k_malloc k'"
  defines "s1 \<equiv> ws_proxy_start k c a0 a1 (Some v) (int u2) (emit [EvOpenFd (int u2)] s)"
  defines "s2 \<equiv> axil_tunnel_close_raw (int u1) s1"
  defines "s3 \<equiv> descr_new k' False s2"
  defines "s4 \<equiv> axil_tunnel_close_raw (int u2) s3"
  shows "int c \<notin> live s2 \<and> int c \<in> live s3 \<and> d_fd (descr_map s3 c) = int c
    \<and> int c \<notin> live s4 \<and> d_fd (descr_map s4 c) = - 1"
proof -
  note p = pair_sym [OF server_okD(1) [OF assms(1)] assms(2)]
  have ne: "u2 \<noteq> c" "u2 \<noteq> u1" using p(3,4) assms(3) by (auto simp: end_ok_def)
  have b: "u1 < FD_SETSIZE" "c < FD_SETSIZE" using p by (auto simp: end_ok_def)
  have t1: "tunnel_pair s1 = (tunnel_pair s)(c := int u2, u2 := int c)"
    using proxy_start_effect(1) [OF assms(5) ne(1) assms(6,7,8,9)] by (simp add: s1_def)
  then have "tunnel_pair s1 u1 = int c" using p(1,2) ne by simp
  then have C: "closed_with s1 u1 = {u1, c}" by (auto simp: closed_with_def)
  note e2 = tunnel_close_effect [OF b(1), of s1]
  have bound: "\<And>j. tunnel_pair s1 u1 = int j \<Longrightarrow> j < FD_SETSIZE" "- 1 \<le> tunnel_pair s1 u1"
    using \<open>tunnel_pair s1 u1 = int c\<close> b by auto
  have t2: "tunnel_pair s2 j = (if j \<in> {u1, c} then - 1 else tunnel_pair s1 j)" for j
    using e2(2) [OF bound] C by (simp add: s2_def)
  have l2: "live s2 = live s1 - {int u1, int c}" using e2(4) [OF bound] C by (simp add: s2_def)
  have "tunnel_pair s2 u2 = int c" using t2 t1 ne by simp
  moreover have s3: "tunnel_pair s3 = tunnel_pair s2" "d_fd (descr_map s3 c) = int c" "live s3 = insert (int c) (live s2)"
    using assms(4,10,11) b(2) by (auto simp: s3_def descr_new_def Let_def)
  ultimately have t3: "tunnel_pair s3 u2 = int c" by simp
  then have C4: "closed_with s3 u2 = {u2, c}" by (auto simp: closed_with_def)
  have bound4: "\<And>j. tunnel_pair s3 u2 = int j \<Longrightarrow> j < FD_SETSIZE" "- 1 \<le> tunnel_pair s3 u2" using t3 b by auto
  note e4 = tunnel_close_effect [OF assms(5), of s3]
  have "descr_map s4 c = zero_descr (- 1)" "live s4 = live s3 - {int u2, int c}"
    using e4(1,4) [OF bound4] C4 by (simp_all add: s4_def)
  then show ?thesis using l2 s3 by simp
qed

theorem second_upgrade_closes_stranger_witness:
  "\<exists>s3 s4. int 5 \<in> live s3 \<and> d_fd (descr_map s3 5) = 5 \<and> s4 = axil_tunnel_close_raw 7 s3 \<and> int 5 \<notin> live s4"
proof -
  let ?k = "demo_kernel\<lparr>k_write := (\<lambda>i. Wrote 200)\<rparr>"
  have "k_malloc ?k" "k_write ?k 7 = Wrote 200" "k_accept demo_kernel False = int 5" "k_malloc demo_kernel"
    by (simp_all add: demo_kernel_def)
  from second_upgrade_closes_stranger [OF demo_ok _ _ _ _ this(1) _ this(2) _ this(3,4),
      where ?a0.0 = "''GET''" and ?a1.0 = "''/ws''" and v = "''k''" and ?u1.0 = 6]
  show ?thesis
    by (auto simp: demo_pair_state length_demo_request snprintf_trunc_def FD_SETSIZE_def)
qed


definition demo_busy :: server where
  "demo_busy = upd_descr 5 (\<lambda>d. d\<lparr>d_queue := \<lparr>remaining = replicate 64 NUL, remaining_size = 64,
     remaining_off = 0, remaining_len = 1\<rparr>\<rparr>) demo_pair"


end
