(* ===== verification/Axil_Respond.thy ===== *)
theory Axil_Respond
  imports Axil_Server Axil_Static
begin

text \<open>
  Responses as they are written to a descriptor: \<open>axil_respond\<close> and what is built on it
  (\<open>src/libaxil.c\<close> 258 to 288 and 2714 to 2800, \<open>src/include/ttypt/axil.h\<close> 332 to 349,
  \<open>src/src/axil-posix.c\<close> 634 to 677), the static responses (1741 to 1830), the redirects (1927 to
  1956, 2275 to 2309) and the directory listing (1959 to 2013).

  The bytes of a response are pure functions giving the writes in order, \<open>None\<close> when the code
  reads or writes past a buffer; the operations hand them to the write queue of the descriptor
  table and then close, flush or leave the descriptor.  Dates are arguments, files are functions
  from names to what opening and reading them gives.
\<close>

section \<open>Writing and closing\<close>

fun write_all :: "kernel \<Rightarrow> nat \<Rightarrow> string list \<Rightarrow> server \<Rightarrow> server run" where
  "write_all k i [] s = Done s"
| "write_all k i (t # ts) s = bind_run (axil_write k (int i) t s) (\<lambda>(_, s'). write_all k i ts s')"

definition mark_close :: "nat \<Rightarrow> server \<Rightarrow> server" where
  "mark_close i = upd_descr i (add_flags DF_TO_CLOSE)"

text \<open>\<open>if (!d->remaining_len) axil_close(fd);\<close>, alone or with \<open>else axil_write_remaining(fd);\<close>\<close>

definition close_when_sent :: "kernel \<Rightarrow> nat \<Rightarrow> server \<Rightarrow> server" where
  "close_when_sent k i s =
     (if remaining_len (d_queue (descr_map s i)) = 0 then axil_close k (int i) s else s)"

definition close_or_flush :: "kernel \<Rightarrow> nat \<Rightarrow> server \<Rightarrow> server run" where
  "close_or_flush k i s =
     (if remaining_len (d_queue (descr_map s i)) = 0 then Done (axil_close k (int i) s)
      else bind_run (server_flush k i s) (\<lambda>(_, s'). Done s'))"

text \<open>\<open>axil_writef\<close> formats into a buffer of \<open>BUFSIZ\<close> bytes.\<close>

definition axil_writef :: "kernel \<Rightarrow> nat \<Rightarrow> string \<Rightarrow> server \<Rightarrow> server run" where
  "axil_writef k i txt = write_all k i [snprintf_trunc BUFSIZ txt]"

definition header_set :: "nat \<Rightarrow> string \<Rightarrow> string \<Rightarrow> server \<Rightarrow> server" where
  "header_set i key value = upd_descr i (\<lambda>d. d\<lparr>d_headers := axil_header_set (d_headers d) key value\<rparr>)"

section \<open>The response interface\<close>

definition axil_respond :: "kernel \<Rightarrow> nat \<Rightarrow> int \<Rightarrow> string option \<Rightarrow> server \<Rightarrow> server run" where
  "axil_respond k i code body s =
     (let d = descr_map s i in
      case respond_writes (has (d_flags d) DF_HEAD) code body (d_headers d) of
        None \<Rightarrow> Overruns
      | Some ws \<Rightarrow>
          bind_run (write_all k i ws (upd_descr i (\<lambda>d. d\<lparr>d_headers := []\<rparr>) s))
            (\<lambda>s1. close_or_flush k i (mark_close i s1)))"

definition axil_respond_plain :: "kernel \<Rightarrow> nat \<Rightarrow> int \<Rightarrow> string option \<Rightarrow> server \<Rightarrow> (int \<times> server) run" where
  "axil_respond_plain k i status msg s =
     bind_run (axil_respond k i status (Some (case msg of Some m \<Rightarrow> m | None \<Rightarrow> []))
         (header_set i ''Content-Type'' ''text/plain'' s))
       (\<lambda>s1. Done (if status div 100 \<noteq> 2 then 1 else 0, s1))"

definition axil_redirect :: "kernel \<Rightarrow> nat \<Rightarrow> string \<Rightarrow> server \<Rightarrow> (int \<times> server) run" where
  "axil_redirect k i location s =
     bind_run (axil_respond k i 303 (Some []) (header_set i ''Location'' location s)) (\<lambda>s1. Done (0, s1))"

text \<open>
  \<open>axil_respond_file\<close>: \<open>fopen\<close> gives what \<open>fstat\<close> reports and the bytes a read can get; a read of fewer
  bytes than the size is the short read.  The text after the last slash is the file name, the text
  after its last dot the extension.
\<close>

definition after_last :: "char \<Rightarrow> string \<Rightarrow> string option" where
  "after_last c s = (if c \<in> set s then Some (last (split_on c s)) else None)"

definition fail_with :: "kernel \<Rightarrow> nat \<Rightarrow> int \<Rightarrow> string \<Rightarrow> server \<Rightarrow> (int \<times> server) run" where
  "fail_with k i status msg s = bind_run (axil_respond_plain k i status (Some msg) s) (\<lambda>(_, s1). Done (- 1, s1))"

definition send_sized :: "kernel \<Rightarrow> nat \<Rightarrow> string \<Rightarrow> nat \<Rightarrow> string option \<Rightarrow> server \<Rightarrow> server run" where
  "send_sized k i mime amount body s =
     axil_respond k i 200 body (header_set i ''Content-Length'' (snprintf_trunc 32 (show_nat amount))
       (header_set i ''Content-Type'' mime s))"

definition axil_respond_file ::
  "(string \<Rightarrow> string option) \<Rightarrow> (string \<Rightarrow> (stat_t \<times> string) option) \<Rightarrow> kernel \<Rightarrow> nat \<Rightarrow> string option
     \<Rightarrow> string option \<Rightarrow> server \<Rightarrow> (int \<times> server) run" where
  "axil_respond_file mimes fopen k i path allowed s =
     (case path of
        None \<Rightarrow> fail_with k i 404 ''Not found'' s
      | Some p \<Rightarrow>
          if p = [] then fail_with k i 404 ''Not found'' s
          else
            let filename = (case after_last (CHR ''/'') p of Some f \<Rightarrow> f | None \<Rightarrow> p) in
            case after_last (CHR ''.'') filename of
              None \<Rightarrow> fail_with k i 404 ''Not found'' s
            | Some ext \<Rightarrow>
                if ext = [] then fail_with k i 404 ''Not found'' s
                else
                  let mime = (case mimes ext of Some m \<Rightarrow> m | None \<Rightarrow> ''application/octet-stream'');
                      refused = (case allowed of None \<Rightarrow> False | Some a \<Rightarrow> a \<noteq> [] \<and> strstr a ext = None) in
                  if refused then fail_with k i 404 ''Not found'' s
                  else case fopen p of
                    None \<Rightarrow> fail_with k i 404 ''Not found'' s
                  | Some (st, content) \<Rightarrow>
                      if \<not> st_isreg st then fail_with k i 404 ''Not found'' s
                      else if st_size st = 0 then
                        bind_run (send_sized k i mime 0 (Some []) s) (\<lambda>s1. Done (0, s1))
                      else if \<not> k_alloc k (st_size st) then fail_with k i 500 ''Internal server error'' s
                      else if length content < st_size st then fail_with k i 500 ''Short read'' s
                      else
                        bind_run (send_sized k i mime (st_size st) None s) (\<lambda>s1.
                          if has (d_flags (descr_map s1 i)) DF_HEAD then Done (0, s1)
                          else bind_run (write_all k i [take (st_size st) content] s1) (\<lambda>s2. Done (0, s2))))"

text \<open>\<open>axil_sendfile\<close>; \<open>file\<close> gives nothing when the open fails, then what \<open>fstat\<close> and \<open>mmap\<close> give.\<close>

definition axil_sendfile ::
  "(string \<Rightarrow> string option) \<Rightarrow> (string \<Rightarrow> (stat_t option \<times> string option) option) \<Rightarrow> kernel \<Rightarrow> nat
     \<Rightarrow> string \<Rightarrow> server \<Rightarrow> server run" where
  "axil_sendfile mimes file k i path s =
     (case file path of
        None \<Rightarrow> axil_respond k i 404 (Some ''404 Not Found'') s
      | Some (None, _) \<Rightarrow> axil_respond k i 500 (Some ''500 Internal Server Error'') s
      | Some (Some st, None) \<Rightarrow> axil_respond k i 500 (Some ''500 Internal Server Error'') s
      | Some (Some st, Some mapped) \<Rightarrow>
          let mime = (case Option.bind (after_last (CHR ''.'') path) mimes of
                        Some m \<Rightarrow> m | None \<Rightarrow> ''application/octet-stream'') in
          bind_run (send_sized k i mime (st_size st) None s) (\<lambda>s1.
          bind_run (write_all k i [take (st_size st) mapped] s1) (\<lambda>s2. close_or_flush k i (mark_close i s2))))"

section \<open>Static responses\<close>

definition CROSS_ORIGIN :: string where
  "CROSS_ORIGIN = ''Cross-Origin-Opener-Policy: same-origin'' @ CRLF
     @ ''Cross-Origin-Embedder-Policy: require-corp'' @ CRLF @ ''Cross-Origin-Resource-Policy: same-origin'' @ CRLF"

definition SERVER_LINE :: string where
  "SERVER_LINE = ''Server: axil/0.0.1 (Unix)'' @ CRLF"

definition static_not_modified ::
  "kernel \<Rightarrow> nat \<Rightarrow> string \<Rightarrow> string \<Rightarrow> string \<Rightarrow> string \<Rightarrow> server \<Rightarrow> server run" where
  "static_not_modified k i date etag last_mod cache_ctl s =
     bind_run (axil_writef k i (''HTTP/1.1 304 Not Modified'' @ CRLF @ ''Date: '' @ date @ CRLF @ SERVER_LINE
         @ static_validator_headers etag last_mod cache_ctl 512 @ CROSS_ORIGIN @ CRLF) (mark_close i s))
       (\<lambda>s1. Done (close_when_sent k i s1))"

definition STATIC_BUF :: nat where
  "STATIC_BUF = BUFSIZ * 16"

text \<open>What successive reads of a file into a buffer of \<open>n\<close> bytes give.\<close>

function file_chunks :: "nat \<Rightarrow> string \<Rightarrow> string list" where
  "file_chunks n xs = (if n = 0 \<or> xs = [] then [] else take n xs # file_chunks n (drop n xs))"
  by pat_completeness auto
termination
  by (relation "measure (\<lambda>(n, xs). length xs)") auto

declare file_chunks.simps [simp del]

definition static_head :: "string \<Rightarrow> string \<Rightarrow> nat \<Rightarrow> string \<Rightarrow> string \<Rightarrow> string" where
  "static_head status date amount content_type vhdr =
     ''HTTP/1.1 '' @ status @ CRLF @ ''Date: '' @ date @ CRLF @ SERVER_LINE
     @ ''Content-Length: '' @ show_nat amount @ CRLF @ ''Content-Type: '' @ content_type @ CRLF
     @ vhdr @ CROSS_ORIGIN @ CRLF"

text \<open>\<open>content\<close> is what the descriptor of the file reads, \<open>None\<close> when there is no such descriptor.\<close>

definition static_writes ::
  "bool \<Rightarrow> string \<Rightarrow> string option \<Rightarrow> string \<Rightarrow> string list option" where
  "static_writes df_head status content hd_text =
     (let hlen = length hd_text; hdr = take hlen (snprintf_trunc 1024 hd_text @ [NUL]) in
      if 1024 < hlen then None
      else if df_head then Some [hdr]
      else case content of
          None \<Rightarrow> Some [hdr, snprintf_trunc BUFSIZ (status @ CRLF)]
        | Some c \<Rightarrow>
            (case file_chunks STATIC_BUF c of
               [] \<Rightarrow> Some [hdr]
             | b # bs \<Rightarrow> Some (if hlen + length b \<le> STATIC_BUF then (hdr @ b) # bs else hdr # b # bs)))"

definition static_write ::
  "kernel \<Rightarrow> nat \<Rightarrow> string \<Rightarrow> string \<Rightarrow> string \<Rightarrow> string option \<Rightarrow> nat \<Rightarrow> string \<Rightarrow> string \<Rightarrow> string \<Rightarrow> server
     \<Rightarrow> server run" where
  "static_write k i date status content_type content amount etag last_mod cache_ctl s =
     (case static_writes (has (d_flags (descr_map s i)) DF_HEAD) status content
        (static_head status date amount content_type (static_validator_headers etag last_mod cache_ctl 512)) of
        None \<Rightarrow> Overruns
      | Some ws \<Rightarrow>
          bind_run (write_all k i ws s) (\<lambda>s1.
            Done (if has (d_flags (descr_map s1 i)) DF_TO_CLOSE then close_when_sent k i s1 else s1)))"

section \<open>Redirects\<close>

definition moved_response :: "string \<Rightarrow> string" where
  "moved_response location =
     ''HTTP/1.1 301 Moved Permanently'' @ CRLF @ ''Location: '' @ location @ CRLF
     @ ''Content-Length: 0'' @ CRLF @ ''Connection: close'' @ CRLF @ CRLF"

text \<open>The host is what \<open>axil_env_get\<close> gives for \<open>HTTP_HOST\<close>, empty when it has none.\<close>

definition env_host :: "'m string_map \<Rightarrow> 'm \<Rightarrow> string" where
  "env_host q env = (case axil_env_get q env ENV_KEY_LEN ''HTTP_HOST'' of (_, Some h) \<Rightarrow> h | (_, None) \<Rightarrow> [])"

definition request_handle_redirect ::
  "bool \<Rightarrow> bool \<Rightarrow> kernel \<Rightarrow> nat \<Rightarrow> string \<Rightarrow> string \<Rightarrow> server \<Rightarrow> (bool \<times> server) run" where
  "request_handle_redirect ssl_only ssl k i host document_uri s =
     (if ssl_only \<and> ssl \<and> \<not> d_ssl (descr_map s i) then
        bind_run (axil_writef k i (snprintf_trunc 8285 (moved_response (''https://'' @ host @ document_uri))) (mark_close i s))
          (\<lambda>s1. Done (True, close_when_sent k i s1))
      else Done (False, s))"

definition request_handle_trailing_slash ::
  "(string \<Rightarrow> (string \<times> stat_t) option) \<Rightarrow> kernel \<Rightarrow> nat \<Rightarrow> string \<Rightarrow> string \<Rightarrow> server \<Rightarrow> (bool \<times> server) run" where
  "request_handle_trailing_slash allowed k i host document_uri s =
     (if 1 < length document_uri \<and> last document_uri \<noteq> CHR ''/'' then
        case allowed document_uri of
          Some (_, st) \<Rightarrow>
            if st_isdir st then
              bind_run (axil_writef k i (moved_response ((if d_ssl (descr_map s i) then ''https'' else ''http'')
                  @ ''://'' @ host @ document_uri @ ''/'')) s)
                (\<lambda>s1. Done (True, close_when_sent k i (mark_close i s1)))
            else Done (False, s)
        | None \<Rightarrow> Done (False, s)
      else Done (False, s))"

section \<open>Directory listing\<close>

definition index_head :: "string \<Rightarrow> string" where
  "index_head uri = ''<!DOCTYPE html><html><head><title>Index of '' @ uri @ ''</title></head>''
     @ ''<body><h1>Index of '' @ uri @ ''</h1><hr><pre>''"

definition index_line :: "string \<Rightarrow> string" where
  "index_line name = snprintf_trunc (BUFSIZ * 2)
     (''<a href='' @ [CHR 0x22] @ ''./'' @ name @ [CHR 0x22, CHR ''>''] @ name @ ''</a>'' @ [LF])"

definition INDEX_BUF :: nat where
  "INDEX_BUF = BUFSIZ * 8"

fun index_lines :: "string list \<Rightarrow> string \<Rightarrow> string" where
  "index_lines [] body = body"
| "index_lines (name # names) body =
     (if name = ''.'' \<or> name = ''..'' then index_lines names body
      else let line = index_line name in
        index_lines names (if length body + length line < INDEX_BUF - 20 then body @ line else body))"

text \<open>The body with the length the code counts for it; \<open>None\<close> when the closing tags or the bytes written
  leave the buffer.  An URI that fills the buffer is cut by \<open>snprintf\<close> but counted in full.\<close>

definition index_body :: "string \<Rightarrow> string list \<Rightarrow> (string \<times> nat) option" where
  "index_body uri names =
     (if INDEX_BUF \<le> length (index_head uri) then None
      else
        let body = index_lines names (index_head uri); counted = length body + 26 in
        if INDEX_BUF < counted then None
        else Some (body @ ''</pre><hr></body></html>'', counted))"

definition request_handle_autoindex ::
  "(string \<Rightarrow> string list option) \<Rightarrow> kernel \<Rightarrow> nat \<Rightarrow> string \<Rightarrow> string \<Rightarrow> string \<Rightarrow> server \<Rightarrow> server run" where
  "request_handle_autoindex readdir k i date uri_path fs_path s =
     (case readdir fs_path of
        None \<Rightarrow> static_write k i date ''500 Internal Server Error'' ''text/plain'' None 27 [] [] [] s
      | Some names \<Rightarrow>
          (case index_body uri_path names of
             None \<Rightarrow> Overruns
           | Some (body, counted) \<Rightarrow>
               bind_run (axil_writef k i (''HTTP/1.1 200 OK'' @ CRLF @ ''Date: '' @ date @ CRLF @ SERVER_LINE
                 @ ''Content-Length: '' @ show_nat counted @ CRLF @ ''Content-Type: text/html'' @ CRLF
                 @ ''Connection: close'' @ CRLF @ CROSS_ORIGIN @ CRLF) s) (\<lambda>s1.
               bind_run (write_all k i [body @ replicate (counted - length body) NUL] s1) (\<lambda>s2.
                 Done (if has (d_flags (descr_map s2 i)) DF_TO_CLOSE then close_when_sent k i s2 else s2)))))"

section \<open>Responses keep the table sound\<close>

lemma write_all_ok: "server_ok s \<Longrightarrow> write_all k i ts s = Done s' \<Longrightarrow> server_ok s'"
proof (induction ts arbitrary: s)
  case (Cons t ts)
  then obtain r s1 where "axil_write k (int i) t s = Done (r, s1)" "write_all k i ts s1 = Done s'"
    by (auto simp: bind_run_Done)
  moreover from this(1) have "server_ok s1"
    using Cons.prems(1) by (auto simp: axil_write_def intro: server_write_ok split: if_splits)
  ultimately show ?case using Cons.IH by blast
qed simp

lemma mark_close_ok: "server_ok s \<Longrightarrow> server_ok (mark_close i s)"
  unfolding mark_close_def by (rule server_ok_upd) auto

lemma header_set_ok: "server_ok s \<Longrightarrow> server_ok (header_set i key v s)"
  unfolding header_set_def by (rule server_ok_upd) auto

lemma close_when_sent_ok: "server_ok s \<Longrightarrow> server_ok (close_when_sent k i s)"
  by (simp add: close_when_sent_def server_ok_close)

lemma close_or_flush_ok: "server_ok s \<Longrightarrow> close_or_flush k i s = Done s' \<Longrightarrow> server_ok s'"
  by (auto simp: close_or_flush_def bind_run_Done server_ok_close intro: server_flush_ok split: if_splits)

lemma axil_respond_ok:
  assumes "server_ok s" "axil_respond k i code body s = Done s'"
  shows "server_ok s'"
proof -
  have "server_ok (upd_descr i (\<lambda>d. d\<lparr>d_headers := []\<rparr>) s)" by (rule server_ok_upd [OF assms(1)]) auto
  then show ?thesis
    using assms(2) by (auto simp: axil_respond_def Let_def bind_run_Done intro!: mark_close_ok
      intro: close_or_flush_ok [rotated] write_all_ok split: option.splits)
qed

lemma static_not_modified_ok: "server_ok s \<Longrightarrow> static_not_modified k i date e l c s = Done s' \<Longrightarrow> server_ok s'"
  by (auto simp: static_not_modified_def axil_writef_def bind_run_Done simp del: write_all.simps
    intro!: close_when_sent_ok intro: write_all_ok mark_close_ok)

lemma static_write_ok: "server_ok s \<Longrightarrow> static_write k i date st ct c n e l cc s = Done s' \<Longrightarrow> server_ok s'"
  by (auto simp: static_write_def bind_run_Done intro!: close_when_sent_ok intro: write_all_ok split: option.splits)

lemma redirect_ok:
  "server_ok s \<Longrightarrow> request_handle_redirect so ss k i host uri s = Done (done, s') \<Longrightarrow> server_ok s' \<and> (\<not> done \<longrightarrow> s' = s)"
  by (auto simp: request_handle_redirect_def axil_writef_def bind_run_Done simp del: write_all.simps
    intro!: close_when_sent_ok intro: write_all_ok mark_close_ok split: if_splits)

lemma trailing_slash_ok:
  "server_ok s \<Longrightarrow> request_handle_trailing_slash al k i host uri s = Done (done, s') \<Longrightarrow> server_ok s' \<and> (\<not> done \<longrightarrow> s' = s)"
  by (auto simp: request_handle_trailing_slash_def axil_writef_def bind_run_Done simp del: write_all.simps
    intro!: close_when_sent_ok mark_close_ok intro: write_all_ok split: if_splits option.splits)

lemma autoindex_ok: "server_ok s \<Longrightarrow> request_handle_autoindex rd k i date uri p s = Done s' \<Longrightarrow> server_ok s'"
  by (auto simp: request_handle_autoindex_def axil_writef_def bind_run_Done simp del: write_all.simps
    intro!: close_when_sent_ok intro: write_all_ok write_all_ok [OF write_all_ok] static_write_ok split: if_splits option.splits)

section \<open>Writing to an idle descriptor\<close>

text \<open>A plain connection with nothing queued, whose socket takes what it is given.\<close>

definition idle :: "kernel \<Rightarrow> nat \<Rightarrow> server \<Rightarrow> bool" where
  "idle k i s \<longleftrightarrow> 0 < i \<and> i < FD_SETSIZE \<and> io s i = RawIo \<and> int i \<in> live s
     \<and> remaining_len (d_queue (descr_map s i)) = 0 \<and> (\<exists>n. k_write k i = Wrote n \<and> 65536 \<le> n)"

text \<open>The bytes sent on a descriptor.\<close>

fun sent_on :: "nat \<Rightarrow> sevent list \<Rightarrow> string" where
  "sent_on i [] = []"
| "sent_on i (EvSent j t # es) = (if j = i then t @ sent_on i es else sent_on i es)"
| "sent_on i (e # es) = sent_on i es"

lemma sent_on_append [simp]: "sent_on i (es @ fs) = sent_on i es @ sent_on i fs"
  by (induction i es rule: sent_on.induct) auto

lemma sent_on_events [simp]: "sent_on i (sent_events i t) = t"
  by (simp add: sent_events_def)

lemma sent_on_concat [simp]: "sent_on i (concat (map (sent_events i) ts)) = concat ts"
  by (induction ts) auto

lemma upd_descr_same: "f (descr_map s i) = descr_map s i \<Longrightarrow> upd_descr i f s = s"
  by (simp add: upd_descr_def)

lemma idle_emit [simp]: "idle k i (emit (sent_events i t) s) = idle k i s"
  by (simp add: idle_def)

lemma idle_header [simp]: "idle k i (upd_descr i (\<lambda>d. d\<lparr>d_headers := h d\<rparr>) s) = idle k i s"
  by (simp add: idle_def)

lemma idle_write:
  assumes "idle k i s" "length t \<le> 65536"
  shows "axil_write k (int i) t s = Done (int (length t), emit (sent_events i t) s)"
proof -
  obtain n where n: "k_write k i = Wrote n" "65536 \<le> n" using assms(1) by (auto simp: idle_def)
  have "raw_write k i t s = Done (int (length t), d_queue (descr_map s i), t, False)"
    using assms n by (auto simp: raw_write_def k_answer_def axil_low_write_def idle_def min_def Let_def)
  moreover have "upd_descr i (\<lambda>d. d\<lparr>d_queue := d_queue (descr_map s i)\<rparr>) s = s"
    by (rule upd_descr_same) simp
  ultimately show ?thesis
    using assms(1) by (simp add: axil_write_def server_write_def idle_def queue_result_def)
qed

lemma emit_emit [simp]: "emit fs (emit es s) = emit (es @ fs) s"
  by (simp add: emit_def)

lemma idle_write_all:
  "idle k i s \<Longrightarrow> \<forall>t \<in> set ts. length t \<le> 65536 \<Longrightarrow>
     write_all k i ts s = Done (emit (concat (map (sent_events i) ts)) s)"
proof (induction ts arbitrary: s)
  case Nil
  then show ?case by (simp add: emit_def)
next
  case (Cons t ts)
  then show ?case by (simp add: idle_write)
qed

text \<open>The response of \<open>axil_respond\<close> as one text.\<close>

definition response_text :: "server \<Rightarrow> nat \<Rightarrow> int \<Rightarrow> string option \<Rightarrow> string" where
  "response_text s i code body =
     respond_head code (axil_default_response_headers (d_headers (descr_map s i)))
     @ (case body of None \<Rightarrow> [] | Some b \<Rightarrow> if has (d_flags (descr_map s i)) DF_HEAD then [] else b)"

lemma respond_writes_text:
  assumes "length (respond_head code (axil_default_response_headers (d_headers (descr_map s i)))) < 4096"
    "case body of None \<Rightarrow> True | Some b \<Rightarrow> length b \<le> 61440"
  shows "\<exists>ws. respond_writes (has (d_flags (descr_map s i)) DF_HEAD) code body (d_headers (descr_map s i)) = Some ws
    \<and> concat ws = response_text s i code body \<and> (\<forall>t \<in> set ws. length t \<le> 65536)"
  using assms by (auto simp: respond_writes_def response_text_def Let_def split: option.splits)

lemma idle_respond:
  assumes "idle k i s" "length (respond_head code (axil_default_response_headers (d_headers (descr_map s i)))) < 4096"
    "case body of None \<Rightarrow> True | Some b \<Rightarrow> length b \<le> 61440"
  shows "\<exists>es. sent_on i es = response_text s i code body \<and> live_from (live s) es = live s
    \<and> axil_respond k i code body s
      = Done (axil_close k (int i) (mark_close i (emit es (upd_descr i (\<lambda>d. d\<lparr>d_headers := []\<rparr>) s))))"
proof -
  obtain ws where ws: "respond_writes (has (d_flags (descr_map s i)) DF_HEAD) code body (d_headers (descr_map s i)) = Some ws"
    "concat ws = response_text s i code body" "\<forall>t \<in> set ws. length t \<le> 65536"
    using respond_writes_text [OF assms(2,3)] by blast
  let ?s0 = "upd_descr i (\<lambda>d. d\<lparr>d_headers := []\<rparr>) s" and ?es = "concat (map (sent_events i) ws)"
  have "write_all k i ws ?s0 = Done (emit ?es ?s0)"
    using assms(1) ws(3) by (intro idle_write_all) simp_all
  then have "axil_respond k i code body s = Done (axil_close k (int i) (mark_close i (emit ?es ?s0)))"
    using ws(1) assms(1) by (simp add: axil_respond_def close_or_flush_def mark_close_def idle_def)
  then show ?thesis using ws(2) by (intro exI [of _ ?es]) simp
qed

lemma sent_on_quiet:
  "sent_on j (ssl_drop_events i d) = []" "sent_on j (if b then [EvEnvClose i] else []) = []"
  by (simp_all add: ssl_drop_events_def)

lemma sent_on_raw_reset: "sent_on j (events (axil_raw_descr_reset fd s)) = sent_on j (events s)"
  by (simp add: axil_raw_descr_reset_def Let_def sent_on_quiet emit_def fd_clr_all_def)

lemma sent_on_tunnel_close: "sent_on j (events (axil_tunnel_close_raw fd s)) = sent_on j (events s)"
  by (simp add: axil_tunnel_close_raw_def Let_def sent_on_raw_reset)

lemma sent_on_close [simp]: "sent_on j (events (axil_close k fd s)) = sent_on j (events s)"
  by (simp add: axil_close_def Let_def sent_on_quiet sent_on_tunnel_close emit_def fd_clr_all_def)

section \<open>Writes to a closed descriptor\<close>

lemma write_closed:
  assumes "0 < i" "io s i = RawIo" "int i \<notin> live s" "d_queue (descr_map s i) = empty_queue"
  shows "axil_write k (int i) t s = Done (- 1, s)"
proof -
  have "raw_write k i t s = Done (- 1, d_queue (descr_map s i), [], False)"
    using assms(3,4) by (simp add: raw_write_def k_answer_def axil_low_write_def empty_queue_def)
  moreover have "upd_descr i (\<lambda>d. d\<lparr>d_queue := d_queue (descr_map s i)\<rparr>) s = s"
    by (rule upd_descr_same) simp
  ultimately show ?thesis
    using assms(1,2) by (simp add: axil_write_def server_write_def queue_result_def sent_events_def emit_def)
qed

lemma write_all_closed:
  assumes "0 < i" "io s i = RawIo" "int i \<notin> live s" "d_queue (descr_map s i) = empty_queue"
  shows "write_all k i ts s = Done s"
  by (induction ts) (simp_all add: write_closed [OF assms])

text \<open>The head of a response for a file closes an idle client, whatever its size.\<close>

lemma send_sized_closes:
  assumes "idle k i s" "\<not> has (d_flags (descr_map s i)) TEARDOWN"
    "length (respond_head 200 (axil_default_response_headers (axil_header_set (axil_header_set (d_headers (descr_map s i)) ''Content-Type'' mime)
       ''Content-Length'' (snprintf_trunc 32 (show_nat amount))))) < 4096"
  shows "\<exists>s'. send_sized k i mime amount None s = Done s' \<and> 0 < i \<and> i < FD_SETSIZE \<and> io s' i = RawIo \<and> int i \<notin> live s'
    \<and> descr_map s' i = zero_descr (- 1)
    \<and> sent_on i (events s') = sent_on i (events s) @ respond_head 200 (axil_default_response_headers
        (axil_header_set (axil_header_set (d_headers (descr_map s i)) ''Content-Type'' mime) ''Content-Length'' (snprintf_trunc 32 (show_nat amount))))"
proof -
  define s1 where "s1 = header_set i ''Content-Length'' (snprintf_trunc 32 (show_nat amount)) (header_set i ''Content-Type'' mime s)"
  have h: "d_headers (descr_map s1 i) = axil_header_set (axil_header_set (d_headers (descr_map s i)) ''Content-Type'' mime)
      ''Content-Length'' (snprintf_trunc 32 (show_nat amount))"
    by (simp add: s1_def header_set_def)
  have idle: "idle k i s1" using assms(1) by (simp add: s1_def header_set_def idle_def)
  have i: "i < FD_SETSIZE" "0 < i" "io s1 i = RawIo" "live s1 = live s" "events s1 = events s"
    using idle assms(1) by (simp_all add: idle_def s1_def header_set_def)
  obtain es where es: "sent_on i es = response_text s1 i 200 None" "live_from (live s1) es = live s1"
    "axil_respond k i 200 None s1 = Done (axil_close k (int i) (mark_close i (emit es (upd_descr i (\<lambda>d. d\<lparr>d_headers := []\<rparr>) s1))))"
    using idle_respond [OF idle, of 200 None] assms(3) h by auto
  let ?s2 = "mark_close i (emit es (upd_descr i (\<lambda>d. d\<lparr>d_headers := []\<rparr>) s1))"
  have nt: "\<not> has (d_flags (descr_map ?s2 i)) TEARDOWN"
    using assms(2) by (simp add: mark_close_def s1_def header_set_def) (simp add: has_def TEARDOWN_def df_defs)
  note c = close_plain_effect [OF i(1) nt, where k = k]
  have "send_sized k i mime amount None s = Done (axil_close k (int i) ?s2)"
    using es(3) by (simp add: send_sized_def s1_def)
  moreover have "io (axil_close k (int i) ?s2) i = RawIo" "int i \<notin> live (axil_close k (int i) ?s2)"
    "descr_map (axil_close k (int i) ?s2) i = zero_descr (- 1)"
    using c i(3) by (simp_all add: mark_close_def)
  moreover have "sent_on i (events (axil_close k (int i) ?s2)) = sent_on i (events s) @ response_text s1 i 200 None"
    using es(1) i(5) by (simp add: mark_close_def)
  ultimately show ?thesis using i(1,2) by (auto simp: response_text_def h)
qed

section \<open>Lengths\<close>

lemma length_header_set: "length (axil_header_set h key v) \<le> length h + length key + length v + 4"
  by (simp add: axil_header_set_def snprintf_trunc_def)

lemma length_header_default: "length (axil_header_set_default h key v) \<le> length h + length key + length v + 4"
  using length_header_set [of h key v] by (simp add: axil_header_set_default_def)

lemma length_default_headers: "length (axil_default_response_headers h) \<le> length h + 128"
proof -
  let ?h1 = "axil_header_set_default h ''Cross-Origin-Opener-Policy'' ''same-origin''"
  let ?h2 = "axil_header_set_default ?h1 ''Cross-Origin-Embedder-Policy'' ''require-corp''"
  have "length ?h1 \<le> length h + 41" using length_header_default [of h "''Cross-Origin-Opener-Policy''" "''same-origin''"] by simp
  moreover have "length ?h2 \<le> length ?h1 + 44"
    using length_header_default [of ?h1 "''Cross-Origin-Embedder-Policy''" "''require-corp''"] by simp
  moreover have "length (axil_default_response_headers h) \<le> length ?h2 + 43"
    using length_header_default [of ?h2 "''Cross-Origin-Resource-Policy''" "''same-origin''"]
    by (simp add: axil_default_response_headers_def Let_def)
  ultimately show ?thesis by linarith
qed

lemma length_respond_head:
  "length (respond_head code h) = 14 + length (show_int code) + length (axil_status_text code) + length h"
  by (simp add: respond_head_def)

lemma length_show_nat: "n < 10 ^ Suc k \<Longrightarrow> length (show_nat n) \<le> Suc k"
proof (induction k arbitrary: n)
  case 0
  then show ?case by (subst show_nat.simps) simp
next
  case (Suc k)
  show ?case
  proof (cases "n < 10")
    case True
    then show ?thesis by (subst show_nat.simps) simp
  next
    case False
    have "n div 10 < 10 ^ Suc k" using Suc.prems by (simp add: div_less_iff_less_mult mult.commute)
    from Suc.IH [OF this] show ?thesis using False by (subst show_nat.simps) simp
  qed
qed

lemma concat_file_chunks: "0 < n \<Longrightarrow> concat (file_chunks n xs) = xs"
proof (induction n xs rule: file_chunks.induct)
  case (1 n xs)
  then show ?case by (cases "xs = []") (simp_all add: file_chunks.simps [of n xs] file_chunks.simps [of n "[]"])
qed

lemma static_head_fits:
  assumes "length status \<le> 30" "length date < 100" "length content_type \<le> 64" "amount < 10 ^ 20" "length vhdr < 512"
  shows "length (static_head status date amount content_type vhdr) < 1024"
  using assms length_show_nat [of amount 19] by (simp add: static_head_def SERVER_LINE_def CROSS_ORIGIN_def)

lemma respond_completes:
  assumes "server_ok s" "idle k i s"
    "length (respond_head code (axil_default_response_headers (d_headers (descr_map s i)))) < 4096"
    "case body of None \<Rightarrow> True | Some b \<Rightarrow> length b \<le> 61440"
  shows "\<exists>s'. axil_respond k i code body s = Done s'
    \<and> sent_on i (events s') = sent_on i (events s) @ response_text s i code body
    \<and> descr_map s' i = zero_descr (- 1) \<and> int i \<notin> live s'"
proof -
  obtain es where es: "sent_on i es = response_text s i code body" "live_from (live s) es = live s"
    "axil_respond k i code body s = Done (axil_close k (int i) (mark_close i (emit es (upd_descr i (\<lambda>d. d\<lparr>d_headers := []\<rparr>) s))))"
    using idle_respond [OF assms(2-4)] by blast
  let ?s1 = "mark_close i (emit es (upd_descr i (\<lambda>d. d\<lparr>d_headers := []\<rparr>) s))"
  have i: "i < FD_SETSIZE" using assms(2) by (simp add: idle_def)
  have "pairs_ok ?s1" unfolding mark_close_def
    by (intro pairs_upd pairs_emit server_okD(1) [OF assms(1)]) (use es(2) in auto)
  note e = close_effect [OF this i, where k = k]
  show ?thesis using es e(1,3) by (auto simp: mark_close_def closed_with_def)
qed

section \<open>Properties\<close>

text \<open>C13. On a plain connection with nothing queued, whose socket takes what it is given, \<open>axil_respond\<close>
  sends the whole response, status line, header block and body (no body for a HEAD request), and
  then closes the connection with its peer, body or no body.\<close>

theorem respond_delivers:
  assumes "server_ok s" "idle k i s"
    "length (respond_head code (axil_default_response_headers (d_headers (descr_map s i)))) < 4096"
    "case body of None \<Rightarrow> True | Some b \<Rightarrow> length b \<le> 61440"
  shows "\<exists>s'. axil_respond k i code body s = Done s'
    \<and> sent_on i (events s') = sent_on i (events s) @ response_text s i code body
    \<and> descr_map s' i = zero_descr (- 1) \<and> int i \<notin> live s'"
  using assms by (rule respond_completes)

definition wide_kernel :: kernel where
  "wide_kernel = demo_kernel\<lparr>k_write := (\<lambda>i. Wrote 100000)\<rparr>"

lemma demo_client_ok: "server_ok demo_client"
  by (rule server.reachable_inv [OF demo_booted demo_steps(1)])

lemma demo_client_idle: "idle wide_kernel 5 demo_client"
  by (simp add: idle_def demo_client_state wide_kernel_def fresh_queue_def)

lemma demo_client_plain: "d_headers (descr_map demo_client 5) = []" "\<not> has (d_flags (descr_map demo_client 5)) TEARDOWN"
  "\<not> has (d_flags (descr_map demo_client 5)) DF_HEAD"
  by (simp_all add: demo_client_state zero_descr_def) (simp_all add: has_def TEARDOWN_def df_defs)

theorem respond_delivers_witness:
  "\<exists>s'. axil_respond wide_kernel 5 404 (Some ''no'') demo_client = Done s' \<and> int 5 \<notin> live s'
     \<and> sent_on 5 (events s') = sent_on 5 (events demo_client) @ respond_head 404 (axil_default_response_headers []) @ ''no''"
proof -
  have "axil_status_text 404 = ''Not Found''" by code_simp
  moreover have "show_int 404 = ''404''" by (simp add: show_int_def show_nat.simps)
  ultimately have "length (respond_head 404 (axil_default_response_headers (d_headers (descr_map demo_client 5)))) < 4096"
    using length_default_headers [of "[]"] by (simp add: length_respond_head demo_client_plain)
  from respond_delivers [OF demo_client_ok demo_client_idle this, of "Some ''no''"]
  show ?thesis by (auto simp: response_text_def demo_client_plain)
qed

text \<open>The head \<open>axil_respond_file\<close> sends for a file, from the headers set before.\<close>

definition file_head :: "(string \<Rightarrow> string option) \<Rightarrow> string \<Rightarrow> nat \<Rightarrow> string \<Rightarrow> string" where
  "file_head mimes ext amount h =
     respond_head 200 (axil_default_response_headers (axil_header_set
       (axil_header_set h ''Content-Type'' (case mimes ext of Some m \<Rightarrow> m | None \<Rightarrow> ''application/octet-stream''))
       ''Content-Length'' (snprintf_trunc 32 (show_nat amount))))"

text \<open>C39. A file of any size but zero sent with \<open>axil_respond_file\<close> never leaves the server: the
  response without a body has closed the connection when the bytes of the file are written, so only
  the head is sent, with the length of the file in it, and the call returns success.\<close>

theorem file_body_lost:
  assumes "server_ok s" "idle k i s" "\<not> has (d_flags (descr_map s i)) TEARDOWN" "p \<noteq> []"
    "after_last (CHR ''.'') (case after_last (CHR ''/'') p of Some f \<Rightarrow> f | None \<Rightarrow> p) = Some ext" "ext \<noteq> []"
    "fopen p = Some (st, content)" "st_isreg st" "0 < st_size st" "st_size st \<le> length content" "k_alloc k (st_size st)"
    "length (file_head mimes ext (st_size st) (d_headers (descr_map s i))) < 4096"
  shows "\<exists>s'. axil_respond_file mimes fopen k i (Some p) None s = Done (0, s') \<and> int i \<notin> live s'
    \<and> sent_on i (events s') = sent_on i (events s) @ file_head mimes ext (st_size st) (d_headers (descr_map s i))"
proof -
  let ?mime = "case mimes ext of Some m \<Rightarrow> m | None \<Rightarrow> ''application/octet-stream''"
  obtain s3 where s3: "send_sized k i ?mime (st_size st) None s = Done s3" "0 < i" "io s3 i = RawIo" "int i \<notin> live s3"
    "descr_map s3 i = zero_descr (- 1)"
    "sent_on i (events s3) = sent_on i (events s) @ file_head mimes ext (st_size st) (d_headers (descr_map s i))"
    using send_sized_closes [OF assms(2,3), of ?mime "st_size st"] assms(12) by (auto simp: file_head_def)
  have q: "d_queue (descr_map s3 i) = empty_queue" by (simp add: s3(5) zero_descr_def)
  have "axil_respond_file mimes fopen k i (Some p) None s = Done (0, s3)"
    using assms(4-11) s3(1) write_all_closed [OF s3(2-4) q]
    by (simp add: axil_respond_file_def Let_def del: write_all.simps)
  with s3(4,6) show ?thesis by blast
qed

definition demo_file :: "string \<Rightarrow> (stat_t \<times> string) option" where
  "demo_file p = Some (\<lparr>st_ino = 1, st_mtime = 2, st_mtime_nsec = 0, st_size = 3, st_isreg = True, st_isdir = False\<rparr>, ''abc'')"

theorem file_body_lost_witness:
  "\<exists>s'. axil_respond_file (\<lambda>e. None) demo_file wide_kernel 5 (Some ''/d/a.txt'') None demo_client = Done (0, s')
     \<and> int 5 \<notin> live s' \<and> sent_on 5 (events s') = sent_on 5 (events demo_client) @ file_head (\<lambda>e. None) ''txt'' 3 []"
proof -
  have "axil_status_text 200 = ''OK''" by code_simp
  moreover have "show_int 200 = ''200''" by (simp add: show_int_def show_nat.simps)
  moreover have "length (axil_default_response_headers (axil_header_set (axil_header_set [] ''Content-Type'' ''application/octet-stream'')
      ''Content-Length'' (snprintf_trunc 32 (show_nat 3)))) \<le> 300"
    using length_default_headers [of "axil_header_set (axil_header_set [] ''Content-Type'' ''application/octet-stream'')
        ''Content-Length'' (snprintf_trunc 32 (show_nat 3))"]
      length_header_set [of "axil_header_set [] ''Content-Type'' ''application/octet-stream''" "''Content-Length''" "snprintf_trunc 32 (show_nat 3)"]
      length_header_set [of "[]" "''Content-Type''" "''application/octet-stream''"] length_snprintf_trunc [of 32 "show_nat 3"]
    by simp
  ultimately have h: "length (file_head (\<lambda>e. None) ''txt'' 3 []) < 4096"
    by (simp add: file_head_def length_respond_head)
  have "k_alloc wide_kernel 3" by (simp add: wide_kernel_def demo_kernel_def)
  then show ?thesis
    using file_body_lost [OF demo_client_ok demo_client_idle demo_client_plain(2), of "''/d/a.txt''" "''txt''" demo_file
        "\<lparr>st_ino = 1, st_mtime = 2, st_mtime_nsec = 0, st_size = 3, st_isreg = True, st_isdir = False\<rparr>" "''abc''" "\<lambda>e. None"] h
    by (simp add: demo_file_def after_last_def demo_client_plain)
qed



text \<open>A directory listing announces and sends two bytes more than its text, both NUL, and closing tags
  are counted with 26 bytes where they have 24.\<close>

lemma index_length_wrong:
  "index_body uri names = Some (body, counted) \<Longrightarrow> counted = length body + 2"
  by (auto simp: index_body_def Let_def split: if_splits)

end
