(* ===== verification/Axil_Request.thy ===== *)
theory Axil_Request
  imports Axil_Respond Axil_Route
begin

text \<open>
  Requests: \<open>request_handle\<close> (\<open>src/libaxil.c\<close> 2311 to 2516) with the buffering of a body (2222 to
  2273), and authentication (\<open>src/axil-posix.c\<close> 184 to 191 and 354 to 367).

  The parts that other theories model are composed in the order of the code: target check, headers,
  body, authentication, trailing slash, proxied WebSocket, static file, listing, redirect,
  registered handler, default handler, fallbacks, 404.  What the server is configured with is the
  record \<open>site\<close>: the tables, the platform's files, and the handlers with what calling them does.
  The environment of the descriptor is threaded beside the server.
\<close>

section \<open>Configuration\<close>

record ('m, 'h) site =
  w_q :: "'m string_map"
  w_euid_nonzero :: bool
  w_chroot :: "string option"
  w_fs :: fs
  w_fnmatch :: "string \<Rightarrow> string \<Rightarrow> bool"
  w_statics :: "string option"
  w_autoindex :: "string option"
  w_cache :: "string option"
  w_mime :: "string \<Rightarrow> string option"
  w_http_date :: "int \<Rightarrow> string"
  w_now :: int
  w_content :: "string \<Rightarrow> string option"
  w_readdir :: "string \<Rightarrow> string list option"
  w_ssl :: bool
  w_ssl_only :: bool
  w_max_body :: nat
  w_check :: "('m \<Rightarrow> string option) option"
  w_getpwnam :: "string \<Rightarrow> passwd option"
  w_ws :: "string \<Rightarrow> (nat \<Rightarrow> int) option"
  w_handlers :: "(string \<times> 'h option) list"
  w_call :: "'h \<Rightarrow> nat \<Rightarrow> string \<Rightarrow> 'm \<Rightarrow> server \<Rightarrow> bool \<times> server"
  w_default :: "'h option"
  w_fallbacks :: "'h list"

definition AXIL_POST :: flagw where "AXIL_POST = 1"

definition AXIL_PUT :: flagw where "AXIL_PUT = 2"

definition AXIL_DELETE :: flagw where "AXIL_DELETE = 4"

definition AXIL_HEAD :: flagw where "AXIL_HEAD = 8"

definition req_method :: "flagw \<Rightarrow> string" where
  "req_method fl =
     (if has fl AXIL_POST then ''POST'' else if has fl AXIL_PUT then ''PUT''
      else if has fl AXIL_DELETE then ''DELETE'' else if has fl AXIL_HEAD then ''HEAD'' else ''GET'')"

section \<open>Authentication\<close>

definition axil_auth ::
  "'m string_map \<Rightarrow> (string \<Rightarrow> passwd option) \<Rightarrow> nat \<Rightarrow> string \<Rightarrow> 'm \<Rightarrow> server \<Rightarrow> int \<times> 'm \<times> server" where
  "axil_auth q getpwnam i username env s =
     (let name = take BUFSIZ username;
          s1 = upd_descr i (\<lambda>d. add_flags DF_AUTHENTICATED (d\<lparr>d_user := name\<rparr>)) s;
          env1 = snd (axil_env_put q env ''REMOTE_USER'' (Some name)) in
      case getpwnam name of
        None \<Rightarrow> (1, env1, s1)
      | Some pw \<Rightarrow> (0, env1, upd_descr i (\<lambda>d. d\<lparr>d_pw := Some pw\<rparr>) s1))"

definition platform_auth_try ::
  "'m string_map \<Rightarrow> (string \<Rightarrow> passwd option) \<Rightarrow> ('m \<Rightarrow> string option) option \<Rightarrow> nat \<Rightarrow> 'm \<Rightarrow> server \<Rightarrow> 'm \<times> server" where
  "platform_auth_try q getpwnam check i env s =
     (case check of
        None \<Rightarrow> (env, s)
      | Some c \<Rightarrow>
          (case c env of
             None \<Rightarrow> (env, s)
           | Some user \<Rightarrow> snd (axil_auth q getpwnam i user env s)))"

section \<open>The body\<close>

text \<open>\<open>strtoul(s, NULL, 10)\<close>: blanks, a sign, digits; a value that does not fit gives the greatest.\<close>

definition ULONG_MAX :: nat where
  "ULONG_MAX = 2 ^ 64 - 1"

definition strtoul10 :: "string \<Rightarrow> nat" where
  "strtoul10 s =
     (let t = dropWhile isspace s;
          neg = (t \<noteq> [] \<and> hd t = CHR ''-'');
          u = (if t \<noteq> [] \<and> (hd t = CHR ''-'' \<or> hd t = CHR ''+'') then tl t else t);
          n = dec_value 0 (takeWhile isdigit u) in
      if ULONG_MAX < n then ULONG_MAX else if neg \<and> n \<noteq> 0 then 2 ^ 64 - n else n)"

function post_fill ::
  "(nat \<Rightarrow> bool) \<Rightarrow> nat \<Rightarrow> kread list \<Rightarrow> string \<Rightarrow> nat \<Rightarrow> bool \<times> string \<times> nat" where
  "post_fill alloc needed as block len =
     (if needed \<le> len then (True, block, len)
      else case recv_from as BUFSIZ of
          (RErr e, _) \<Rightarrow> (False, block, len)
        | (Got b, as') \<Rightarrow>
            if b = [] then (False, block, len)
            else
              let grow = length block < len + length b; sz = (len + length b) * 2 in
              if grow \<and> \<not> alloc sz then (False, block, len)
              else
                let blk = (if grow then take sz block @ replicate (sz - length block) NUL else block) in
                post_fill alloc needed as' (take len blk @ b @ drop (len + length b) blk) (len + length b))"
  by pat_completeness auto
termination
  by (relation "measure (\<lambda>(alloc, needed, as, block, len). needed - len)") (auto intro!: diff_less_mono2)

declare post_fill.simps [simp del]

definition AXIL_DEFAULT_MAX_BODY_SIZE :: nat where
  "AXIL_DEFAULT_MAX_BODY_SIZE = 10 * 1024 * 1024"

text \<open>Whether the request goes on, and the server; \<open>len\<close> is \<open>input_len\<close>, \<open>rest\<close> the offset of
  \<open>argv[argc]\<close> in the block.\<close>

definition buffer_post_body ::
  "'m string_map \<Rightarrow> nat \<Rightarrow> kernel \<Rightarrow> nat \<Rightarrow> nat \<Rightarrow> nat \<Rightarrow> nat \<Rightarrow> 'm \<Rightarrow> server \<Rightarrow> (bool \<times> server) run" where
  "buffer_post_body q max_body k i rest body_start len env s =
     (case axil_env_get q env 32 ''HTTP_CONTENT_LENGTH'' of
        (_, None) \<Rightarrow> Done (True, s)
      | (_, Some v) \<Rightarrow>
          if v = [] then Done (True, s)
          else
            let n = strtoul10 v;
                limit = (if max_body \<noteq> 0 then max_body else AXIL_DEFAULT_MAX_BODY_SIZE) in
            if limit < n then
              bind_run (axil_respond k i 413 (Some []) (axil_set_flags i DF_TO_CLOSE (header_set i ''Connection'' ''close'' s)))
                (\<lambda>s1. Done (False, s1))
            else
              let needed = rest + body_start + 1 + n in
              if len < needed \<and> io s i = NoIo then NullCall
              else case post_fill (k_alloc k) needed (k_recv k i) (input s) len of
                (ok, block, _) \<Rightarrow>
                  let s1 = s\<lparr>input := block\<rparr> in
                  Done (ok, if ok then s1 else axil_close k (int i) s1))"

section \<open>Handlers\<close>

definition method_key :: "string \<Rightarrow> string \<Rightarrow> string" where
  "method_key method uri = snprintf_trunc 16384 (method @ '':'' @ uri)"

text \<open>The handler of a request and the environment with its captures.\<close>

definition find_handler ::
  "('m, 'h) site \<Rightarrow> string \<Rightarrow> string \<Rightarrow> bool \<Rightarrow> 'm \<Rightarrow> 'h option \<times> 'm" where
  "find_handler w method uri is_head env =
     (let put = (\<lambda>e key v. snd (axil_env_put (w_q w) e key (Some v)));
          key0 = map_of (w_handlers w) (method_key method uri);
          key1 = (if key0 = None \<and> is_head then map_of (w_handlers w) (method_key ''GET'' uri) else key0);
          key = (if key1 = None then map_of (w_handlers w) uri else key1) in
      case key of
        Some h \<Rightarrow> (h, env)
      | None \<Rightarrow>
          (case axil_match_pattern (w_handlers w) put (method_key method uri) uri env of
             (Some h, env1) \<Rightarrow> (Some h, env1)
           | (None, env1) \<Rightarrow>
               if is_head then axil_match_pattern (w_handlers w) put (method_key ''GET'' uri) uri env1
               else (None, env1)))"

fun try_fallbacks ::
  "('h \<Rightarrow> nat \<Rightarrow> string \<Rightarrow> 'm \<Rightarrow> server \<Rightarrow> bool \<times> server) \<Rightarrow> 'h list \<Rightarrow> nat \<Rightarrow> string \<Rightarrow> 'm \<Rightarrow> server \<Rightarrow> bool \<times> server" where
  "try_fallbacks call [] i body env s = (False, s)"
| "try_fallbacks call (h # hs) i body env s =
     (case call h i body env s of (done, s1) \<Rightarrow> if done then (True, s1) else try_fallbacks call hs i body env s1)"

definition FALLBACK_MAX :: nat where
  "FALLBACK_MAX = 16"

definition axil_register_fallback_handler :: "'h \<Rightarrow> 'h list \<Rightarrow> int \<times> 'h list" where
  "axil_register_fallback_handler h hs =
     (if FALLBACK_MAX \<le> length hs then (- 1, hs) else (0, hs @ [h]))"

definition request_dispatch ::
  "('m, 'h) site \<Rightarrow> kernel \<Rightarrow> nat \<Rightarrow> string \<Rightarrow> string \<Rightarrow> bool \<Rightarrow> string \<Rightarrow> 'm \<Rightarrow> server \<Rightarrow> ('m \<times> server) run" where
  "request_dispatch w k i method uri is_head body env s =
     (case find_handler w method uri is_head env of
        (Some h, env1) \<Rightarrow> Done (env1, snd (w_call w h i body env1 s))
      | (None, env1) \<Rightarrow>
          (case w_default w of
             Some h \<Rightarrow> Done (env1, snd (w_call w h i body env1 s))
           | None \<Rightarrow>
               (case try_fallbacks (w_call w) (w_fallbacks w) i body env1 s of
                  (True, s1) \<Rightarrow> Done (env1, s1)
                | (False, s1) \<Rightarrow>
                    bind_run (axil_respond k i 404 (Some (''404 Not Found'' @ [LF])) s1) (\<lambda>s2. Done (env1, s2)))))"

section \<open>The request\<close>

text \<open>What follows the tests on the target, the body and the trailing slash (lines 2382 to 2515).\<close>

definition request_static ::
  "('m, 'h) site \<Rightarrow> kernel \<Rightarrow> nat \<Rightarrow> string \<Rightarrow> string \<Rightarrow> bool \<Rightarrow> string \<Rightarrow> 'm \<Rightarrow> server \<Rightarrow> ('m \<times> server) run" where
  "request_static w k i method uri is_head body env s =
     (let date = w_http_date w (w_now w); keep = (\<lambda>t. Done (env, t)) in
      case request_handle_static (w_q w) (w_fs w) (w_fnmatch w) (w_statics w) (w_cache w) (w_mime w) (w_http_date w) env uri of
        NotModified etag last_mod cache_ctl \<Rightarrow> bind_run (static_not_modified k i date etag last_mod cache_ctl s) keep
      | SendFile filename content_type st etag last_mod cache_ctl \<Rightarrow>
          bind_run (static_write k i date ''200 OK'' content_type (w_content w filename) (st_size st) etag last_mod cache_ctl s) keep
      | NotStatic \<Rightarrow>
          (case autoindex_allowed (w_fs w) (w_fnmatch w) (w_statics w) (w_autoindex w) uri of
             Some fs_path \<Rightarrow> bind_run (request_handle_autoindex (w_readdir w) k i date uri fs_path s) keep
           | None \<Rightarrow>
               bind_run (request_handle_redirect (w_ssl_only w) (w_ssl w) k i (env_host (w_q w) env) uri s)
                 (\<lambda>(done, s1). if done then Done (env, s1) else request_dispatch w k i method uri is_head body env s1)))"

definition request_serve ::
  "('m, 'h) site \<Rightarrow> kernel \<Rightarrow> nat \<Rightarrow> string list \<Rightarrow> string \<Rightarrow> string \<Rightarrow> string \<Rightarrow> bool \<Rightarrow> string \<Rightarrow> 'm \<Rightarrow> server
     \<Rightarrow> ('m \<times> server) run" where
  "request_serve w k i argv method uri param is_head body env s =
     (let ws = (case w_ws w (method_key method uri) of Some h \<Rightarrow> Some h | None \<Rightarrow> w_ws w uri) in
      case env_prep (w_q w) (w_euid_nonzero w) (w_chroot w) (map_option pw_dir (d_pw (descr_map s i))) env uri param method of
        None \<Rightarrow> Overruns
      | Some env1 \<Rightarrow>
          (case ws of
             Some connect \<Rightarrow>
               let upstream = connect i;
                   s1 = (if upstream = - 1 then s else emit [EvOpenFd upstream] s) in
               Done (env1, ws_proxy_start k i (argv ! 0) (argv ! 1) (q_get (w_q w) env1 ''HTTP_SEC_WEBSOCKET_KEY'') upstream s1)
           | None \<Rightarrow>
               request_static w k i method uri is_head body env1
                 (if has (d_flags (descr_map s i)) DF_WEBSOCKET then s else mark_close i s)))"

text \<open>\<open>argv\<close> are the words of the request line, \<open>rest\<close> the offset in the input of what follows it, \<open>len\<close> the
  number of bytes read; the text of headers and body is the input seen as C strings from there.\<close>

definition request_handle ::
  "('m, 'h) site \<Rightarrow> kernel \<Rightarrow> nat \<Rightarrow> string list \<Rightarrow> nat \<Rightarrow> nat \<Rightarrow> flagw \<Rightarrow> 'm \<Rightarrow> server \<Rightarrow> ('m \<times> server) run" where
  "request_handle w k i argv rest len req_flags env s =
     (let method = req_method req_flags; is_head = has req_flags AXIL_HEAD;
          s0 = (if method = ''HEAD'' then upd_descr i (add_flags DF_HEAD) s else s) in
      if length argv < 2 then Done (env, axil_close k (int i) s0)
      else case request_target (argv ! 1) of
          TargetClosed \<Rightarrow> Done (env, axil_close k (int i) s0)
        | TargetTooLong \<Rightarrow>
            bind_run (axil_respond k i 414 (Some ''URI Too Long'') s0) (\<lambda>s1. Done (env, axil_close k (int i) s1))
        | Target uri param \<Rightarrow>
            (case headers_get (w_q w) env (cstr_at (input s0) rest) of
               None \<Rightarrow> Overruns
             | Some (env1, body_start) \<Rightarrow>
                 bind_run (if has req_flags (AXIL_POST OR AXIL_PUT OR AXIL_DELETE)
                           then buffer_post_body (w_q w) (w_max_body w) k i rest body_start len env1 s0 else Done (True, s0))
                   (\<lambda>(go, s1).
                     if \<not> go then Done (env1, s1)
                     else case platform_auth_try (w_q w) (w_getpwnam w) (w_check w) i env1 s1 of
                       (env2, s2) \<Rightarrow>
                         bind_run (request_handle_trailing_slash (static_allowed (w_fs w) (w_fnmatch w) (w_statics w)) k i
                             (env_host (w_q w) env2) uri s2)
                           (\<lambda>(done, s3).
                             if done then Done (env2, s3)
                             else request_serve w k i argv method uri param is_head
                                    (cstr_at (input s3) (rest + body_start + 1)) env2 s3))))"

section \<open>Requests keep the table sound\<close>

lemma auth_effect:
  assumes "platform_auth_try q gp check i env s = (env', s')"
  shows "server_ok s \<Longrightarrow> server_ok s'" and "tunnel_pair s' = tunnel_pair s" and "live s' = live s"
    and "d_fd (descr_map s' j) = d_fd (descr_map s j)"
  using assms by (auto simp: platform_auth_try_def axil_auth_def Let_def intro!: server_ok_upd split: option.splits)

lemma same_input [simp]: "\<exists>b. (s :: server) = s\<lparr>input := b\<rparr>"
  by (rule exI [of _ "input s"]) simp

lemma buffer_post_body_ok:
  assumes "server_ok s" "tunnel_pair s i = - 1" "buffer_post_body q mb k i rest bs len env s = Done (go, s')"
  shows "server_ok s' \<and> (go \<longrightarrow> (\<exists>b. s' = s\<lparr>input := b\<rparr>))"
proof -
  have "server_ok (axil_set_flags i DF_TO_CLOSE (header_set i ''Connection'' ''close'' s))"
    by (rule set_flags_ok [OF header_set_ok [OF assms(1)]]) (simp add: header_set_def assms(2))
  then have "axil_respond k i 413 (Some []) (axil_set_flags i DF_TO_CLOSE (header_set i ''Connection'' ''close'' s)) = Done s1
      \<Longrightarrow> server_ok s1" for s1 by (rule axil_respond_ok)
  then show ?thesis
    using assms(1,3)
    by (auto simp: buffer_post_body_def Let_def bind_run_Done intro!: server_ok_close same_input
        split: prod.splits option.splits if_splits)
qed

text \<open>What the handlers of a site are asked: whatever they do to the table leaves it sound, and an
  upstream they connect is a descriptor the kernel had not given out.\<close>

definition site_ok :: "('m, 'h) site \<Rightarrow> nat \<Rightarrow> server \<Rightarrow> bool" where
  "site_ok w i s \<longleftrightarrow> (\<forall>h b e t. server_ok t \<longrightarrow> server_ok (snd (w_call w h i b e t)))
     \<and> (\<forall>key c. w_ws w key = Some c \<longrightarrow> c i = - 1 \<or> 0 \<le> c i \<and> c i \<notin> live s)"

lemma try_fallbacks_ok:
  "(\<And>h t. server_ok t \<Longrightarrow> server_ok (snd (call h i body env t))) \<Longrightarrow> server_ok s \<Longrightarrow>
     server_ok (snd (try_fallbacks call hs i body env s))"
proof (induction hs arbitrary: s)
  case (Cons h hs)
  obtain d s1 where c: "call h i body env s = (d, s1)" by fastforce
  with Cons.prems(1) [of s h] Cons.prems(2) have "server_ok s1" by simp
  then show ?case using Cons c by simp
qed simp

lemma request_dispatch_ok:
  assumes "server_ok s" "\<And>h b e t. server_ok t \<Longrightarrow> server_ok (snd (w_call w h i b e t))"
    "request_dispatch w k i m uri ih body env s = Done (env', s')"
  shows "server_ok s'"
proof -
  obtain h env1 where f: "find_handler w m uri ih env = (h, env1)" by fastforce
  obtain d s1 where t: "try_fallbacks (w_call w) (w_fallbacks w) i body env1 s = (d, s1)" by fastforce
  have "server_ok (snd (try_fallbacks (w_call w) (w_fallbacks w) i body env1 s))"
    by (rule try_fallbacks_ok) (use assms(1,2) in auto)
  then have "server_ok s1" using t by simp
  then show ?thesis
    using assms f t by (auto simp: request_dispatch_def bind_run_Done intro: axil_respond_ok split: option.splits bool.splits)
qed

lemma request_static_ok:
  assumes "server_ok s" "\<And>h b e t. server_ok t \<Longrightarrow> server_ok (snd (w_call w h i b e t))"
    "request_static w k i m uri ih body env s = Done (env', s')"
  shows "server_ok s'"
proof -
  have redirect: "server_ok s1" if "request_handle_redirect so ss k i h uri s = Done (d, s1)" for so ss h d s1
    using redirect_ok [OF assms(1) that] by simp
  have dispatch: "server_ok s'" if "server_ok s1" "request_dispatch w k i m uri ih body env s1 = Done (env', s')" for s1
    by (rule request_dispatch_ok [OF that(1) assms(2) that(2)])
  let ?o = "request_handle_static (w_q w) (w_fs w) (w_fnmatch w) (w_statics w) (w_cache w) (w_mime w) (w_http_date w) env uri"
  show ?thesis
  proof (cases ?o)
    case NotStatic
    show ?thesis
    proof (cases "autoindex_allowed (w_fs w) (w_fnmatch w) (w_statics w) (w_autoindex w) uri")
      case None
      with NotStatic assms(3) obtain d s1
        where r: "request_handle_redirect (w_ssl_only w) (w_ssl w) k i (env_host (w_q w) env) uri s = Done (d, s1)"
          "if d then s' = s1 else request_dispatch w k i m uri ih body env s1 = Done (env', s')"
        by (auto simp: request_static_def Let_def bind_run_Done split: if_splits)
      from redirect [OF r(1)] r(2) dispatch show ?thesis by (cases d) simp_all
    next
      case (Some fs_path)
      with NotStatic assms(1,3) show ?thesis
        by (auto simp: request_static_def Let_def bind_run_Done intro: autoindex_ok)
    qed
  qed (use assms(1,3) in \<open>auto simp: request_static_def Let_def bind_run_Done intro: static_not_modified_ok static_write_ok\<close>)
qed

lemma request_serve_ok:
  assumes "server_ok s" "site_ok w i s" "i < FD_SETSIZE" "tunnel_pair s i = - 1" "d_fd (descr_map s i) = int i"
    "int i \<in> live s" "k_malloc k" "request_serve w k i argv m uri param ih body env s = Done (env', s')"
  shows "server_ok s'"
proof -
  have call: "server_ok t \<Longrightarrow> server_ok (snd (w_call w h i b e t))" for h b e t
    using assms(2) by (simp add: site_ok_def)
  have ws: "server_ok (ws_proxy_start k i a0 a1 key (c i) (if c i = - 1 then s else emit [EvOpenFd (c i)] s))"
    if "w_ws w name = Some c" for name c a0 a1 key
  proof (cases "c i = - 1")
    case True
    then show ?thesis using assms(1) by (simp add: ws_proxy_start_def)
  next
    case False
    then have "0 \<le> c i" "c i \<notin> live s" using assms(2) that by (auto simp: site_ok_def)
    with False show ?thesis using assms by (auto intro!: proxy_start_ok)
  qed
  have marked: "server_ok (if has (d_flags (descr_map s i)) DF_WEBSOCKET then s else mark_close i s)"
    using assms(1) by (simp add: mark_close_ok)
  have st: "server_ok s'" if "request_static w k i m uri ih body e1
      (if has (d_flags (descr_map s i)) DF_WEBSOCKET then s else mark_close i s) = Done (env', s')" for e1
    by (rule request_static_ok [OF marked call that])
  show ?thesis
    using assms(8) ws st unfolding request_serve_def Let_def by (auto split: option.splits)
qed

text \<open>A request handled on a connection that is open and in no pair leaves the whole descriptor
  table sound, whatever the request, the configuration and the answers of the kernel are, if the handlers do
  and upstreams are fresh: pairs stay symmetric and marked, and only open descriptors are waited
  on.  Rejections, oversized and truncated bodies, redirects, files, listings, proxied
  WebSockets and handlers are all included.\<close>

lemma request_handle_ok:
  assumes "server_ok s" "site_ok w i s" "i < FD_SETSIZE" "tunnel_pair s i = - 1" "d_fd (descr_map s i) = int i"
    "int i \<in> live s" "k_malloc k" "request_handle w k i argv rest len fl env s = Done (env', s')"
  shows "server_ok s'"
proof -
  define s0 where "s0 = (if req_method fl = ''HEAD'' then upd_descr i (add_flags DF_HEAD) s else s)"
  have s0: "server_ok s0" "tunnel_pair s0 i = - 1" "d_fd (descr_map s0 i) = int i" "live s0 = live s"
    using assms(1,4,5) by (auto simp: s0_def intro!: server_ok_upd)
  note def = request_handle_def [of w k i argv rest len fl env s, unfolded Let_def, folded s0_def]
  have long: "server_ok (axil_close k (int i) s1)" if "axil_respond k i 414 (Some ''URI Too Long'') s0 = Done s1" for s1
    using axil_respond_ok [OF s0(1) that] by (simp add: server_ok_close)
  have target: "server_ok s'" if asm: "length argv \<ge> 2" "request_target (argv ! 1) = Target uri param" for uri param
  proof -
    obtain env1 bs where h: "headers_get (w_q w) env (cstr_at (input s0) rest) = Some (env1, bs)"
      using assms(8) asm by (auto simp: def split: option.splits)
    obtain go s1 where b: "(if has fl (AXIL_POST OR AXIL_PUT OR AXIL_DELETE)
        then buffer_post_body (w_q w) (w_max_body w) k i rest bs len env1 s0 else Done (True, s0)) = Done (go, s1)"
      "go \<or> s' = s1"
      using assms(8) asm h by (auto simp: def bind_run_Done split: if_splits)
    have "server_ok s1 \<and> (go \<longrightarrow> (\<exists>x. s1 = s0\<lparr>input := x\<rparr>))"
    proof (cases "has fl (AXIL_POST OR AXIL_PUT OR AXIL_DELETE)")
      case True
      with b(1) show ?thesis by (simp add: buffer_post_body_ok [OF s0(1,2)])
    next
      case False
      with b(1) s0(1) show ?thesis by simp
    qed
    then have s1: "server_ok s1" "go \<longrightarrow> (\<exists>x. s1 = s0\<lparr>input := x\<rparr>)" by simp_all
    show ?thesis
    proof (cases go)
      case False
      then show ?thesis using b(2) s1 by simp
    next
      case True
      obtain env2 s2 where a: "platform_auth_try (w_q w) (w_getpwnam w) (w_check w) i env1 s1 = (env2, s2)" by fastforce
      obtain fin s3 where t: "request_handle_trailing_slash (static_allowed (w_fs w) (w_fnmatch w) (w_statics w)) k i
          (env_host (w_q w) env2) uri s2 = Done (fin, s3)"
        "if fin then s' = s3 else request_serve w k i argv (req_method fl) uri param (has fl AXIL_HEAD)
            (cstr_at (input s3) (rest + bs + 1)) env2 s3 = Done (env', s')"
        using assms(8) asm h b(1) True a by (auto simp: def bind_run_Done split: if_splits)
      note e = auth_effect [OF a]
      have "server_ok s2" using e(1) s1(1) by simp
      from trailing_slash_ok [OF this t(1)] have t3: "server_ok s3" "\<not> fin \<longrightarrow> s3 = s2" by auto
      have s2: "tunnel_pair s2 i = - 1" "d_fd (descr_map s2 i) = int i" "live s2 = live s"
        using e(2-4) s1(2) True s0 by auto
      have site: "site_ok w i s2" using assms(2) s2(3) by (simp add: site_ok_def)
      have serve: "server_ok s'" if "request_serve w k i argv (req_method fl) uri param (has fl AXIL_HEAD)
            (cstr_at (input s2) (rest + bs + 1)) env2 s2 = Done (env', s')"
        by (rule request_serve_ok [OF \<open>server_ok s2\<close> site assms(3) s2(1,2) _ assms(7) that]) (simp add: assms(6) s2(3))
      show ?thesis
      proof (cases fin)
        case True
        then show ?thesis using t(2) t3 by simp
      next
        case False
        then show ?thesis using t(2) t3 by (auto intro: serve)
      qed
    qed
  qed
  show ?thesis
  proof (cases "length argv < 2 \<or> request_target (argv ! 1) = TargetClosed")
    case True
    then have "request_handle w k i argv rest len fl env s = Done (env, axil_close k (int i) s0)"
      unfolding def by (elim disjE) simp_all
    then show ?thesis using assms(8) s0(1) by (simp add: server_ok_close)
  next
    case False
    then show ?thesis
      using assms(8) target long by (cases "request_target (argv ! 1)") (auto simp: def bind_run_Done simp del: One_nat_def)
  qed
qed

section \<open>A site for the witnesses\<close>

text \<open>A site whose only handler marks the connection, and a request for it.\<close>

definition demo_site :: "((string \<times> string) list, unit) site" where
  "demo_site = \<lparr>w_q = alist_map, w_euid_nonzero = True, w_chroot = Some ''/srv'',
     w_fs = \<lparr>realpath = (\<lambda>p. None), fstat = (\<lambda>p. None)\<rparr>,
     w_fnmatch = (\<lambda>p s. False), w_statics = None,
     w_autoindex = None, w_cache = None, w_mime = (\<lambda>e. None), w_http_date = (\<lambda>t. []), w_now = 0,
     w_content = (\<lambda>p. None), w_readdir = (\<lambda>p. None), w_ssl = False, w_ssl_only = False, w_max_body = 0,
     w_check = None, w_getpwnam = (\<lambda>u. None), w_ws = (\<lambda>key. None), w_handlers = [(''GET:/'', Some ())],
     w_call = (\<lambda>h i b e t. (True, mark_close i t)), w_default = None, w_fallbacks = []\<rparr>"
definition demo_request :: server where
  "demo_request = demo_client\<lparr>input := [CR, LF]\<rparr>"

lemma demo_target: "request_target ''/'' = Target ''/'' []"
proof -
  have "request_path_is_safe ''/''"
    by (simp add: request_path_is_safe_def target_path_def BUFSIZ_def path_fixpoint.simps
        path_hex_def cclass path_bad_byte_def)
  moreover have "axil_url_decode ''/'' BUFSIZ = ''/''"
    by (simp add: axil_url_decode_eq BUFSIZ_def hex_digit_value_def)
  ultimately show ?thesis by (simp add: request_target_def BUFSIZ_def)
qed


lemma demo_headers: "headers_get alist_map [] (cstr_at [CR, LF] 0) = Some ([], 1)"
  by (simp add: headers_get_def cstr_at_def cstr_def)

lemma demo_prep: "\<exists>e. env_prep alist_map True (Some ''/srv'') None [] ''/'' [] ''GET'' = Some e"
  by (simp add: env_prep_def axil_env_get_def alist_map_def env_sane_def BUFSIZ_def env_sane_char_def Let_def cclass)


lemma demo_run: "\<exists>e. request_handle demo_site demo_kernel 5 [''GET'', ''/''] 0 2 0 [] demo_request
    = Done (e, mark_close 5 (mark_close 5 demo_request))"
  using demo_prep
  by (clarsimp simp: request_handle_def Let_def demo_target demo_site_def demo_request_def demo_headers
     req_method_def platform_auth_try_def request_handle_trailing_slash_def request_serve_def demo_client_state
     request_static_def request_handle_static_def static_allowed_def autoindex_allowed_def request_handle_redirect_def
     request_dispatch_def find_handler_def method_key_def snprintf_trunc_def zero_descr_def has_def DF_ACCEPTED_def DF_WEBSOCKET_def)

lemma demo_site_ok: "site_ok demo_site 5 demo_request"
  by (simp add: site_ok_def demo_site_def mark_close_ok)

end
