(* ===== verification/Axil_Exec.thy ===== *)
theory Axil_Exec
  imports Axil_Respond
begin

text \<open>
  Programs run for a request (\<open>src/axil-posix.c\<close> 65 to 83 and 369 to 590): the environment and the
  identity a child gets, \<open>popen2\<close>, and the passes of \<open>axil_exec_loop\<close> that relay its output.

  The kernel answers through scripts: \<open>spawn\<close> is what \<open>pipe\<close> and \<open>fork\<close> give, each \<open>poll\<close> is a
  reading of the clock with what \<open>select\<close> reports, and each pipe has a list of read answers.  The
  callback of the request is a function on the server.  The fields of \<open>struct descr\<close> for the child
  are fields of \<open>descr\<close>.
\<close>

section \<open>Environment and identity of the child\<close>

definition ENV_CAP :: nat where
  "ENV_CAP = 255"

text \<open>\<open>axil_env_prep\<close> on the pairs in the order the table gives them: \<open>None\<close> when a store leaves the
  array, the terminating null pointer included.\<close>

definition axil_env_prep :: "(string \<times> string) list \<Rightarrow> string list option" where
  "axil_env_prep pairs =
     (if ENV_CAP \<le> length pairs then None
      else Some (map (\<lambda>(k, v). snprintf_trunc ENV_LEN (k @ ''='' @ v)) pairs))"

text \<open>Who the child runs as: unchanged, or the name given to \<open>initgroups\<close> with the group and the user
  it sets.  The \<open>struct passwd\<close> of a user without an entry is all zero.\<close>

datatype identity = SameIds | SetIds "string option" nat nat

definition drop_priviledges :: "bool \<Rightarrow> nat \<Rightarrow> passwd \<Rightarrow> nat \<Rightarrow> server \<Rightarrow> identity" where
  "drop_priviledges chrooted euid own_pw i s =
     (let d = descr_map s i;
          pw = (if has (d_flags d) DF_AUTHENTICATED then d_pw d else Some own_pw) in
      if \<not> chrooted then SameIds
      else if euid \<noteq> 0 then SameIds
      else case pw of
          Some p \<Rightarrow> SetIds (Some (pw_name p)) (pw_gid p) (pw_uid p)
        | None \<Rightarrow> SetIds None 0 0)"

section \<open>Starting a program\<close>

text \<open>\<open>NoChild\<close> lists the pipe ends made before \<open>pipe\<close> or \<open>fork\<close> failed; \<open>Child\<close> gives the process and
  the parent's ends of its input, output and error pipes.\<close>

datatype spawn = NoChild "int list" | Child int int int int

definition popen2 :: "spawn \<Rightarrow> nat \<Rightarrow> server \<Rightarrow> int \<times> server" where
  "popen2 sp i s =
     (case sp of
        NoChild ends \<Rightarrow> (- 1, emit (map EvOpenFd ends) s)
      | Child p pin pout perr \<Rightarrow>
          (p, upd_descr i (\<lambda>d. d\<lparr>d_pipe_in := pin, d_pipe_out := pout, d_pipe_err := perr\<rparr>)
                (emit [EvOpenFd pin, EvOpenFd pout, EvOpenFd perr] s)))"

definition axil_exec :: "spawn \<Rightarrow> int \<Rightarrow> nat \<Rightarrow> string option \<Rightarrow> server \<Rightarrow> server" where
  "axil_exec sp now i inp s =
     (case popen2 sp i s of
        (p, s1) \<Rightarrow>
          let fd = d_pipe_in (descr_map s1 i);
              s2 = upd_descr i (\<lambda>d. d\<lparr>d_epid := p, d_mask := 3\<rparr>) s1;
              s3 = (case inp of None \<Rightarrow> s2 | Some b \<Rightarrow> emit [EvPipeWrite fd b] s2);
              s4 = upd_descr i (\<lambda>d. d\<lparr>d_sor := now, d_total := 0\<rparr>) (emit [EvCloseFd fd] s3) in
          s4\<lparr>fds_wactive := insert i (fds_wactive s4)\<rparr>)"

section \<open>Relaying its output\<close>

definition EXEC_BUF :: nat where
  "EXEC_BUF = BUFSIZ * 64"

definition total_timeout :: int where
  "total_timeout = 40"

type_synonym exec_callback = "nat \<Rightarrow> string \<Rightarrow> bool \<Rightarrow> server \<Rightarrow> server run"

text \<open>The result, the error left in \<open>errno\<close>, the answers not used, the server.\<close>

definition cb_proc ::
  "exec_callback \<Rightarrow> nat \<Rightarrow> kread list \<Rightarrow> bool \<Rightarrow> server \<Rightarrow> (int \<times> errno option \<times> kread list \<times> server) run" where
  "cb_proc cb i as ofd s =
     (case recv_from as (EXEC_BUF - 1) of
        (RErr e, as') \<Rightarrow> Done (- 1, Some e, as', s)
      | (Got b, as') \<Rightarrow>
          if b = [] then Done (0, None, as', s)
          else bind_run (cb i b ofd s) (\<lambda>s1. Done (int (length b), None, as', s1)))"

datatype poll_ans = PollReady "int list" | PollFail

text \<open>What one turn of the loop ends with: a return to the main loop, the end of the program, or
  another turn.\<close>

datatype exec_next = Wait | Finish | Again

definition gateway_timeout :: string where
  "gateway_timeout = ''504 Gateway Timeout'' @ CRLF @ ''Content-Type: text/plain'' @ CRLF
     @ ''Content-Length: 26'' @ CRLF @ CRLF @ ''Code 504: Gateway Timeout'' @ [LF]"

text \<open>The pipes \<open>select\<close> is asked about, of which it looks at those up to the output pipe.\<close>

definition poll_set :: "descr \<Rightarrow> int list" where
  "poll_set d = filter (\<lambda>fd. fd < d_pipe_out d + 1)
     ((if has (d_mask d) 1 then [d_pipe_out d] else []) @ (if has (d_mask d) 2 then [d_pipe_err d] else []))"

definition exec_read ::
  "exec_callback \<Rightarrow> nat \<Rightarrow> bool \<Rightarrow> kread list \<Rightarrow> kread list \<Rightarrow> server
     \<Rightarrow> (exec_next \<times> kread list \<times> kread list \<times> server) run" where
  "exec_read cb i is_out outs errs s =
     bind_run (cb_proc cb i (if is_out then outs else errs) is_out s) (\<lambda>(n, err, rest, s1).
       let outs' = (if is_out then rest else outs); errs' = (if is_out then errs else rest) in
       Done (
         if 0 < n then (Wait, outs', errs', upd_descr i (\<lambda>d. d\<lparr>d_total := d_total d + nat n\<rparr>) s1)
         else if err = Some EAGAIN then
           (Wait, outs', errs', s1\<lparr>fds_active := insert i (fds_active s1), fds_read := insert i (fds_read s1)\<rparr>)
         else if is_out then (Finish, outs', errs', upd_descr i (\<lambda>d. d\<lparr>d_mask := d_mask d AND NOT 1\<rparr>) s1)
         else (Again, outs', errs', upd_descr i (\<lambda>d. d\<lparr>d_mask := d_mask d AND NOT 2\<rparr>) s1)))"

definition exec_step ::
  "exec_callback \<Rightarrow> kernel \<Rightarrow> nat \<Rightarrow> int \<Rightarrow> poll_ans \<Rightarrow> kread list \<Rightarrow> kread list \<Rightarrow> server
     \<Rightarrow> (exec_next \<times> kread list \<times> kread list \<times> server) run" where
  "exec_step cb k i now ans outs errs s =
     (let d = descr_map s i in
      if d_mask d = 0 then Done (Finish, outs, errs, s)
      else if total_timeout \<le> now - d_sor d then
        bind_run (axil_writef k i gateway_timeout s) (\<lambda>s1. Done (Finish, outs, errs, s1))
      else case ans of
          PollFail \<Rightarrow> Done (Finish, outs, errs, s)
        | PollReady fds \<Rightarrow>
            let ready = filter (\<lambda>fd. fd \<in> set fds) (poll_set d) in
            if ready = [] then Done (Wait, outs, errs, s)
            else exec_read cb i (d_pipe_out d \<in> set ready) outs errs s)"

fun exec_poll ::
  "exec_callback \<Rightarrow> kernel \<Rightarrow> nat \<Rightarrow> (int \<times> poll_ans) list \<Rightarrow> kread list \<Rightarrow> kread list \<Rightarrow> server
     \<Rightarrow> (exec_next \<times> kread list \<times> server) run" where
  "exec_poll cb k i [] outs errs s =
     Done (if d_mask (descr_map s i) = 0 then Finish else Wait, errs, s)"
| "exec_poll cb k i ((now, ans) # polls) outs errs s =
     bind_run (exec_step cb k i now ans outs errs s) (\<lambda>(nx, outs', errs', s1).
       if nx = Again then exec_poll cb k i polls outs' errs' s1 else Done (nx, errs', s1))"

text \<open>The text of the error pipe as it is formatted: the read puts no NUL after it, so what the
  buffer on the stack held follows.  \<open>None\<close> when no NUL is met in the buffer.\<close>

definition error_text :: "kread list \<Rightarrow> string \<Rightarrow> string option" where
  "error_text errs stack =
     (let b = (case fst (recv_from errs (EXEC_BUF - 1)) of Got b \<Rightarrow> b | RErr e \<Rightarrow> []);
          buf = take EXEC_BUF (b @ drop (length b) stack) in
      if NUL \<in> set buf then Some (cstr buf) else None)"

definition internal_error :: "string \<Rightarrow> string" where
  "internal_error txt = ''500 Internal Server Error'' @ CRLF @ ''Content-Type: text/plain'' @ CRLF
     @ ''Content-Length: '' @ show_nat (length txt + 37) @ CRLF @ CRLF
     @ ''Code 500: Internal Server Error:'' @ [LF] @ txt @ [LF]"

definition exec_finish ::
  "exec_callback \<Rightarrow> kernel \<Rightarrow> nat \<Rightarrow> kread list \<Rightarrow> string \<Rightarrow> server \<Rightarrow> (int \<times> server) run" where
  "exec_finish cb k i errs stack s =
     bind_run
       (if d_total (descr_map s i) = 0 then
          (case error_text errs stack of
             None \<Rightarrow> Overruns
           | Some txt \<Rightarrow> bind_run (axil_writef k i (internal_error txt) s) (\<lambda>s1. Done (- 1, s1)))
        else bind_run (cb_proc cb i errs (d_pipe_err (descr_map s i) = d_pipe_out (descr_map s i)) s)
          (\<lambda>(n, err, rest, s1). Done (0, s1)))
       (\<lambda>(ret, s1).
         let d = descr_map s1 i;
             s2 = emit [EvCloseFd (d_pipe_out d), EvCloseFd (d_pipe_err d), EvKill (- d_epid d)] s1;
             s3 = upd_descr i (\<lambda>d. d\<lparr>d_epid := 0, d_pipe_in := 0, d_pipe_out := 0, d_pipe_err := 0\<rparr>) s2 in
         Done (ret, close_when_sent k i (mark_close i (s3\<lparr>fds_wactive := fds_wactive s3 - {i}\<rparr>))))"

definition axil_exec_loop ::
  "exec_callback \<Rightarrow> kernel \<Rightarrow> nat \<Rightarrow> (int \<times> poll_ans) list \<Rightarrow> kread list \<Rightarrow> kread list \<Rightarrow> string \<Rightarrow> server
     \<Rightarrow> (int \<times> server) run" where
  "axil_exec_loop cb k i polls outs errs stack s =
     bind_run (exec_poll cb k i polls outs errs (upd_descr i (clear_flags DF_TO_CLOSE) s)) (\<lambda>(nx, errs', s1).
       if nx = Wait then Done (1, s1) else exec_finish cb k i errs' stack s1)"

section \<open>The output of a program\<close>

lemma poll_set_out: "d_pipe_out d < d_pipe_err d \<Longrightarrow> set (poll_set d) \<subseteq> {d_pipe_out d}"
  by (auto simp: poll_set_def)

lemma exec_step_ignores_errs:
  assumes "d_pipe_out (descr_map s i) < d_pipe_err (descr_map s i)" "exec_step cb k i now ans outs errs s = Done (nx, outs', errs', s')"
  shows "errs' = errs \<and> nx \<noteq> Again \<and> exec_step cb k i now ans outs e s = Done (nx, outs', e, s')"
proof -
  have "d_pipe_out (descr_map s i) \<in> set (filter (\<lambda>fd. fd \<in> A) (poll_set (descr_map s i)))"
    if "filter (\<lambda>fd. fd \<in> A) (poll_set (descr_map s i)) \<noteq> []" for A
    using poll_set_out [OF assms(1)] that by (auto simp: filter_empty_conv)
  then show ?thesis
    using assms(2) by (auto simp: exec_step_def exec_read_def Let_def bind_run_Done split: if_splits poll_ans.splits)
qed

text \<open>A pass that reads nothing from the error pipe does the same whatever waits there.\<close>

lemma exec_poll_ignores_errs:
  assumes "d_pipe_out (descr_map s i) < d_pipe_err (descr_map s i)" "exec_poll cb k i polls outs errs s = Done (nx, errs', s')"
  shows "errs' = errs \<and> exec_poll cb k i polls outs e s = Done (nx, e, s')"
proof (cases polls)
  case Nil
  with assms(2) show ?thesis by auto
next
  case (Cons p ps)
  obtain now ans where p: "p = (now, ans)" by fastforce
  obtain nx1 o1 e1 s1 where st: "exec_step cb k i now ans outs errs s = Done (nx1, o1, e1, s1)"
    using assms(2) unfolding Cons p by (auto simp: bind_run_Done)
  from exec_step_ignores_errs [OF assms(1) st, of e] st assms(2) show ?thesis unfolding Cons p by auto
qed

text \<open>\<open>axil_exec_loop\<close> tells \<open>select\<close> to look no further than the output pipe, so the error pipe, which
  is made after it and has the greater number, is never polled: a pass of the loop leaves what the
  program wrote there unread and does the same whatever that is, until the output pipe ends.\<close>

theorem error_pipe_never_polled:
  assumes "d_pipe_out (descr_map s i) < d_pipe_err (descr_map s i)"
    "axil_exec_loop cb k i polls outs errs stack s = Done (1, s')"
  shows "axil_exec_loop cb k i polls outs errs2 stack2 s = Done (1, s')"
proof -
  let ?s0 = "upd_descr i (clear_flags DF_TO_CLOSE) s"
  have lt: "d_pipe_out (descr_map ?s0 i) < d_pipe_err (descr_map ?s0 i)" using assms(1) by (simp add: clear_flags_def)
  obtain nx e s1 where p: "exec_poll cb k i polls outs errs ?s0 = Done (nx, e, s1)"
    "(if nx = Wait then Done (1, s1) else exec_finish cb k i e stack s1) = Done (1, s')"
    using assms(2) by (auto simp: axil_exec_loop_def bind_run_Done)
  have "exec_finish cb k i e stack s1 \<noteq> Done (1, s')"
    by (auto simp: exec_finish_def bind_run_Done Let_def split: if_splits option.splits)
  with p(2) have "nx = Wait \<and> s' = s1" by (simp split: if_splits)
  with exec_poll_ignores_errs [OF lt p(1)] show ?thesis by (simp add: axil_exec_loop_def)
qed

lemma length_gateway: "length gateway_timeout < BUFSIZ"
  by (simp add: gateway_timeout_def BUFSIZ_def)

text \<open>The answer \<open>axil_exec_loop\<close> gives for a program that wrote nothing has no HTTP version in its first
  line and announces three bytes more than the body it ends with, so a client that trusts the length
  waits for bytes that never come.\<close>

theorem error_reply_short:
  "\<exists>body. body = ''Code 500: Internal Server Error:'' @ [LF] @ txt @ [LF]
     \<and> internal_error txt = ''500 Internal Server Error'' @ CRLF @ ''Content-Type: text/plain'' @ CRLF
         @ ''Content-Length: '' @ show_nat (length body + 3) @ CRLF @ CRLF @ body"
  by (simp add: internal_error_def add.commute)

section \<open>A program and an idle client\<close>

definition relay :: "kernel \<Rightarrow> exec_callback" where
  "relay k i b ofd s = bind_run (axil_write k (int i) b s) (\<lambda>(_, s1). Done s1)"

lemma idle_upd: "d_queue (f (descr_map s i)) = d_queue (descr_map s i) \<Longrightarrow> idle k i (upd_descr i f s) = idle k i s"
  by (simp add: idle_def)

lemma EXEC_BUF_gt: "length b \<le> 65536 \<Longrightarrow> length b \<le> EXEC_BUF - Suc 0"
  by (simp add: EXEC_BUF_def BUFSIZ_def)

lemma recv_short: "length b \<le> n \<Longrightarrow> recv_from (Got b # as) n = (Got b, as)"
  by (simp add: recv_from_def)

lemma relay_proc:
  assumes "idle k i s" "length b \<le> 65536" "b \<noteq> []"
  shows "cb_proc (relay k) i [Got b] ofd s = Done (int (length b), None, [], emit (sent_events i b) s)"
  using assms idle_write [OF assms(1,2)] by (simp add: cb_proc_def recv_short EXEC_BUF_gt relay_def)

text \<open>A pass that finds a chunk in the output pipe.\<close>

definition chunk_read :: "nat \<Rightarrow> string \<Rightarrow> server \<Rightarrow> server" where
  "chunk_read i b s = upd_descr i (\<lambda>d. d\<lparr>d_total := d_total d + length b\<rparr>)
     (emit (sent_events i b) (upd_descr i (clear_flags DF_TO_CLOSE) s))"

definition busy :: "kernel \<Rightarrow> nat \<Rightarrow> int \<Rightarrow> server \<Rightarrow> bool" where
  "busy k i now s \<longleftrightarrow> idle k i s \<and> has (d_mask (descr_map s i)) 1 \<and> now - d_sor (descr_map s i) < total_timeout
     \<and> d_pipe_out (descr_map s i) < d_pipe_err (descr_map s i)"

lemma busy_poll_set: "busy k i now s \<Longrightarrow> poll_set (descr_map s i) = [d_pipe_out (descr_map s i)]"
  by (simp add: busy_def poll_set_def)

lemma has_nonzero: "has m f \<Longrightarrow> m \<noteq> 0"
  by auto

lemma busy_clear: "busy k i now s \<Longrightarrow> busy k i now (upd_descr i (clear_flags f) s)"
  by (simp add: busy_def clear_flags_def idle_upd)

lemma busy_chunk: "busy k i now s \<Longrightarrow> busy k i now (chunk_read i b s)"
  by (simp add: busy_def chunk_read_def clear_flags_def idle_upd)

lemma relay_pass:
  assumes "busy k i now s" "length b \<le> 65536" "b \<noteq> []"
  shows "axil_exec_loop (relay k) k i [(now, PollReady [d_pipe_out (descr_map s i)])] [Got b] errs stack s
    = Done (1, chunk_read i b s)"
proof -
  let ?s = "upd_descr i (clear_flags DF_TO_CLOSE) s"
  have b: "busy k i now ?s" "idle k i ?s" using busy_clear [OF assms(1)] by (simp_all add: busy_def)
  have "d_mask (descr_map ?s i) \<noteq> 0" using b(1) by (auto simp: busy_def)
  moreover have "d_pipe_out (descr_map ?s i) = d_pipe_out (descr_map s i)" by (simp add: clear_flags_def)
  ultimately show ?thesis
    using b(1) assms(3) relay_proc [OF b(2) assms(2,3), of True] busy_poll_set [OF b(1)]
    by (simp add: axil_exec_loop_def exec_step_def exec_read_def busy_def chunk_read_def)
qed

fun exec_passes :: "kernel \<Rightarrow> nat \<Rightarrow> int \<Rightarrow> string \<Rightarrow> string list \<Rightarrow> server \<Rightarrow> server run" where
  "exec_passes k i now stack [] s = Done s"
| "exec_passes k i now stack (b # bs) s =
     bind_run (axil_exec_loop (relay k) k i [(now, PollReady [d_pipe_out (descr_map s i)])] [Got b] [] stack s)
       (\<lambda>(r, s1). exec_passes k i now stack bs s1)"

lemma has_clear_teardown [simp]: "has (fl AND NOT DF_TO_CLOSE) TEARDOWN \<longleftrightarrow> has fl TEARDOWN"
  by (rule has_clear_disjoint) (simp add: TEARDOWN_def df_defs)

lemma chunk_read_frame [simp]:
  "d_epid (descr_map (chunk_read i b s) i) = d_epid (descr_map s i)"
  "d_total (descr_map (chunk_read i b s) i) = d_total (descr_map s i) + length b"
  "d_pipe_out (descr_map (chunk_read i b s) i) = d_pipe_out (descr_map s i)"
  "d_pipe_err (descr_map (chunk_read i b s) i) = d_pipe_err (descr_map s i)"
  "sent_on i (events (chunk_read i b s)) = sent_on i (events s) @ b"
  "has (d_flags (descr_map (chunk_read i b s) i)) TEARDOWN = has (d_flags (descr_map s i)) TEARDOWN"
  by (simp_all add: chunk_read_def clear_flags_def)

lemma exec_passes_chunks:
  "busy k i now s \<Longrightarrow> \<forall>b \<in> set bs. b \<noteq> [] \<and> length b \<le> 65536 \<Longrightarrow>
     exec_passes k i now stack bs s = Done (fold (chunk_read i) bs s) \<and> busy k i now (fold (chunk_read i) bs s)"
  by (induction bs arbitrary: s) (simp_all add: relay_pass busy_chunk)

lemma fold_chunks [simp]:
  "d_epid (descr_map (fold (chunk_read i) bs s) i) = d_epid (descr_map s i)"
  "d_total (descr_map (fold (chunk_read i) bs s) i) = d_total (descr_map s i) + length (concat bs)"
  "d_pipe_out (descr_map (fold (chunk_read i) bs s) i) = d_pipe_out (descr_map s i)"
  "d_pipe_err (descr_map (fold (chunk_read i) bs s) i) = d_pipe_err (descr_map s i)"
  "sent_on i (events (fold (chunk_read i) bs s)) = sent_on i (events s) @ concat bs"
  "has (d_flags (descr_map (fold (chunk_read i) bs s) i)) TEARDOWN = has (d_flags (descr_map s i)) TEARDOWN"
  by (induction bs arbitrary: s) simp_all

lemma idle_writef:
  assumes "idle k i s" "length txt < BUFSIZ"
  shows "axil_writef k i txt s = Done (emit (sent_events i txt) s)"
proof -
  have "snprintf_trunc BUFSIZ txt = txt" using assms(2) by (simp add: snprintf_trunc_def)
  moreover have "length txt \<le> 65536" using assms(2) by (simp add: BUFSIZ_def)
  ultimately show ?thesis using idle_write [OF assms(1)] by (simp add: axil_writef_def)
qed

text \<open>What is left of the state when the program is reaped and the client closed.\<close>

definition reaped :: "kernel \<Rightarrow> nat \<Rightarrow> server \<Rightarrow> server" where
  "reaped k i s =
     (let d = descr_map s i;
          s1 = emit [EvCloseFd (d_pipe_out d), EvCloseFd (d_pipe_err d), EvKill (- d_epid d)] s;
          s2 = upd_descr i (\<lambda>d. d\<lparr>d_epid := 0, d_pipe_in := 0, d_pipe_out := 0, d_pipe_err := 0\<rparr>) s1 in
      close_when_sent k i (mark_close i (s2\<lparr>fds_wactive := fds_wactive s2 - {i}\<rparr>)))"

lemma exec_finish_reaps:
  "exec_finish cb k i errs stack s =
     bind_run
       (if d_total (descr_map s i) = 0 then
          (case error_text errs stack of
             None \<Rightarrow> Overruns
           | Some txt \<Rightarrow> bind_run (axil_writef k i (internal_error txt) s) (\<lambda>s1. Done (- 1, s1)))
        else bind_run (cb_proc cb i errs (d_pipe_err (descr_map s i) = d_pipe_out (descr_map s i)) s)
          (\<lambda>(n, err, rest, s1). Done (0, s1)))
       (\<lambda>(ret, s1). Done (ret, reaped k i s1))"
  by (simp add: exec_finish_def reaped_def Let_def)

lemma reaped_kills: "EvKill (- d_epid (descr_map s i)) \<in> set (events (reaped k i s))"
  by (auto simp: reaped_def Let_def close_when_sent_def mark_close_def axil_close_def axil_tunnel_close_raw_def
    axil_raw_descr_reset_def emit_def)

lemma reaped_idle:
  assumes "remaining_len (d_queue (descr_map s i)) = 0" "i < FD_SETSIZE" "\<not> has (d_flags (descr_map s i)) TEARDOWN"
  shows "int i \<notin> live (reaped k i s)" "sent_on i (events (reaped k i s)) = sent_on i (events s)"
proof -
  let ?u = "\<lambda>d. d\<lparr>d_epid := 0, d_pipe_in := 0, d_pipe_out := 0, d_pipe_err := 0\<rparr>"
  let ?s2 = "upd_descr i ?u (emit [EvCloseFd (d_pipe_out (descr_map s i)), EvCloseFd (d_pipe_err (descr_map s i)),
      EvKill (- d_epid (descr_map s i))] s)"
  define s3 where "s3 = mark_close i (?s2\<lparr>fds_wactive := fds_wactive ?s2 - {i}\<rparr>)"
  have r: "reaped k i s = axil_close k (int i) s3"
    using assms(1) by (simp add: reaped_def Let_def close_when_sent_def s3_def mark_close_def)
  have nt: "\<not> has (d_flags (descr_map s3 i)) TEARDOWN"
    using assms(3) by (simp add: s3_def mark_close_def) (simp add: has_def TEARDOWN_def df_defs)
  show "int i \<notin> live (reaped k i s)" unfolding r using close_plain_effect(4) [OF assms(2) nt] by simp
  show "sent_on i (events (reaped k i s)) = sent_on i (events s)"
    unfolding r using nt assms(2) by (simp add: axil_close_def Let_def ssl_drop_events_def) (simp add: s3_def mark_close_def)
qed

lemma eof_pass:
  assumes "busy k i now s" "length e \<le> 65536" "0 < d_total (descr_map s i)"
  defines "s1 \<equiv> upd_descr i (\<lambda>d. d\<lparr>d_mask := d_mask d AND NOT 1\<rparr>) (upd_descr i (clear_flags DF_TO_CLOSE) s)"
  shows "axil_exec_loop (relay k) k i [(now, PollReady [d_pipe_out (descr_map s i)])] [Got []] [Got e] stack s
    = Done (0, reaped k i (if e = [] then s1 else emit (sent_events i e) s1))"
proof -
  let ?s = "upd_descr i (clear_flags DF_TO_CLOSE) s"
  have b: "busy k i now ?s" using busy_clear [OF assms(1)] .
  have mask: "d_mask (descr_map ?s i) \<noteq> 0" using b by (auto simp: busy_def)
  have i1: "idle k i s1" using b unfolding s1_def by (subst idle_upd) (simp_all add: busy_def)
  have "exec_poll (relay k) k i [(now, PollReady [d_pipe_out (descr_map s i)])] [Got []] [Got e] ?s
      = Done (Finish, [Got e], s1)"
    using b mask busy_poll_set [OF b] by (simp add: exec_step_def exec_read_def busy_def s1_def cb_proc_def recv_from_def clear_flags_def)
  moreover have "cb_proc (relay k) i [Got e] ofd s1 = Done (int (length e), None, [], if e = [] then s1 else emit (sent_events i e) s1)" for ofd
  proof (cases "e = []")
    case True
    then show ?thesis by (simp add: cb_proc_def recv_from_def)
  next
    case False
    then show ?thesis using relay_proc [OF i1 assms(2)] by simp
  qed
  moreover have "d_total (descr_map s1 i) = d_total (descr_map s i)" by (simp add: s1_def clear_flags_def)
  ultimately show ?thesis using assms(3) by (simp add: axil_exec_loop_def exec_finish_reaps)
qed


text \<open>A program run for the accepted client of the run in \<open>Axil_Server\<close>.\<close>

definition demo_child :: server where
  "demo_child = axil_exec (Child 900 10 11 12) 0 5 (Some ''q'') demo_client"

lemma demo_child_state:
  "descr_map demo_child 5 = (descr_map demo_client 5)\<lparr>d_epid := 900, d_pipe_in := 10, d_pipe_out := 11, d_pipe_err := 12,
     d_mask := 3, d_sor := 0, d_total := 0\<rparr>"
  "io demo_child = io demo_client" "live demo_child = {3, 5, 11, 12}" "fds_active demo_child = fds_active demo_client"
  "tunnel_pair demo_child = tunnel_pair demo_client"
  by (simp_all add: demo_child_def axil_exec_def popen2_def Let_def demo_client_state) auto

lemma demo_child_busy: "busy wide_kernel 5 7 demo_child"
  using demo_client_idle
  by (simp add: busy_def idle_def demo_child_state demo_client_state total_timeout_def) (simp add: has_def)

lemma demo_child_plain: "\<not> has (d_flags (descr_map demo_child 5)) TEARDOWN"
  using demo_client_plain(2) by (simp add: demo_child_state)


theorem error_pipe_never_polled_witness:
  "axil_exec_loop (relay wide_kernel) wide_kernel 5 [(7, PollReady [11])] [Got ''ab''] [Got ''lost''] ''x'' demo_child
     = axil_exec_loop (relay wide_kernel) wide_kernel 5 [(7, PollReady [11])] [Got ''ab''] [] [] demo_child"
proof -
  have "axil_exec_loop (relay wide_kernel) wide_kernel 5 [(7, PollReady [11])] [Got ''ab''] [] [] demo_child
      = Done (1, chunk_read 5 ''ab'' demo_child)"
    using relay_pass [OF demo_child_busy, of "''ab''"] by (simp add: demo_child_state)
  from this error_pipe_never_polled [OF _ this, of "[Got ''lost'']" "''x''"] show ?thesis
    by (simp add: demo_child_state)
qed

text \<open>A program that has written nothing when its time is up gets its client two answers: after the
  504 answer \<open>axil_exec_loop\<close> leaves its loop with nothing counted and sends the 500 answer too, with
  whatever the error pipe holds, before it kills the program and closes the connection.\<close>

theorem timeout_answers_twice:
  assumes "idle k i s" "\<not> has (d_flags (descr_map s i)) TEARDOWN" "d_mask (descr_map s i) \<noteq> 0" "d_total (descr_map s i) = 0"
    "total_timeout \<le> now - d_sor (descr_map s i)" "error_text errs stack = Some txt" "length (internal_error txt) < BUFSIZ"
  shows "\<exists>s'. axil_exec_loop cb k i ((now, ans) # polls) outs errs stack s = Done (- 1, s')
    \<and> sent_on i (events s') = sent_on i (events s) @ gateway_timeout @ internal_error txt
    \<and> EvKill (- d_epid (descr_map s i)) \<in> set (events s') \<and> int i \<notin> live s'"
proof -
  let ?s = "upd_descr i (clear_flags DF_TO_CLOSE) s"
  define s1 where "s1 = emit (sent_events i gateway_timeout) ?s"
  define s2 where "s2 = emit (sent_events i (internal_error txt)) s1"
  have i0: "idle k i ?s" using assms(1) by (simp add: idle_upd clear_flags_def)
  have i1: "idle k i s1" using i0 by (simp add: s1_def)
  have i2: "idle k i s2" using i1 by (simp add: s2_def)
  have f: "d_total (descr_map s1 i) = 0" "d_epid (descr_map s2 i) = d_epid (descr_map s i)"
    "sent_on i (events s2) = sent_on i (events s) @ gateway_timeout @ internal_error txt"
    using assms(4) by (simp_all add: s1_def s2_def clear_flags_def)
  have nt: "\<not> has (d_flags (descr_map s2 i)) TEARDOWN"
    using assms(2) by (simp add: s1_def s2_def clear_flags_def)
  have "axil_writef k i gateway_timeout ?s = Done s1"
    using idle_writef [OF i0] by (simp add: length_gateway s1_def)
  then have "exec_poll cb k i ((now, ans) # polls) outs errs ?s = Done (Finish, errs, s1)"
    using assms(3,5) by (simp add: clear_flags_def exec_step_def)
  moreover have "exec_finish cb k i errs stack s1 = Done (- 1, reaped k i s2)"
    using idle_writef [OF i1 assms(7)] f(1) assms(6) by (simp add: exec_finish_reaps s2_def)
  ultimately have "axil_exec_loop cb k i ((now, ans) # polls) outs errs stack s = Done (- 1, reaped k i s2)"
    by (simp add: axil_exec_loop_def)
  then show ?thesis
    using i2 reaped_kills [where i = i and s = s2 and k = k] reaped_idle [OF _ _ nt, where k = k] f(2,3)
    by (auto simp: idle_def)
qed

theorem timeout_answers_twice_witness:
  "\<exists>s'. axil_exec_loop (relay wide_kernel) wide_kernel 5 [(40, PollReady [])] [] [] [NUL] demo_child = Done (- 1, s')
    \<and> sent_on 5 (events s') = sent_on 5 (events demo_child) @ gateway_timeout @ internal_error []
    \<and> EvKill (- 900) \<in> set (events s') \<and> int 5 \<notin> live s'"
proof -
  have "error_text [] [NUL] = Some []" by (simp add: error_text_def recv_from_def EXEC_BUF_def BUFSIZ_def cstr_def)
  moreover have "length (internal_error []) < BUFSIZ"
    by (simp add: internal_error_def BUFSIZ_def show_nat.simps)
  ultimately show ?thesis
    using timeout_answers_twice [OF _ demo_child_plain, of wide_kernel 40 "[]" "[NUL]" "[]"] demo_child_busy
    by (simp add: demo_child_state busy_def total_timeout_def)
qed

section \<open>Programs that cannot be started, callbacks that close\<close>

lemma live_from_opened: "live_from L (map EvOpenFd xs) = L \<union> set xs"
  by (induction xs arbitrary: L) simp_all

text \<open>C38. When no child can be started the pipe fields of the descriptor are still zero and its process
  is \<open>- 1\<close>: \<open>axil_exec\<close> writes the input of the program to descriptor 0 and closes that
  descriptor, and the pass after it, whose \<open>select\<close> fails on it, sends the 500 answer and then the kill
  signal to process 1.\<close>

theorem failed_spawn_kills_init:
  fixes b :: string and ends :: "int list"
  assumes "idle k i s" "\<not> has (d_flags (descr_map s i)) TEARDOWN" "d_pipe_in (descr_map s i) = 0"
    "later - now < total_timeout" "error_text errs stack = Some msg" "length (internal_error msg) < BUFSIZ"
  defines "s1 \<equiv> axil_exec (NoChild ends) now i (Some b) s"
  shows "{EvPipeWrite 0 b, EvCloseFd 0} \<subseteq> set (events s1)
    \<and> (\<exists>s2. axil_exec_loop cb k i ((later, PollFail) # polls) outs errs stack s1 = Done (- 1, s2) \<and> EvKill 1 \<in> set (events s2))"
proof -
  let ?s = "upd_descr i (clear_flags DF_TO_CLOSE) s1"
  let ?s2 = "emit (sent_events i (internal_error msg)) ?s"
  have ev: "{EvPipeWrite 0 b, EvCloseFd 0} \<subseteq> set (events s1)"
    using assms(3) by (simp add: s1_def axil_exec_def popen2_def Let_def emit_def)
  have d: "d_epid (descr_map s1 i) = - 1" "d_mask (descr_map s1 i) = 3" "d_sor (descr_map s1 i) = now"
    "d_total (descr_map s1 i) = 0" "d_queue (descr_map s1 i) = d_queue (descr_map s i)" "io s1 = io s"
    by (simp_all add: s1_def axil_exec_def popen2_def Let_def)
  have "events s1 = events s @ map EvOpenFd ends @ [EvPipeWrite 0 b, EvCloseFd 0]"
    using assms(3) by (simp add: s1_def axil_exec_def popen2_def Let_def emit_def)
  then have "live s1 = live s \<union> set ends - {0}"
    by (simp add: live_def live_from_opened Un_Diff)
  then have live: "int i \<in> live s1" using assms(1) by (simp add: idle_def)
  have idle: "idle k i ?s" using assms(1) d live by (simp add: idle_def clear_flags_def)
  have "exec_poll cb k i ((later, PollFail) # polls) outs errs ?s = Done (Finish, errs, ?s)"
    using d assms(4) by (simp add: clear_flags_def exec_step_def)
  moreover have "exec_finish cb k i errs stack ?s = Done (- 1, reaped k i ?s2)"
    using idle_writef [OF idle assms(6)] assms(5) d(4) by (simp add: exec_finish_reaps clear_flags_def)
  ultimately have "axil_exec_loop cb k i ((later, PollFail) # polls) outs errs stack s1 = Done (- 1, reaped k i ?s2)"
    by (simp add: axil_exec_loop_def)
  moreover have "EvKill 1 \<in> set (events (reaped k i ?s2))"
    using reaped_kills [where i = i and s = ?s2 and k = k] d(1) by (simp add: clear_flags_def)
  ultimately show ?thesis using ev by blast
qed

theorem failed_spawn_kills_init_witness:
  "\<exists>s2. axil_exec_loop (relay wide_kernel) wide_kernel 5 [(0, PollFail)] [] [] [NUL] (axil_exec (NoChild []) 0 5 (Some ''q'') demo_client)
     = Done (- 1, s2) \<and> EvKill 1 \<in> set (events s2)"
proof -
  have "error_text [] [NUL] = Some []" by (simp add: error_text_def recv_from_def EXEC_BUF_def BUFSIZ_def cstr_def)
  moreover have "length (internal_error []) < BUFSIZ" by (simp add: internal_error_def BUFSIZ_def show_nat.simps)
  ultimately show ?thesis
    using failed_spawn_kills_init [where k = wide_kernel and i = "5" and s = demo_client and later = "0" and now = "0" and errs = "[]"
        and stack = "[NUL]" and msg = "[]" and ends = "[]" and b = "''q''" and polls = "[]" and outs = "[]"
        and cb = "relay wide_kernel"]
    by (simp add: demo_client_idle demo_client_plain, simp add: demo_client_state zero_descr_def total_timeout_def)
qed

text \<open>When the callback closes the connection on what is left in the error pipe, as one that answers
  with \<open>axil_respond\<close> does, the descriptor is already zeroed: the end of \<open>axil_exec_loop\<close> closes descriptor 0 twice
  instead of the pipes and sends the kill signal to group 0, the server's own.\<close>

theorem closing_callback_kills_server:
  assumes "busy k i now s" "0 < d_total (descr_map s i)" "e \<noteq> []" "length e \<le> 65536"
    "cb i e False (upd_descr i (\<lambda>d. d\<lparr>d_mask := d_mask d AND NOT 1\<rparr>) (upd_descr i (clear_flags DF_TO_CLOSE) s)) = Done s2"
    "descr_map s2 i = zero_descr (- 1)"
  shows "\<exists>s' es. axil_exec_loop cb k i [(now, PollReady [d_pipe_out (descr_map s i)])] [Got []] [Got e] stack s = Done (0, s')
    \<and> events s' = events s2 @ [EvCloseFd 0, EvCloseFd 0, EvKill 0] @ es"
proof -
  let ?s = "upd_descr i (clear_flags DF_TO_CLOSE) s"
  let ?s1 = "upd_descr i (\<lambda>d. d\<lparr>d_mask := d_mask d AND NOT 1\<rparr>) ?s"
  have b: "busy k i now ?s" using busy_clear [OF assms(1)] .
  have mask: "d_mask (descr_map ?s i) \<noteq> 0" using b by (auto simp: busy_def)
  have "exec_poll cb k i [(now, PollReady [d_pipe_out (descr_map s i)])] [Got []] [Got e] ?s = Done (Finish, [Got e], ?s1)"
    using b mask busy_poll_set [OF b] by (simp add: exec_step_def exec_read_def busy_def cb_proc_def recv_from_def clear_flags_def)
  moreover have "cb_proc cb i [Got e] (d_pipe_err (descr_map ?s1 i) = d_pipe_out (descr_map ?s1 i)) ?s1 = Done (int (length e), None, [], s2)"
    using b assms(3,4,5) by (simp add: cb_proc_def recv_short EXEC_BUF_gt busy_def)
  ultimately have l: "axil_exec_loop cb k i [(now, PollReady [d_pipe_out (descr_map s i)])] [Got []] [Got e] stack s = Done (0, reaped k i s2)"
    using assms(2) by (simp add: axil_exec_loop_def exec_finish_reaps clear_flags_def)
  have "\<exists>es. events (axil_close k (int i) t) = events t @ es" for t
    by (auto simp: axil_close_def Let_def axil_tunnel_close_raw_def axil_raw_descr_reset_def emit_def)
  then have more: "\<exists>es. events (close_when_sent k i t) = events t @ es" for t by (simp add: close_when_sent_def)
  define s3 where "s3 = mark_close i ((upd_descr i (\<lambda>d. d\<lparr>d_epid := 0, d_pipe_in := 0, d_pipe_out := 0, d_pipe_err := 0\<rparr>)
      (emit [EvCloseFd 0, EvCloseFd 0, EvKill 0] s2))\<lparr>fds_wactive := fds_wactive s2 - {i}\<rparr>)"
  have "reaped k i s2 = close_when_sent k i s3"
    using assms(6) by (simp add: s3_def reaped_def Let_def zero_descr_def upd_descr_def emit_def)
  moreover have "events s3 = events s2 @ [EvCloseFd 0, EvCloseFd 0, EvKill 0]"
    by (simp add: s3_def mark_close_def emit_def)
  ultimately have "\<exists>es. events (reaped k i s2) = events s2 @ [EvCloseFd 0, EvCloseFd 0, EvKill 0] @ es"
    using more [of s3] by (metis append_assoc)
  with l show ?thesis by blast
qed

theorem closing_callback_kills_server_witness:
  "\<exists>s'. axil_exec_loop (\<lambda>i b ofd t. Done (axil_close wide_kernel (int i) t)) wide_kernel 5 [(7, PollReady [11])] [Got []] [Got ''!''] []
      (chunk_read 5 ''ab'' demo_child) = Done (0, s') \<and> EvKill 0 \<in> set (events s')"
proof -
  let ?s = "chunk_read 5 ''ab'' demo_child"
  let ?s1 = "upd_descr 5 (\<lambda>d. d\<lparr>d_mask := d_mask d AND NOT 1\<rparr>) (upd_descr 5 (clear_flags DF_TO_CLOSE) ?s)"
  have b: "busy wide_kernel 5 7 ?s" by (rule busy_chunk [OF demo_child_busy])
  have "\<not> has (d_flags (descr_map ?s1 5)) TEARDOWN"
    using demo_child_plain by (simp add: clear_flags_def chunk_read_def)
  from close_plain_effect(1) [OF _ this, of wide_kernel]
  have "descr_map (axil_close wide_kernel (int 5) ?s1) 5 = zero_descr (- 1)" by simp
  from closing_callback_kills_server [OF b, of "''!''" "\<lambda>i b ofd t. Done (axil_close wide_kernel (int i) t)", OF _ _ _ _ this]
  show ?thesis by (force simp: demo_child_state)
qed

section \<open>Programs keep the table sound\<close>

text \<open>Descriptors of no connection, and a child whose pipes are among them.\<close>

definition apart :: "server \<Rightarrow> int set \<Rightarrow> bool" where
  "apart s P \<longleftrightarrow> (\<forall>j. int j \<in> P \<longrightarrow> j \<notin> fds_active s \<and> tunnel_pair s j = - 1)"

definition exec_ok :: "int set \<Rightarrow> nat \<Rightarrow> server \<Rightarrow> bool" where
  "exec_ok P i s \<longleftrightarrow> server_ok s \<and> i < FD_SETSIZE \<and> apart s P \<and> 0 \<in> P \<and> d_pipe_out (descr_map s i) \<in> P \<and> d_pipe_err (descr_map s i) \<in> P"

lemma apart_close_fds:
  "server_ok s \<Longrightarrow> apart s P \<Longrightarrow> {a, b} \<subseteq> P \<Longrightarrow> server_ok (emit [EvCloseFd a, EvCloseFd b, EvKill p] s)"
  by (rule server_ok_emit) (auto simp: apart_def)

lemma exec_ok_upd:
  assumes "exec_ok P i s" "\<And>d. d_fd (f d) = d_fd d" "\<And>d. d_pipe_out (f d) = d_pipe_out d" "\<And>d. d_pipe_err (f d) = d_pipe_err d"
    "\<And>d. has (d_flags d) TEARDOWN \<Longrightarrow> has (d_flags (f d)) TEARDOWN"
  shows "exec_ok P i (upd_descr i f s)"
  using assms by (auto simp: exec_ok_def apart_def intro!: server_ok_upd)

lemma exec_ok_close:
  assumes "exec_ok P i s"
  shows "exec_ok P i (axil_close k (int i) s)"
proof -
  have p: "pairs_ok s" "i < FD_SETSIZE" using assms by (simp_all add: exec_ok_def server_ok_def)
  note e = close_effect [OF this, where k = k]
  show ?thesis
    using assms server_ok_close [of s "int i" k] by (auto simp: exec_ok_def apart_def e zero_descr_def)
qed

lemma exec_ok_write:
  assumes "exec_ok P i s" "axil_write k (int i) t s = Done (r, s')"
  shows "exec_ok P i s'"
proof -
  have emit: "exec_ok P i (emit (sent_events i u) t)" if "exec_ok P i t" for u t
    using that by (auto simp: exec_ok_def apart_def intro!: server_ok_emit)
  have emits: "exec_ok P i (emit (concat (map (sent_events i) us)) t)" if "exec_ok P i t" for us t
    using that by (auto simp: exec_ok_def apart_def intro!: server_ok_emit)
  have "exec_ok P i (snd (queue_result k i res s))" for res
    using assms(1) by (auto simp: queue_result_def Let_def intro!: exec_ok_close emit exec_ok_upd split: prod.splits)
  then have "queue_result k i res s = (r, s') \<Longrightarrow> exec_ok P i s'" for res by (metis snd_conv)
  then show ?thesis
    using assms by (auto simp: axil_write_def server_write_def bind_run_Done intro: emits split: if_splits io_ops.splits prod.splits)
qed

lemma exec_ok_writef: "exec_ok P i s \<Longrightarrow> axil_writef k i t s = Done s' \<Longrightarrow> exec_ok P i s'"
  by (auto simp: axil_writef_def bind_run_Done intro: exec_ok_write)

lemma exec_ok_server: "exec_ok P i s \<Longrightarrow> server_ok s"
  by (simp add: exec_ok_def)

text \<open>What is asked of a callback: it leaves the descriptors of the program alone.\<close>

definition callback_ok :: "int set \<Rightarrow> nat \<Rightarrow> exec_callback \<Rightarrow> bool" where
  "callback_ok P i cb \<longleftrightarrow> (\<forall>b ofd s s'. exec_ok P i s \<longrightarrow> cb i b ofd s = Done s' \<longrightarrow> exec_ok P i s')"

lemma relay_callback_ok: "callback_ok P i (relay k)"
  by (auto simp: callback_ok_def relay_def bind_run_Done intro: exec_ok_write)

lemma cb_proc_ok:
  assumes "callback_ok P i cb" "exec_ok P i s" "cb_proc cb i as ofd s = Done (n, err, rest, s')"
  shows "exec_ok P i s' \<and> (n \<le> 0 \<longrightarrow> s' = s)"
  using assms by (auto simp: cb_proc_def callback_ok_def bind_run_Done split: prod.splits kread.splits if_splits)

lemma exec_read_ok:
  assumes "callback_ok P i cb" "exec_ok P i s" "d_fd (descr_map s i) = int i" "int i \<in> live s"
    "exec_read cb i is_out outs errs s = Done (nx, outs', errs', s')"
  shows "server_ok s' \<and> (nx \<noteq> Wait \<longrightarrow> exec_ok P i s') \<and> (nx = Again \<longrightarrow> d_fd (descr_map s' i) = int i \<and> int i \<in> live s')"
proof -
  obtain n err rest s1 where c: "cb_proc cb i (if is_out then outs else errs) is_out s = Done (n, err, rest, s1)"
    using assms(5) by (auto simp: exec_read_def bind_run_Done)
  note o = cb_proc_ok [OF assms(1,2) c]
  have waiting: "server_ok (s\<lparr>fds_active := insert i (fds_active s)\<rparr>)"
    by (rule server_ok_keep [OF exec_ok_server [OF assms(2)]]) (use assms(3,4) in \<open>auto simp: end_ok_def live_def\<close>)
  have mask: "exec_ok P i (upd_descr i (\<lambda>d. d\<lparr>d_mask := m d\<rparr>) s)" for m
    by (rule exec_ok_upd [OF assms(2)]) simp_all
  have total: "exec_ok P i (upd_descr i (\<lambda>d. d\<lparr>d_total := d_total d + nat n\<rparr>) s1)"
    by (rule exec_ok_upd) (use o in simp_all)
  show ?thesis
  proof (cases "0 < n")
    case True
    with assms(5) c exec_ok_server [OF total] show ?thesis by (auto simp: exec_read_def Let_def)
  next
    case False
    with o have "s1 = s" by simp
    with assms(3-5) c False waiting mask exec_ok_server [OF mask] show ?thesis
      by (auto simp: exec_read_def Let_def split: if_splits)
  qed
qed

lemma exec_step_ok:
  assumes "callback_ok P i cb" "exec_ok P i s" "d_fd (descr_map s i) = int i" "int i \<in> live s"
    "exec_step cb k i now ans outs errs s = Done (nx, outs', errs', s')"
  shows "server_ok s' \<and> (nx \<noteq> Wait \<longrightarrow> exec_ok P i s') \<and> (nx = Again \<longrightarrow> d_fd (descr_map s' i) = int i \<and> int i \<in> live s')"
  using assms(5) exec_ok_server [OF assms(2)] assms(2) exec_read_ok [OF assms(1-4)]
  by (auto simp: exec_step_def Let_def bind_run_Done dest: exec_ok_writef exec_ok_server split: if_splits poll_ans.splits)

lemma exec_poll_ok:
  assumes "callback_ok P i cb"
  shows "exec_ok P i s \<Longrightarrow> d_fd (descr_map s i) = int i \<Longrightarrow> int i \<in> live s \<Longrightarrow>
     exec_poll cb k i polls outs errs s = Done (nx, errs', s') \<Longrightarrow> server_ok s' \<and> (nx \<noteq> Wait \<longrightarrow> exec_ok P i s')"
proof (induction polls arbitrary: outs errs s)
  case Nil
  then show ?case by (auto simp: exec_ok_def split: if_splits)
next
  case (Cons p ps)
  obtain now ans where p: "p = (now, ans)" by fastforce
  obtain nx1 o1 e1 s1 where st: "exec_step cb k i now ans outs errs s = Done (nx1, o1, e1, s1)"
    using Cons.prems(4) unfolding p by (auto simp: bind_run_Done)
  from exec_step_ok [OF assms Cons.prems(1-3) st] Cons.IH [of s1] Cons.prems(4) st show ?case
    unfolding p by (auto split: if_splits)
qed

lemma reaped_ok:
  assumes "exec_ok P i s"
  shows "server_ok (reaped k i s)"
proof -
  let ?u = "\<lambda>d. d\<lparr>d_epid := 0, d_pipe_in := 0, d_pipe_out := 0, d_pipe_err := 0\<rparr>"
  let ?s1 = "emit [EvCloseFd (d_pipe_out (descr_map s i)), EvCloseFd (d_pipe_err (descr_map s i)),
      EvKill (- d_epid (descr_map s i))] s"
  have "server_ok ?s1" by (rule apart_close_fds [where P = P]) (use assms in \<open>simp_all add: exec_ok_def\<close>)
  then have "server_ok (upd_descr i ?u ?s1)" by (rule server_ok_upd) simp_all
  then have "server_ok ((upd_descr i ?u ?s1)\<lparr>fds_wactive := fds_wactive (upd_descr i ?u ?s1) - {i}\<rparr>)"
    by (simp add: server_ok_def pairs_ok_def active_ok_def end_ok_def live_def)
  then show ?thesis by (simp add: reaped_def Let_def close_when_sent_ok mark_close_ok)
qed

lemma exec_finish_ok:
  assumes "callback_ok P i cb" "exec_ok P i s" "exec_finish cb k i errs stack s = Done (r, s')"
  shows "server_ok s'"
proof -
  obtain s1 where "exec_ok P i s1" "s' = reaped k i s1"
    using assms by (auto simp: exec_finish_reaps bind_run_Done dest: exec_ok_writef cb_proc_ok split: if_splits option.splits)
  then show ?thesis using reaped_ok by blast
qed

text \<open>A pass over a running program keeps the table sound, whatever the clock, \<open>select\<close> and the pipes
  answer, if the pipes of the program, and descriptor 0, are not descriptors of connections and the
  callback keeps to that.\<close>

lemma exec_loop_ok:
  assumes "exec_ok P i s" "d_fd (descr_map s i) = int i" "int i \<in> live s" "callback_ok P i cb"
    "axil_exec_loop cb k i polls outs errs stack s = Done (r, s')"
  shows "server_ok s'"
proof -
  let ?s = "upd_descr i (clear_flags DF_TO_CLOSE) s"
  have keep: "has (d_flags d) TEARDOWN \<Longrightarrow> has (d_flags (clear_flags DF_TO_CLOSE d)) TEARDOWN" for d
    by (simp add: clear_flags_def)
  have "exec_ok P i ?s" by (rule exec_ok_upd [OF assms(1)]) (simp_all add: keep, simp_all add: clear_flags_def)
  moreover have "d_fd (descr_map ?s i) = int i" "int i \<in> live ?s" using assms(2,3) by (simp_all add: clear_flags_def)
  moreover obtain nx errs' s1 where p: "exec_poll cb k i polls outs errs ?s = Done (nx, errs', s1)"
    "(if nx = Wait then Done (1, s1) else exec_finish cb k i errs' stack s1) = Done (r, s')"
    using assms(5) by (auto simp: axil_exec_loop_def bind_run_Done)
  ultimately have "server_ok s1 \<and> (nx \<noteq> Wait \<longrightarrow> exec_ok P i s1)" using exec_poll_ok [OF assms(4)] by blast
  with p(2) exec_finish_ok [OF assms(4)] show ?thesis by (cases "nx = Wait") auto
qed

lemma demo_child_ok: "exec_ok {0, 11, 12} 5 demo_child"
proof -
  have "server_ok demo_child"
    using demo_client_ok unfolding demo_child_def axil_exec_def popen2_def
    by (simp add: Let_def server_ok_def pairs_ok_def active_ok_def end_ok_def demo_client_state)
  then show ?thesis
    by (auto simp: exec_ok_def apart_def demo_child_state demo_client_state FD_SETSIZE_def)
qed

text \<open>Starting a program: the three descriptors are new, the parent's end of the input pipe is closed again.\<close>

lemma axil_exec_ok:
  assumes "server_ok s" "i < FD_SETSIZE" "0 \<notin> fds_active s" "tunnel_pair s 0 = - 1" "{pin, pout, perr} \<inter> live s = {}" "distinct [pin, pout, perr]"
  shows "exec_ok {0, pout, perr} i (axil_exec (Child p pin pout perr) now i inp s)"
proof -
  let ?s = "axil_exec (Child p pin pout perr) now i inp s"
  have fresh: "j \<notin> fds_active s \<and> tunnel_pair s j = - 1" if "int j \<notin> live s" for j
    using assms(1) that fresh_unpaired by (auto simp: server_ok_def active_ok_def)
  have f: "fds_active ?s = fds_active s" "tunnel_pair ?s = tunnel_pair s" "live ?s = live s \<union> {pout, perr} - {pin}"
    "d_pipe_out (descr_map ?s i) = pout" "d_pipe_err (descr_map ?s i) = perr"
    "d_fd (descr_map ?s j) = d_fd (descr_map s j)" "d_flags (descr_map ?s j) = d_flags (descr_map s j)" for j
    using assms(6) by (auto simp: axil_exec_def popen2_def Let_def split: option.split)
  have "server_ok ?s"
    by (rule server_ok_keep [OF assms(1)]) (use f fresh assms(5) in \<open>auto simp: end_ok_def\<close>)
  then show ?thesis using assms(2-5) f fresh by (auto simp: exec_ok_def apart_def)
qed

end
