(* ===== verification/Axil_Certs.thy ===== *)
theory Axil_Certs
  imports Axil_Static
begin

text \<open>
  Certificates and TLS choices: \<open>axil_cert_add\<close> and \<open>axil_certs_add\<close> (\<open>src/axil-posix.c\<close> 591 to 615),
  \<open>axil_ctx_new\<close>, \<open>_axil_cert_add\<close>, \<open>axil_sni\<close> and \<open>axil_alpn_select\<close> (\<open>src/libaxil.c\<close> 1110 to 1196 and
  2798 to 2812), and the part of \<open>axil_init\<close> that makes the default context (1227 to 1235).

  The table of certificates is made by the qmap library: its operations are the parameter
  \<open>cert_map\<close> and what the code relies on is \<open>cert_map_ok\<close>.  A context of the TLS library is the record of
  what was set in it; what the library answers to each call is the parameter \<open>tls_lib\<close>.
\<close>

section \<open>Contexts\<close>

datatype protocol = SSLv2 | SSLv3 | TLSv1_2

record tls_ctx =
  ctx_alpn :: bool
  ctx_min :: "protocol option"
  ctx_off :: "protocol set"
  ctx_ciphers :: string
  ctx_suites :: string
  ctx_groups :: string
  ctx_ecdh_auto :: bool
  ctx_crt :: string
  ctx_key :: string

text \<open>What OpenSSL answers: a new context, and whether it takes a least version, the lists, a certificate file, a
  key file, and the two together.\<close>

record tls_lib =
  t_new :: "tls_ctx option"
  t_min :: "protocol \<Rightarrow> bool"
  t_ciphers :: "string \<Rightarrow> bool"
  t_suites :: "string \<Rightarrow> bool"
  t_groups :: "string \<Rightarrow> bool"
  t_crt :: "string \<Rightarrow> int"
  t_key :: "string \<Rightarrow> int"
  t_pair :: "string \<Rightarrow> string \<Rightarrow> bool"

definition CIPHERS :: string where
  "CIPHERS = ''ECDHE+AESGCM:ECDHE+CHACHA20:!aNULL:!MD5:!RC4''"

definition SUITES :: string where
  "SUITES = ''TLS_AES_256_GCM_SHA384:TLS_AES_128_GCM_SHA256:TLS_CHACHA20_POLY1305_SHA256''"

definition GROUPS :: string where
  "GROUPS = ''X25519:P-256:P-384''"

text \<open>\<open>CBUG\<close> ends the process when its condition holds: \<open>None\<close>.\<close>

definition cbug :: "bool \<Rightarrow> 'a \<Rightarrow> 'a option" where
  "cbug failed x = (if failed then None else Some x)"

text \<open>With OpenSSL 1.1 or later.\<close>

definition axil_ctx_new :: "tls_lib \<Rightarrow> string \<Rightarrow> string \<Rightarrow> tls_ctx option" where
  "axil_ctx_new T crt key =
     Option.bind (t_new T) (\<lambda>c0.
     Option.bind (cbug (\<not> t_min T TLSv1_2) (c0\<lparr>ctx_alpn := True, ctx_min := Some TLSv1_2\<rparr>)) (\<lambda>c1.
     Option.bind (cbug (\<not> t_ciphers T CIPHERS) (c1\<lparr>ctx_off := ctx_off c1 \<union> {SSLv2, SSLv3}, ctx_ciphers := CIPHERS\<rparr>)) (\<lambda>c2.
     let c3 = (if t_suites T SUITES then c2\<lparr>ctx_suites := SUITES\<rparr> else c2) in
     Option.bind (cbug (\<not> t_groups T GROUPS) (c3\<lparr>ctx_groups := GROUPS\<rparr>)) (\<lambda>c4.
     Option.bind (cbug (t_crt T crt \<le> 0) (c4\<lparr>ctx_ecdh_auto := True, ctx_crt := crt\<rparr>)) (\<lambda>c5.
     Option.bind (cbug (t_key T key \<le> 0) (c5\<lparr>ctx_key := key\<rparr>)) (\<lambda>c6.
     cbug (\<not> t_pair T crt key) c6))))))"

text \<open>A context that is made speaks TLS 1.2 at least, and its key belongs to its certificate.\<close>

lemma ctx_new_SomeD:
  assumes "axil_ctx_new T crt key = Some c"
  shows "ctx_min c = Some TLSv1_2" "{SSLv2, SSLv3} \<subseteq> ctx_off c" "ctx_alpn c" "ctx_crt c = crt" "ctx_key c = key" "t_pair T crt key"
  using assms by (auto simp: axil_ctx_new_def cbug_def Let_def split: bind_splits if_splits)

section \<open>Certificates\<close>

record 'm cert_map =
  cm_get :: "'m \<Rightarrow> string \<Rightarrow> tls_ctx option"
  cm_put :: "'m \<Rightarrow> string \<Rightarrow> tls_ctx \<Rightarrow> 'm"

definition cert_map_ok :: "'m cert_map \<Rightarrow> bool" where
  "cert_map_ok q \<longleftrightarrow> (\<forall>m k v k'. cm_get q (cm_put q m k v) k' = (if k' = k then Some v else cm_get q m k'))"

text \<open>An instance on association lists, for concrete evaluations.\<close>

definition alist_certs :: "(string \<times> tls_ctx) list cert_map" where
  "alist_certs = \<lparr>cm_get = map_of, cm_put = (\<lambda>m k v. (k, v) # m)\<rparr>"

lemma alist_certs_ok: "cert_map_ok alist_certs"
  by (auto simp: cert_map_ok_def alist_certs_def)

record 'm certs =
  cert_hd :: "'m"
  domain_default :: "string option"
  ssl_on :: bool

definition no_certs :: "'m \<Rightarrow> 'm certs" where
  "no_certs m = \<lparr>cert_hd = m, domain_default = None, ssl_on = False\<rparr>"

text \<open>\<open>None\<close> is an exit: of \<open>axil_ctx_new\<close>, or of \<open>CBUG\<close> when a colon is missing.\<close>

definition cert_add :: "'m cert_map \<Rightarrow> tls_lib \<Rightarrow> string \<Rightarrow> string \<Rightarrow> string \<Rightarrow> 'm certs \<Rightarrow> 'm certs option" where
  "cert_add q T domain crt key cs =
     (case axil_ctx_new T crt key of
        None \<Rightarrow> None
      | Some ctx \<Rightarrow> Some (cs\<lparr>cert_hd := cm_put q (cert_hd cs) domain ctx,
          domain_default := (case domain_default cs of None \<Rightarrow> Some domain | Some d \<Rightarrow> Some d)\<rparr>))"

definition axil_cert_add :: "'m cert_map \<Rightarrow> tls_lib \<Rightarrow> string \<Rightarrow> 'm certs \<Rightarrow> 'm certs option" where
  "axil_cert_add q T arg cs =
     (case strchr arg (CHR '':'') of
        None \<Rightarrow> None
      | Some n \<Rightarrow>
          let domain = take n arg; crt = drop (Suc n) arg in
          (case strchr crt (CHR '':'') of
             None \<Rightarrow> None
           | Some m \<Rightarrow> map_option (\<lambda>cs'. cs'\<lparr>ssl_on := True\<rparr>) (cert_add q T domain (take m crt) (drop (Suc m) crt) cs)))"

function certs_loop :: "'m cert_map \<Rightarrow> tls_lib \<Rightarrow> string \<Rightarrow> nat \<Rightarrow> nat \<Rightarrow> 'm certs \<Rightarrow> 'm certs option" where
  "certs_loop q T mapped len pos cs =
     (case axil_mmap_iter mapped pos of (line, pos') \<Rightarrow>
        case axil_cert_add q T line cs of
          None \<Rightarrow> None
        | Some cs' \<Rightarrow> if pos' < len then certs_loop q T mapped len pos' cs' else Some cs')"
  by pat_completeness auto
termination
  by (relation "measure (\<lambda>(q, T, mapped, len, pos, cs). len - pos)")
    (auto simp: axil_mmap_iter_def Let_def)

declare certs_loop.simps [simp del]

text \<open>The file mapped, \<open>None\<close> when it cannot be or is empty: the pointer is then never set.\<close>

definition axil_certs_add :: "'m cert_map \<Rightarrow> tls_lib \<Rightarrow> string option \<Rightarrow> 'm certs \<Rightarrow> 'm certs option" where
  "axil_certs_add q T file cs =
     (case file of None \<Rightarrow> None | Some mapped \<Rightarrow> certs_loop q T mapped (length mapped) 0 cs)"

text \<open>The context \<open>axil_sni\<close> sets, \<open>None\<close> for \<open>SSL_TLSEXT_ERR_NOACK\<close>.\<close>

definition axil_sni :: "'m cert_map \<Rightarrow> string option \<Rightarrow> 'm certs \<Rightarrow> tls_ctx option" where
  "axil_sni q servername cs = Option.bind servername (cm_get q (cert_hd cs))"

text \<open>The context of clients that name no domain: none without TLS; a failure when there is no certificate, whose
  null pointer is followed, or \<open>axil_ctx_new\<close> exits.\<close>

datatype tls_start = Plain | Fails | Tls tls_ctx

definition start_tls :: "'m cert_map \<Rightarrow> tls_lib \<Rightarrow> bool \<Rightarrow> 'm certs \<Rightarrow> tls_start" where
  "start_tls q T ssl cs =
     (if \<not> ssl then Plain
      else case Option.bind (domain_default cs) (cm_get q (cert_hd cs)) of
          None \<Rightarrow> Fails
        | Some cert \<Rightarrow> (case axil_ctx_new T (ctx_crt cert) (ctx_key cert) of None \<Rightarrow> Fails | Some ctx \<Rightarrow> Tls ctx))"

section \<open>Protocols\<close>

function alpn_select :: "string \<Rightarrow> string option" where
  "alpn_select inp =
     (case inp of
        [] \<Rightarrow> None
      | c # p \<Rightarrow>
          let len = ccode c in
          if length p < len then None
          else if len = 8 \<and> take 8 p = ''http/1.1'' then Some (take len p)
          else alpn_select (drop len p))"
  by pat_completeness auto
termination
  by (relation "measure length") auto

declare alpn_select.simps [simp del]

text \<open>The list a client offers, on the wire.\<close>

definition alpn_wire :: "string list \<Rightarrow> string" where
  "alpn_wire ps = concat (map (\<lambda>p. char_of (length p) # p) ps)"

text \<open>The protocol chosen for a client is HTTP/1.1 exactly when its list offers it, whatever
  else the list has and in whatever order.\<close>

theorem alpn_select_offered:
  assumes "\<forall>p \<in> set ps. length p < 256"
  shows "alpn_select (alpn_wire ps) = (if ''http/1.1'' \<in> set ps then Some ''http/1.1'' else None)"
  using assms
proof (induction ps)
  case Nil
  then show ?case by (simp add: alpn_wire_def alpn_select.simps)
next
  case (Cons p ps)
  have code: "ccode (char_of (length p)) = length p" using Cons.prems by simp
  have wire: "alpn_wire (p # ps) = char_of (length p) # p @ alpn_wire ps" by (simp add: alpn_wire_def)
  have "length p = 8 \<and> p = ''http/1.1'' \<longleftrightarrow> p = ''http/1.1''" by auto
  then show ?case
    using Cons code unfolding wire by (subst alpn_select.simps) (auto simp: Let_def)
qed

theorem alpn_select_offered_witness: "alpn_select (alpn_wire [''h2'', ''http/1.1'']) = Some ''http/1.1''"
  using alpn_select_offered [of "[''h2'', ''http/1.1'']"] by simp

section \<open>Files of certificates\<close>

definition cert_line :: "string \<times> string \<times> string \<Rightarrow> string" where
  "cert_line e = (case e of (d, c, k) \<Rightarrow> d @ '':'' @ c @ '':'' @ k)"

definition cert_fields_ok :: "string \<times> string \<times> string \<Rightarrow> bool" where
  "cert_fields_ok e \<longleftrightarrow> (case e of (d, c, k) \<Rightarrow> CHR '':'' \<notin> set d \<and> CHR '':'' \<notin> set c \<and> {LF, NUL} \<inter> (set d \<union> set c \<union> set k) = {})"

definition cert_put :: "'m cert_map \<Rightarrow> tls_lib \<Rightarrow> string \<times> string \<times> string \<Rightarrow> 'm certs \<Rightarrow> 'm certs option" where
  "cert_put q T e cs = (case e of (d, c, k) \<Rightarrow> map_option (\<lambda>cs'. cs'\<lparr>ssl_on := True\<rparr>) (cert_add q T d c k cs))"

fun put_all :: "'m cert_map \<Rightarrow> tls_lib \<Rightarrow> (string \<times> string \<times> string) list \<Rightarrow> 'm certs \<Rightarrow> 'm certs option" where
  "put_all q T [] cs = Some cs"
| "put_all q T (e # es) cs = Option.bind (cert_put q T e cs) (put_all q T es)"

definition certs_text :: "(string \<times> string \<times> string) list \<Rightarrow> string" where
  "certs_text es = concat (map (\<lambda>e. cert_line e @ [LF]) es)"

lemma cert_add_line: "cert_fields_ok e \<Longrightarrow> axil_cert_add q T (cert_line e) cs = cert_put q T e cs"
  by (auto simp: cert_fields_ok_def axil_cert_add_def cert_line_def cert_put_def strchr_append Let_def split: prod.splits)

lemma mmap_iter_line:
  "{LF, NUL} \<inter> set line = {} \<Longrightarrow> axil_mmap_iter (pre @ line @ LF # rest) (length pre) = (line, length pre + length line + 1)"
proof -
  assume "{LF, NUL} \<inter> set line = {}"
  then have "takeWhile (\<lambda>c. c \<noteq> LF \<and> c \<noteq> NUL) (line @ LF # rest) = line"
    by (subst takeWhile_append2) auto
  then show ?thesis by (simp add: axil_mmap_iter_def)
qed

lemma cert_line_clean: "cert_fields_ok e \<Longrightarrow> {LF, NUL} \<inter> set (cert_line e) = {}"
  by (auto simp: cert_fields_ok_def cert_line_def split: prod.splits)

lemma certs_loop_text:
  "es \<noteq> [] \<Longrightarrow> \<forall>e \<in> set es. cert_fields_ok e \<Longrightarrow>
     certs_loop q T (pre @ certs_text es) (length (pre @ certs_text es)) (length pre) cs = put_all q T es cs"
proof (induction es arbitrary: pre cs)
  case (Cons e es)
  let ?m = "pre @ certs_text (e # es)"
  have m: "?m = pre @ cert_line e @ LF # certs_text es" by (simp add: certs_text_def)
  have it: "axil_mmap_iter ?m (length pre) = (cert_line e, length pre + length (cert_line e) + 1)"
    unfolding m by (rule mmap_iter_line) (use Cons.prems(2) cert_line_clean in auto)
  have add: "axil_cert_add q T (cert_line e) cs = cert_put q T e cs" using Cons.prems(2) by (simp add: cert_add_line)
  have step: "certs_loop q T ?m n (length pre) cs
      = (case cert_put q T e cs of None \<Rightarrow> None | Some cs' \<Rightarrow> if length pre + length (cert_line e) + 1 < n
         then certs_loop q T ?m n (length pre + length (cert_line e) + 1) cs' else Some cs')" for n
    by (subst certs_loop.simps) (simp only: it add prod.case)
  show ?case
  proof (cases "es = []")
    case True
    then have "length ?m = length pre + length (cert_line e) + 1" by (simp add: certs_text_def)
    then show ?thesis using True unfolding step by (simp split: option.split)
  next
    case False
    let ?pre = "pre @ cert_line e @ [LF]"
    have more: "?m = ?pre @ certs_text es" by (simp add: m)
    have "certs_text es \<noteq> []" using False by (cases es) (simp_all add: certs_text_def)
    then have lt: "length pre + length (cert_line e) + 1 < length ?m" by (simp add: m)
    have "certs_loop q T ?m (length ?m) (length pre + length (cert_line e) + 1) cs' = put_all q T es cs'" for cs'
      using Cons.IH [OF False, of ?pre cs'] Cons.prems(2) by (simp add: more)
    then show ?thesis using lt unfolding step by (simp split: option.split)
  qed
qed simp

text \<open>The context of a line.\<close>

abbreviation line_ctx :: "tls_lib \<Rightarrow> string \<times> string \<Rightarrow> tls_ctx option" where
  "line_ctx T f \<equiv> axil_ctx_new T (fst f) (snd f)"

lemma cert_put_cases:
  "cert_put q T e cs = (case line_ctx T (snd e) of None \<Rightarrow> None
     | Some ctx \<Rightarrow> Some (cs\<lparr>cert_hd := cm_put q (cert_hd cs) (fst e) ctx,
         domain_default := (case domain_default cs of None \<Rightarrow> Some (fst e) | Some d \<Rightarrow> Some d), ssl_on := True\<rparr>))"
  by (simp add: cert_put_def cert_add_def split: prod.split option.split)

lemma put_all_exits: "\<exists>e \<in> set es. line_ctx T (snd e) = None \<Longrightarrow> put_all q T es cs = None"
  by (induction es arbitrary: cs) (auto simp: cert_put_cases split: option.split bind_split)

lemma put_all_loads:
  "cert_map_ok q \<Longrightarrow> \<forall>e \<in> set es. line_ctx T (snd e) \<noteq> None \<Longrightarrow> es \<noteq> [] \<Longrightarrow>
     \<exists>cs'. put_all q T es cs = Some cs' \<and> ssl_on cs'
       \<and> domain_default cs' = (case domain_default cs of None \<Rightarrow> Some (fst (hd es)) | Some d \<Rightarrow> Some d)
       \<and> (\<forall>d. cm_get q (cert_hd cs') d = (case map_of (rev es) d of Some f \<Rightarrow> line_ctx T f | None \<Rightarrow> cm_get q (cert_hd cs) d))"
proof (induction es arbitrary: cs)
  case (Cons e es)
  obtain ctx where ctx: "line_ctx T (snd e) = Some ctx" using Cons.prems(2) by auto
  define cs1 where "cs1 = cs\<lparr>cert_hd := cm_put q (cert_hd cs) (fst e) ctx,
    domain_default := (case domain_default cs of None \<Rightarrow> Some (fst e) | Some d \<Rightarrow> Some d), ssl_on := True\<rparr>"
  have cs1: "cert_put q T e cs = Some cs1" "ssl_on cs1"
    "domain_default cs1 = (case domain_default cs of None \<Rightarrow> Some (fst e) | Some d \<Rightarrow> Some d)"
    "cert_hd cs1 = cm_put q (cert_hd cs) (fst e) ctx"
    by (simp_all add: cert_put_cases ctx cs1_def)
  have one: "\<forall>d. cm_get q (cert_hd cs1) d = (if d = fst e then Some ctx else cm_get q (cert_hd cs) d)"
    using Cons.prems(1) cs1(4) by (simp add: cert_map_ok_def)
  have rev: "map_of (rev (e # es)) d = (case map_of (rev es) d of Some f \<Rightarrow> Some f | None \<Rightarrow> if d = fst e then Some (snd e) else None)" for d
    by (cases e) (auto simp: map_add_def split: option.split)
  show ?case
  proof (cases "es = []")
    case True
    show ?thesis unfolding True using cs1 one ctx by (intro exI [of _ cs1]) (simp split: option.split)
  next
    case False
    obtain cs' where c: "put_all q T es cs1 = Some cs'" "ssl_on cs'"
      "domain_default cs' = (case domain_default cs1 of None \<Rightarrow> Some (fst (hd es)) | Some d \<Rightarrow> Some d)"
      "\<forall>d. cm_get q (cert_hd cs') d = (case map_of (rev es) d of Some f \<Rightarrow> line_ctx T f | None \<Rightarrow> cm_get q (cert_hd cs1) d)"
      using Cons.IH [OF Cons.prems(1) _ False, of cs1] Cons.prems(2) by auto
    have "domain_default cs' = (case domain_default cs of None \<Rightarrow> Some (fst (hd (e # es))) | Some d \<Rightarrow> Some d)"
      by (simp add: c(3) cs1(3) split: option.split)
    moreover have "\<forall>d. cm_get q (cert_hd cs') d
        = (case map_of (rev (e # es)) d of Some f \<Rightarrow> line_ctx T f | None \<Rightarrow> cm_get q (cert_hd cs) d)"
    proof
      show "cm_get q (cert_hd cs') d = (case map_of (rev (e # es)) d of Some f \<Rightarrow> line_ctx T f | None \<Rightarrow> cm_get q (cert_hd cs) d)" for d
        by (cases "map_of (rev es) d") (simp_all only: c(4) [rule_format] one [rule_format] rev option.case ctx split: if_split, simp_all add: ctx)
    qed
    moreover have "put_all q T (e # es) cs = Some cs'" using cs1(1) c(1) by simp
    ultimately show ?thesis using c(2) by blast
  qed
qed simp

text \<open>C18. A file with one \<open>domain:crt:key\<close> a line is loaded exactly when a context can be made for every line, else
  the process ends.  Afterwards a client that asks for a name gets the context of the last line for it, one
  that names another domain gets none, and one that names no domain gets that of the first line's domain;
  all of them speak TLS 1.2 at least with the certificate and key of their line.\<close>

theorem certs_file_served:
  assumes "cert_map_ok q" "\<forall>d. cm_get q m d = None" "es \<noteq> []" "\<forall>e \<in> set es. cert_fields_ok e"
  shows "if \<exists>e \<in> set es. line_ctx T (snd e) = None then axil_certs_add q T (Some (certs_text es)) (no_certs m) = None
    else \<exists>cs. axil_certs_add q T (Some (certs_text es)) (no_certs m) = Some cs \<and> ssl_on cs
      \<and> (\<forall>d. axil_sni q (Some d) cs = Option.bind (map_of (rev es) d) (line_ctx T))
      \<and> (\<exists>f ctx. map_of (rev es) (fst (hd es)) = Some f \<and> start_tls q T True cs = Tls ctx \<and> line_ctx T f = Some ctx)
      \<and> (\<forall>d ctx. axil_sni q (Some d) cs = Some ctx \<longrightarrow> ctx_min ctx = Some TLSv1_2 \<and> (d, ctx_crt ctx, ctx_key ctx) \<in> set es)"
proof -
  have load: "axil_certs_add q T (Some (certs_text es)) (no_certs m) = put_all q T es (no_certs m)"
    using certs_loop_text [OF assms(3,4), of q T "[]" "no_certs m"] by (simp add: axil_certs_add_def)
  show ?thesis
  proof (cases "\<exists>e \<in> set es. line_ctx T (snd e) = None")
    case True
    then show ?thesis by (simp add: load put_all_exits)
  next
    case False
    then have "\<forall>e \<in> set es. line_ctx T (snd e) \<noteq> None" by simp
    from put_all_loads [OF assms(1) this assms(3), of "no_certs m"] obtain cs where cs: "put_all q T es (no_certs m) = Some cs" "ssl_on cs"
      "domain_default cs = Some (fst (hd es))" "\<forall>d. cm_get q (cert_hd cs) d = Option.bind (map_of (rev es) d) (line_ctx T)"
      using assms(2) by (auto simp: no_certs_def split: option.split bind_split)
    have "fst (hd es) \<in> dom (map_of (rev es))" using assms(3) by (simp add: dom_map_of_conv_image_fst)
    then obtain f where f: "map_of (rev es) (fst (hd es)) = Some f" by blast
    then have "(fst (hd es), f) \<in> set es" using map_of_SomeD by fastforce
    then obtain ctx where ctx: "line_ctx T f = Some ctx" using False by fastforce
    have "start_tls q T True cs = Tls ctx"
      using ctx by (simp add: start_tls_def cs(3,4) f ctx_new_SomeD [OF ctx])
    moreover have "ctx_min c = Some TLSv1_2 \<and> (d, ctx_crt c, ctx_key c) \<in> set es" if "axil_sni q (Some d) cs = Some c" for d c
    proof (cases "map_of (rev es) d")
      case None
      with that show ?thesis by (simp add: axil_sni_def cs(4))
    next
      case (Some g)
      then have "line_ctx T g = Some c" using that by (simp add: axil_sni_def cs(4))
      from ctx_new_SomeD [OF this] map_of_SomeD [OF Some] show ?thesis by simp
    qed
    ultimately show ?thesis using False cs f ctx by (auto simp: load axil_sni_def)
  qed
qed

text \<open>A library that takes every file but \<open>bad\<close>.\<close>

definition demo_tls :: tls_lib where
  "demo_tls = \<lparr>t_new = Some \<lparr>ctx_alpn = False, ctx_min = None, ctx_off = {}, ctx_ciphers = [], ctx_suites = [], ctx_groups = [],
     ctx_ecdh_auto = False, ctx_crt = [], ctx_key = []\<rparr>, t_min = (\<lambda>v. True), t_ciphers = (\<lambda>l. True), t_suites = (\<lambda>l. True),
     t_groups = (\<lambda>l. True), t_crt = (\<lambda>f. if f = ''bad'' then 0 else 1), t_key = (\<lambda>f. 1), t_pair = (\<lambda>c k. True)\<rparr>"

theorem certs_file_served_witness:
  "(\<exists>cs ctx. axil_certs_add alist_certs demo_tls (Some (''a:b:c'' @ [LF] @ ''d:e:f'' @ [LF])) (no_certs []) = Some cs
     \<and> axil_sni alist_certs (Some ''d'') cs = Some ctx \<and> ctx_crt ctx = ''e'' \<and> axil_sni alist_certs (Some ''x'') cs = None)
   \<and> axil_certs_add alist_certs demo_tls (Some (''a:bad:c'' @ [LF])) (no_certs []) = None"
proof -
  let ?es = "[(''a'', ''b'', ''c''), (''d'', ''e'', ''f'')]" and ?bad = "[(''a'', ''bad'', ''c'')]"
  have e: "\<forall>d. cm_get alist_certs [] d = None" by (simp add: alist_certs_def)
  have n: "axil_ctx_new demo_tls ''bad'' ''c'' = None" "\<exists>c. axil_ctx_new demo_tls ''b'' ''c'' = Some c" "\<exists>c. axil_ctx_new demo_tls ''e'' ''f'' = Some c"
    by (simp_all add: axil_ctx_new_def demo_tls_def cbug_def Let_def)
  then have good: "\<not> (\<exists>e \<in> set ?es. line_ctx demo_tls (snd e) = None)" by auto
  have fields: "\<forall>e \<in> set ?es. cert_fields_ok e" "\<forall>e \<in> set ?bad. cert_fields_ok e" by (simp_all add: cert_fields_ok_def)
  obtain cs where cs: "axil_certs_add alist_certs demo_tls (Some (certs_text ?es)) (no_certs []) = Some cs"
    "\<forall>d. axil_sni alist_certs (Some d) cs = Option.bind (map_of (rev ?es) d) (line_ctx demo_tls)"
    using certs_file_served [OF alist_certs_ok e _ fields(1), of demo_tls] unfolding if_not_P [OF good] by blast
  obtain ctx where ctx: "axil_ctx_new demo_tls ''e'' ''f'' = Some ctx" using n(3) by blast
  then have "axil_sni alist_certs (Some ''d'') cs = Some ctx \<and> ctx_crt ctx = ''e'' \<and> axil_sni alist_certs (Some ''x'') cs = None"
    using cs(2) ctx_new_SomeD(4) [OF ctx] by simp
  moreover have "axil_certs_add alist_certs demo_tls (Some (certs_text ?bad)) (no_certs []) = None"
    using certs_file_served [OF alist_certs_ok e _ fields(2), of demo_tls] n(1) by simp
  ultimately show ?thesis using cs(1) by (simp add: certs_text_def cert_line_def)
qed

end
