(* ===== verification/Axil_Main.thy ===== *)
theory Axil_Main
  imports Axil_Request Axil_Certs
begin

text \<open>
  The program \<open>axil\<close> (\<open>src/axil.c\<close>): its options (66 to 114), the directory it serves (117 to 120 with
  \<open>src/axil-posix.c\<close> 109 to 169), the session cookie (150 to 184), the connection hooks (192 to 222) and
  what \<open>axil_get_pw\<close> hands out (\<open>src/libaxil.c\<close> 2649 to 2660).

  \<open>getopt\<close> is its list of results, an option with its argument each, before the final \<open>- 1\<close>; the
  conversion of that result to the variable \<open>c\<close> of type \<open>char\<close> is written out, \<open>has_sign\<close> saying whether
  plain characters have a sign.  Changing directory is a partial function.  What a module does, signals and
  the usage text are not modelled.
\<close>

section \<open>Options\<close>

record config =
  cf_chroot :: "string option"
  cf_flags :: flagw
  cf_port :: "32 word"
  cf_ssl_port :: "32 word"
  cf_max_body_size :: nat

definition AXIL_SSL :: flagw where "AXIL_SSL = 2"

definition AXIL_ROOT :: flagw where "AXIL_ROOT = 4"

definition AXIL_SSL_ONLY :: flagw where "AXIL_SSL_ONLY = 8"

definition AXIL_DETACH :: flagw where "AXIL_DETACH = 16"

definition AXIL_AUTOAUTH :: flagw where "AXIL_AUTOAUTH = 32"

definition initial_config :: config where
  "initial_config = \<lparr>cf_chroot = None, cf_flags = 0, cf_port = 80, cf_ssl_port = 443, cf_max_body_size = 0\<rparr>"

text \<open>\<open>atoi\<close>, through the 64-bit value of \<open>strtol\<close>.\<close>

definition atoi :: "string \<Rightarrow> 32 word" where
  "atoi s =
     (let t = dropWhile isspace s;
          neg = (t \<noteq> [] \<and> hd t = CHR ''-'');
          u = (if t \<noteq> [] \<and> (hd t = CHR ''-'' \<or> hd t = CHR ''+'') then tl t else t);
          n = int (dec_value 0 (takeWhile isdigit u)) in
      word_of_int (if neg then max (- (2 ^ 63)) (- n) else min (2 ^ 63 - 1) n))"

text \<open>The character stored for a result of \<open>getopt\<close>, and its value in comparisons.\<close>

definition plain_char :: "int \<Rightarrow> char" where
  "plain_char n = char_of (nat (n mod 256))"

definition promoted :: "bool \<Rightarrow> char \<Rightarrow> int" where
  "promoted has_sign c = (if has_sign \<and> 128 \<le> ccode c then int (ccode c) - 256 else int (ccode c))"

definition set_option :: "char \<Rightarrow> string \<Rightarrow> config \<times> string option \<Rightarrow> (config \<times> string option) option" where
  "set_option c arg cm =
     (case cm of (cf, mods) \<Rightarrow>
        if c = CHR ''A'' then Some (cf\<lparr>cf_flags := cf_flags cf OR AXIL_AUTOAUTH\<rparr>, mods)
        else if c = CHR ''d'' then Some (cf\<lparr>cf_flags := cf_flags cf AND NOT AXIL_DETACH\<rparr>, mods)
        else if c = CHR ''p'' then Some (cf\<lparr>cf_port := atoi arg\<rparr>, mods)
        else if c = CHR ''C'' then Some (cf\<lparr>cf_chroot := Some arg\<rparr>, mods)
        else if c = CHR ''K'' \<or> c = CHR ''k'' then Some (cf, mods)
        else if c = CHR ''r'' then Some (cf\<lparr>cf_flags := cf_flags cf OR AXIL_ROOT\<rparr>, mods)
        else if c = CHR ''s'' then Some (cf\<lparr>cf_ssl_port := atoi arg\<rparr>, mods)
        else if c = CHR ''B'' then Some (cf\<lparr>cf_max_body_size := strtoul10 arg\<rparr>, mods)
        else if c = CHR ''m'' then Some (cf, Some arg)
        else None)"

text \<open>\<open>None\<close> is the usage text and the status 1.  After its last option \<open>getopt\<close> goes on giving
  \<open>- 1\<close>.\<close>

fun main_options :: "bool \<Rightarrow> (char \<times> string) list \<Rightarrow> config \<times> string option \<Rightarrow> (config \<times> string option) option" where
  "main_options has_sign [] cm =
     (let c = plain_char (- 1) in if promoted has_sign c = - 1 then Some cm else set_option c [] cm)"
| "main_options has_sign ((c, arg) # opts) cm =
     (if promoted has_sign c = - 1 then Some cm
      else case set_option c arg cm of
          None \<Rightarrow> None
        | Some cm' \<Rightarrow> main_options has_sign opts cm')"

text \<open>The second reading of the options loads the certificates.\<close>

fun main_certs ::
  "'m cert_map \<Rightarrow> tls_lib \<Rightarrow> (string \<Rightarrow> string option) \<Rightarrow> (char \<times> string) list \<Rightarrow> 'm certs \<Rightarrow> 'm certs option" where
  "main_certs q T mapped [] cs = Some cs"
| "main_certs q T mapped ((o_char, arg) # opts) cs =
     (case (if o_char = CHR ''K'' then axil_certs_add q T (mapped arg) cs
            else if o_char = CHR ''k'' then axil_cert_add q T arg cs
            else Some cs) of
        None \<Rightarrow> None
      | Some cs' \<Rightarrow> main_certs q T mapped opts cs')"

section \<open>The directory served\<close>

definition axil_mmap :: "(string \<Rightarrow> string option) \<Rightarrow> string \<Rightarrow> string option" where
  "axil_mmap files path =
     (case files path of None \<Rightarrow> None | Some content \<Rightarrow> if content = [] then None else Some content)"

text \<open>The directory after \<open>chroot\<close> or \<open>chdir\<close> and the configuration it leaves; \<open>None\<close> is the exit of \<open>CBUG\<close>.\<close>

definition init_pre_bind ::
  "('d \<Rightarrow> string \<Rightarrow> 'd option) \<Rightarrow> bool \<Rightarrow> string option \<Rightarrow> 'd \<Rightarrow> (string option \<times> 'd) option" where
  "init_pre_bind cd euid_nonzero chroot_dir d =
     (let c = (if euid_nonzero \<and> chroot_dir = None then Some ''.'' else chroot_dir) in
      case c of
        None \<Rightarrow> Some (c, d)
      | Some p \<Rightarrow> map_option (Pair c) (cd d p))"

definition start_dir ::
  "('d \<Rightarrow> string \<Rightarrow> 'd option) \<Rightarrow> bool \<Rightarrow> string option \<Rightarrow> 'd \<Rightarrow> (string option \<times> 'd) option" where
  "start_dir cd euid_nonzero chroot_dir d =
     (case chroot_dir of
        None \<Rightarrow> init_pre_bind cd euid_nonzero chroot_dir d
      | Some p \<Rightarrow> Option.bind (cd d p) (init_pre_bind cd euid_nonzero chroot_dir))"

section \<open>The start of the program\<close>

text \<open>The modules \<open>main\<close> loads, one after another (130 to 140).\<close>

function module_paths :: "string \<Rightarrow> string list" where
  "module_paths p =
     (case strchr p (CHR '':'') of None \<Rightarrow> [p] | Some n \<Rightarrow> take n p # module_paths (drop (Suc n) p))"
  by pat_completeness auto
termination
  by (relation "measure length") (auto dest: strchr_SomeD)

declare module_paths.simps [simp del]

datatype start_error = Usage | BadCertificate | NoDirectory

text \<open>What \<open>main\<close> has set up when the loop begins: the configuration, the certificates, the directory, the
  modules loaded.\<close>

definition axil_start ::
  "bool \<Rightarrow> 'm cert_map \<Rightarrow> tls_lib \<Rightarrow> 'm \<Rightarrow> (string \<Rightarrow> string option) \<Rightarrow> ('d \<Rightarrow> string \<Rightarrow> 'd option) \<Rightarrow> bool \<Rightarrow> 'd
     \<Rightarrow> (char \<times> string) list \<Rightarrow> start_error + (config \<times> 'm certs \<times> 'd \<times> string list)" where
  "axil_start has_sign q T m0 mapped cd euid_nonzero d opts =
     (case main_options has_sign opts (initial_config\<lparr>cf_flags := AXIL_DETACH\<rparr>, None) of
        None \<Rightarrow> Inl Usage
      | Some (cf, mods) \<Rightarrow>
          (case main_certs q T mapped opts (no_certs m0) of
             None \<Rightarrow> Inl BadCertificate
           | Some cs \<Rightarrow>
               (case start_dir cd euid_nonzero (cf_chroot cf) d of
                  None \<Rightarrow> Inl NoDirectory
                | Some (c, d') \<Rightarrow>
                    Inr (cf\<lparr>cf_chroot := c\<rparr>, cs, d', case mods of None \<Rightarrow> [] | Some p \<Rightarrow> module_paths p))))"

section \<open>The session cookie\<close>

function session_token :: "string \<Rightarrow> string option" where
  "session_token p =
     (if p = [] then None
      else
        let q = dropWhile (\<lambda>c. c = CHR '' '') p in
        case strchr q (CHR ''='') of
          None \<Rightarrow> None
        | Some n \<Rightarrow>
            if n = 8 \<and> take 8 q = ''QSESSION'' then
              Some (take (BUFSIZ - 1) (takeWhile (\<lambda>c. c \<noteq> CHR '';'') (drop (Suc n) q)))
            else case strchr (drop n q) (CHR '';'') of
                None \<Rightarrow> None
              | Some m \<Rightarrow> session_token (drop (Suc (n + m)) q))"
  by pat_completeness auto
termination
proof (relation "measure length", goal_cases)
  case (2 p q n m)
  have "n < length q" using strchr_SomeD [OF 2(3)] by simp
  moreover have "length q \<le> length p" unfolding 2(2) by (rule length_dropWhile_le)
  ultimately show ?case by simp
qed simp

declare session_token.simps [simp del]

definition axil_auth_check :: "'m string_map \<Rightarrow> (string \<Rightarrow> string option) \<Rightarrow> 'm \<Rightarrow> string option" where
  "axil_auth_check q get_session_user env =
     (case axil_env_get q env ENV_VALUE_LEN ''HTTP_COOKIE'' of
        (_, None) \<Rightarrow> None
      | (_, Some cookie) \<Rightarrow> Option.bind (session_token cookie) get_session_user)"

section \<open>Hooks\<close>

definition axil_connect ::
  "'m string_map \<Rightarrow> (string \<Rightarrow> passwd option) \<Rightarrow> string option \<Rightarrow> flagw \<Rightarrow> nat \<Rightarrow> 'm \<Rightarrow> server \<Rightarrow> bool \<times> 'm \<times> server" where
  "axil_connect q getpwnam own_name cfg i env s =
     (if has cfg AXIL_AUTOAUTH then
        (True, snd (axil_auth q getpwnam i (case own_name of Some n \<Rightarrow> n | None \<Rightarrow> ''root'') env s))
      else (False, env, s))"

text \<open>Whether \<open>axil_vim\<close> and \<open>axil_disconnect\<close> call the module.\<close>

definition hook_called :: "server \<Rightarrow> nat \<Rightarrow> bool" where
  "hook_called s i \<longleftrightarrow> has (d_flags (descr_map s i)) DF_AUTHENTICATED"

definition axil_get_pw :: "server \<Rightarrow> nat \<Rightarrow> int \<times> passwd option" where
  "axil_get_pw s i = (if has (d_flags (descr_map s i)) DF_AUTHENTICATED then (0, d_pw (descr_map s i)) else (- 1, None))"

section \<open>Starting\<close>

lemma plain_char_end: "plain_char (- 1) = CHR 0xFF"
  by (simp add: plain_char_def)

definition option_letters :: "string" where
  "option_letters = ''AdpCKkrsBm''"

lemma set_option_letter: "set_option c arg cm \<noteq> None \<longleftrightarrow> c \<in> set option_letters"
  by (cases cm) (simp add: set_option_def option_letters_def)

text \<open>Where plain characters have no sign the end of the options, \<open>- 1\<close>, is read as the character 255,
  which is no option: \<open>axil\<close> prints its usage and exits whatever its command line is.\<close>

theorem unsigned_char_never_starts: "main_options False opts cm = None"
proof (induction opts arbitrary: cm)
  case Nil
  then show ?case by (cases cm) (simp add: plain_char_end set_option_def promoted_def)
next
  case (Cons p opts)
  obtain c arg where p: "p = (c, arg)" by fastforce
  show ?case using Cons.IH unfolding p by (simp add: promoted_def split: option.split)
qed

text \<open>Where they have one, the options are accepted exactly when every one is a letter of the
  option string.\<close>

theorem options_accepted:
  assumes "\<forall>p \<in> set opts. ccode (fst p) < 128"
  shows "main_options True opts cm \<noteq> None \<longleftrightarrow> fst ` set opts \<subseteq> set option_letters"
  using assms
proof (induction opts arbitrary: cm)
  case Nil
  then show ?case by (simp add: plain_char_end promoted_def)
next
  case (Cons p opts)
  obtain c arg where p: "p = (c, arg)" by fastforce
  have "promoted True c \<noteq> - 1" using Cons.prems by (simp add: p promoted_def)
  then show ?case
    using Cons set_option_letter [of c arg cm] unfolding p by (cases "set_option c arg cm") auto
qed

theorem options_accepted_witness:
  "main_options True [(CHR ''C'', ''/srv''), (CHR ''d'', [])] (initial_config, None) \<noteq> None
     \<and> main_options True [(CHR ''u'', ''me'')] (initial_config, None) = None"
proof (intro conjI)
  show "main_options True [(CHR ''C'', ''/srv''), (CHR ''d'', [])] (initial_config, None) \<noteq> None"
    by (subst options_accepted) (simp_all add: option_letters_def)
  have "\<not> main_options True [(CHR ''u'', ''me'')] (initial_config, None) \<noteq> None"
    by (subst options_accepted) (simp_all add: option_letters_def)
  then show "main_options True [(CHR ''u'', ''me'')] (initial_config, None) = None" by blast
qed

text \<open>A directory given with \<open>-C\<close> is entered twice, the second time from the first: a relative one must
  contain itself.\<close>

lemma start_dir_twice:
  "start_dir cd user (Some p) d = Option.bind (cd d p) (\<lambda>d1. map_option (Pair (Some p)) (cd d1 p))"
  by (cases "cd d p") (simp_all add: start_dir_def init_pre_bind_def)

lemma module_paths_split: "module_paths p = split_on (CHR '':'') p"
proof (induction p rule: module_paths.induct)
  case (1 p)
  show ?case
  proof (cases "strchr p (CHR '':'')")
    case None
    then have "CHR '':'' \<notin> set p" by simp
    then have "split_on (CHR '':'') p = [p]" by (rule split_on_Nil)
    then show ?thesis by (subst module_paths.simps) (simp only: None option.case)
  next
    case (Some n)
    then have "p = take n p @ CHR '':'' # drop (Suc n) p" "CHR '':'' \<notin> set (take n p)"
      using strchr_SomeD [OF Some] id_take_nth_drop [of n p] by auto
    then have "split_on (CHR '':'') p = take n p # split_on (CHR '':'') (drop (Suc n) p)"
      by (metis split_on_append)
    with 1 [OF Some] Some show ?thesis by (subst module_paths.simps) simp
  qed
qed

section \<open>Session cookies\<close>

text \<open>Cookies as browsers send them, and the names and values they can have.\<close>

fun cookie_text :: "(string \<times> string) list \<Rightarrow> string" where
  "cookie_text [] = []"
| "cookie_text [(n, v)] = n @ ''='' @ v"
| "cookie_text ((n, v) # c # cs) = n @ ''='' @ v @ ''; '' @ cookie_text (c # cs)"

definition cookie_ok :: "string \<times> string \<Rightarrow> bool" where
  "cookie_ok c \<longleftrightarrow> (case c of (n, v) \<Rightarrow> n \<noteq> [] \<and> {CHR ''='', CHR '';'', CHR '' ''} \<inter> set n = {} \<and> CHR '';'' \<notin> set v)"

lemma session_token_step:
  assumes "n \<noteq> []" "{CHR ''='', CHR '';'', CHR '' ''} \<inter> set n = {}" "CHR '';'' \<notin> set v" "rest = [] \<or> hd rest = CHR '';''"
  shows "session_token (replicate k (CHR '' '') @ n @ ''='' @ v @ rest) =
    (if n = ''QSESSION'' then Some (take (BUFSIZ - 1) v)
     else if rest = [] then None else session_token (tl rest))"
proof -
  let ?q = "n @ CHR ''='' # v @ rest"
  have drop: "dropWhile (\<lambda>c. c = CHR '' '') (replicate k (CHR '' '') @ ?q) = ?q"
    using assms(1,2) by (subst dropWhile_append2) (auto simp: neq_Nil_conv)
  have eq: "strchr ?q (CHR ''='') = Some (length n)" using assms(2) by (intro strchr_append) auto
  have "takeWhile (\<lambda>c. c \<noteq> CHR '';'') (v @ rest) = v @ takeWhile (\<lambda>c. c \<noteq> CHR '';'') rest"
    by (rule takeWhile_append2) (use assms(3) in auto)
  moreover have "takeWhile (\<lambda>c. c \<noteq> CHR '';'') rest = []" using assms(4) by (cases rest) auto
  ultimately have val: "takeWhile (\<lambda>c. c \<noteq> CHR '';'') (v @ rest) = v" by simp
  have name: "length n = 8 \<and> take 8 ?q = ''QSESSION'' \<longleftrightarrow> n = ''QSESSION''" by auto
  have next_semi: "strchr (CHR ''='' # v @ rest) (CHR '';'') = (if rest = [] then None else Some (Suc (length v)))"
    using assms(3,4) strchr_append [of "CHR '';''" v "tl rest"] by (cases rest) auto
  show ?thesis
    by (subst session_token.simps) (use assms(1) drop eq val name next_semi in \<open>auto simp: Let_def drop_Suc\<close>)
qed



text \<open>A cookie without a value in front of the session cookie hides it: the search for the equals sign
  runs on into the session cookie, whose name is then not recognised, and no user is found.\<close>

theorem valueless_cookie_hides_session:
  assumes "n \<noteq> []" "{CHR ''='', CHR '' ''} \<inter> set n = {}" "CHR '';'' \<notin> set tok" "q_get q env ''HTTP_COOKIE'' = Some (n @ ''; QSESSION='' @ tok)"
    "length n + 11 + length tok < ENV_VALUE_LEN"
  shows "axil_auth_check q get_session_user env = None"
proof -
  let ?p = "n @ ''; QSESSION='' @ tok"
  have drop: "dropWhile (\<lambda>c. c = CHR '' '') ?p = ?p" using assms(1,2) by (cases n) auto
  have "strchr ((n @ ''; QSESSION'') @ CHR ''='' # tok) (CHR ''='') = Some (length (n @ ''; QSESSION''))"
    using assms(2) by (intro strchr_append) auto
  then have eq: "strchr ?p (CHR ''='') = Some (length n + 10)" by simp
  have semi: "strchr (drop (length n + 10) ?p) (CHR '';'') = None" using assms(3) by simp
  have "session_token ?p = None"
    using assms(1) by (subst session_token.simps) (simp only: drop eq semi Let_def option.case, simp)
  moreover have "snprintf_trunc ENV_VALUE_LEN ?p = ?p" using assms(5) by (simp add: snprintf_trunc_def)
  ultimately show ?thesis using assms(4,5) by (simp add: axil_auth_check_def axil_env_get_def)
qed

theorem valueless_cookie_hides_session_witness:
  "axil_auth_check alist_map (\<lambda>t. Some ''me'') [(''HTTP_COOKIE'', ''dark; QSESSION=t'')] = None"
  using valueless_cookie_hides_session [of "''dark''" "''t''" alist_map "[(''HTTP_COOKIE'', ''dark; QSESSION=t'')]" "\<lambda>t. Some ''me''"]
  by (simp add: alist_map_def ENV_VALUE_LEN_def ENV_LEN_def ENV_KEY_LEN_def BUFSIZ_def)

section \<open>Authentication\<close>

text \<open>Accounts: \<open>axil_get_pw\<close> gives out an account only for a descriptor marked as authenticated, and a
  connection becomes so without a session only through \<open>axil_connect\<close> under the option \<open>-A\<close>, which
  then always says the connection is established.\<close>

theorem connect_authenticates:
  "case axil_connect q getpwnam own cfg i env s of (r, env', s') \<Rightarrow>
     (r \<longleftrightarrow> has cfg AXIL_AUTOAUTH) \<and> (hook_called s' i \<longleftrightarrow> has cfg AXIL_AUTOAUTH \<or> hook_called s i)
     \<and> (fst (axil_get_pw s' i) = 0 \<longleftrightarrow> has cfg AXIL_AUTOAUTH \<or> hook_called s i)"
proof -
  have "has (fl OR DF_AUTHENTICATED) DF_AUTHENTICATED" for fl
    by (simp add: has_split) (simp add: has_def df_defs)
  then show ?thesis
    by (simp add: axil_connect_def axil_auth_def hook_called_def axil_get_pw_def Let_def add_flags_def split: option.split)
qed

end
