(* ===== verification/Axil_Service.thy ===== *)
theory Axil_Service
  imports Axil_Request
begin

text \<open>
  What requests get, end to end: the body of a request as the handler sees it, which handler is
  called, and the answer to a request nothing serves.  The definitions are those of
  \<open>Axil_Request\<close> and the theories it composes.
\<close>

section \<open>Bodies\<close>

text \<open>What a stream delivers before its first error.\<close>

fun stream :: "kread list \<Rightarrow> string" where
  "stream [] = []"
| "stream (Got b # as) = b @ stream as"
| "stream (RErr e # as) = []"

lemma recv_stream: "recv_from as n = (Got b, as') \<Longrightarrow> stream as = b @ stream as'"
  by (auto simp: recv_from_def split: list.splits kread.splits if_splits)

lemma post_fill_stream:
  "post_fill alloc needed as block len = (ok, block', len') \<Longrightarrow> len \<le> length block \<Longrightarrow>
     \<exists>got. prefix got (stream as) \<and> len' = len + length got \<and> len' \<le> length block' \<and> take len' block' = take len block @ got
       \<and> (ok \<longrightarrow> needed \<le> len')"
proof (induction "needed - len" arbitrary: as block len rule: less_induct)
  case less
  show ?case
  proof (cases "needed \<le> len")
    case True
    with less.prems show ?thesis by (subst (asm) post_fill.simps) (auto intro!: exI [of _ "[]"])
  next
    case need: False
    obtain r as' where r: "recv_from as BUFSIZ = (r, as')" by fastforce
    have stop: ?thesis if "(ok, block', len') = (False, block, len)" using that less.prems(2) by (auto intro!: exI [of _ "[]"])
    show ?thesis
    proof (cases r)
      case (RErr e)
      with r need less.prems(1) stop show ?thesis by (subst (asm) post_fill.simps) simp
    next
      case (Got b)
      define sz where "sz = (len + length b) * 2"
      define grow where "grow \<longleftrightarrow> length block < len + length b"
      define blk where "blk = (if grow then take sz block @ replicate (sz - length block) NUL else block)"
      define new where "new = take len blk @ b @ drop (len + length b) blk"
      have unf: "post_fill alloc needed as block len =
          (if b = [] \<or> grow \<and> \<not> alloc sz then (False, block, len) else post_fill alloc needed as' new (len + length b))"
        using need r Got by (subst post_fill.simps) (simp add: Let_def sz_def grow_def blk_def new_def)
      show ?thesis
      proof (cases "b = [] \<or> grow \<and> \<not> alloc sz")
        case True
        with unf less.prems(1) stop show ?thesis by auto
      next
        case False
        have blk: "len + length b \<le> length blk" "take len blk = take len block"
          using less.prems(2) by (auto simp: blk_def grow_def sz_def)
        then have new: "len + length b \<le> length new" "take (len + length b) new = take len block @ b"
          using less.prems(2) by (simp_all add: new_def)
        have rec: "post_fill alloc needed as' new (len + length b) = (ok, block', len')" using unf less.prems(1) False by simp
        have "b \<noteq> []" using False by simp
        then have dec: "needed - (len + length b) < needed - len" using need by (intro diff_less_mono2) auto
        obtain got where g: "prefix got (stream as')" "len' = len + length b + length got" "len' \<le> length block'"
          "take len' block' = take (len + length b) new @ got" "ok \<longrightarrow> needed \<le> len'"
          using less.hyps [OF dec rec new(1)] by auto
        have "stream as = b @ stream as'" by (rule recv_stream) (use r Got in simp)
        with g new(2) show ?thesis by (intro exI [of _ "b @ got"]) auto
      qed
    qed
  qed
qed

lemma buffer_post_body_cases:
  assumes "axil_env_get q env 32 ''HTTP_CONTENT_LENGTH'' = (r, Some v)" "v \<noteq> []"
    "buffer_post_body q mb k i rest bs len env s = Done (True, s')"
  shows "strtoul10 v \<le> (if mb \<noteq> 0 then mb else AXIL_DEFAULT_MAX_BODY_SIZE)
    \<and> (\<exists>len'. post_fill (k_alloc k) (rest + bs + 1 + strtoul10 v) (k_recv k i) (input s) len = (True, input s', len'))"
  using assms by (auto simp: buffer_post_body_def Let_def bind_run_Done split: if_splits prod.splits)


text \<open>No NUL is put after a body that arrives after its headers: the string the handler is given goes on
  with what the input block held from earlier requests.\<close>

theorem post_body_not_terminated:
  assumes "axil_env_get q env 32 ''HTTP_CONTENT_LENGTH'' = (r, Some v)" "v \<noteq> []"
    "strtoul10 v \<le> (if mb \<noteq> 0 then mb else AXIL_DEFAULT_MAX_BODY_SIZE)" "io s i \<noteq> NoIo"
    "rest + bs + 1 = len" "k_recv k i = Got b # later" "length b = strtoul10 v" "0 < length b" "length b \<le> BUFSIZ"
    "NUL \<notin> set b" "len + length b \<le> length (input s)"
  shows "\<exists>s'. buffer_post_body q mb k i rest bs len env s = Done (True, s')
    \<and> cstr_at (input s') (rest + bs + 1) = b @ cstr_at (input s) (rest + bs + 1 + length b)"
proof -
  let ?block = "take len (input s) @ b @ drop (len + length b) (input s)"
  have "recv_from (k_recv k i) BUFSIZ = (Got b, later)" using assms(6,9) by (simp add: recv_from_def)
  moreover have "b \<noteq> []" using assms(8) by simp
  moreover have "post_fill (k_alloc k) (len + length b) later ?block (len + length b) = (True, ?block, len + length b)"
    by (subst post_fill.simps) simp
  ultimately have "post_fill (k_alloc k) (len + length b) (k_recv k i) (input s) len = (True, ?block, len + length b)"
    using assms(8,11) by (subst post_fill.simps) (simp add: Let_def)
  then have "buffer_post_body q mb k i rest bs len env s = Done (True, s\<lparr>input := ?block\<rparr>)"
    using assms(1-5,7) by (simp add: buffer_post_body_def Let_def)
  moreover have "cstr (b @ drop (len + length b) (input s)) = b @ cstr (drop (len + length b) (input s))"
    unfolding cstr_def by (rule takeWhile_append2) (use assms(10) in auto)
  moreover have "drop len ?block = b @ drop (len + length b) (input s)" using assms(11) by simp
  ultimately show ?thesis unfolding assms(5) by (auto simp: cstr_at_def)
qed

text \<open>A body of three bytes that comes after its headers into a block that held a longer request.\<close>

definition body_kernel :: kernel where
  "body_kernel = demo_kernel\<lparr>k_recv := (\<lambda>i. [Got ''abc''])\<rparr>"

definition body_client :: server where
  "body_client = demo_client\<lparr>input := [CR, LF] @ ''old secret'' @ [NUL]\<rparr>"

lemma demo_length: "axil_env_get alist_map [(''HTTP_CONTENT_LENGTH'', ''3'')] 32 ''HTTP_CONTENT_LENGTH'' = (0, Some ''3'')"
  "strtoul10 ''3'' = 3"
  by (simp_all add: axil_env_get_def alist_map_def snprintf_trunc_def strtoul10_def ULONG_MAX_def cclass Let_def)

theorem post_body_not_terminated_witness:
  "\<exists>s'. buffer_post_body alist_map 0 body_kernel 5 0 1 2 [(''HTTP_CONTENT_LENGTH'', ''3'')] body_client = Done (True, s')
     \<and> cstr_at (input s') 2 = ''abc secret''"
  using post_body_not_terminated [where q = alist_map and env = "[(''HTTP_CONTENT_LENGTH'', ''3'')]" and s = body_client
      and k = body_kernel and b = "''abc''" and i = "5" and rest = "0" and bs = "1" and len = "2" and mb = "0", OF demo_length(1)]
  by (simp add: demo_length(2) AXIL_DEFAULT_MAX_BODY_SIZE_def body_client_def body_kernel_def demo_client_state BUFSIZ_def
    cstr_at_def cstr_def numeral_2_eq_2)



section \<open>Handlers\<close>

text \<open>A default handler is the last word: with one set, a request no handler matches has the same outcome
  whatever fallback handlers are registered and whatever the default handler returns.\<close>

theorem default_handler_shadows_fallbacks:
  assumes "w_default w = Some h"
  shows "request_dispatch (w\<lparr>w_fallbacks := fs\<rparr>) k i method uri is_head body env s = request_dispatch w k i method uri is_head body env s"
proof -
  have "find_handler (w\<lparr>w_fallbacks := fs\<rparr>) method uri is_head env = find_handler w method uri is_head env"
    by (simp add: find_handler_def Let_def cong: if_cong option.case_cong)
  with assms show ?thesis by (simp add: request_dispatch_def split: prod.split option.split)
qed

theorem default_handler_shadows_fallbacks_witness:
  "request_dispatch (demo_site\<lparr>w_default := Some (), w_fallbacks := [(), ()]\<rparr>) demo_kernel 5 ''GET'' ''/x'' False [] [] demo_client
     = request_dispatch (demo_site\<lparr>w_default := Some ()\<rparr>) demo_kernel 5 ''GET'' ''/x'' False [] [] demo_client"
  using default_handler_shadows_fallbacks [of "demo_site\<lparr>w_default := Some ()\<rparr>" "()"] by simp


section \<open>Requests nothing serves\<close>

text \<open>A request without a body that no file, mapping or upstream takes comes to \<open>request_dispatch\<close>, its
  connection marked for closing unless it speaks WebSocket.\<close>

definition to_handlers :: "nat \<Rightarrow> flagw \<Rightarrow> server \<Rightarrow> server" where
  "to_handlers i fl s =
     (let s0 = (if req_method fl = ''HEAD'' then upd_descr i (add_flags DF_HEAD) s else s) in
      if has (d_flags (descr_map s0 i)) DF_WEBSOCKET then s0 else mark_close i s0)"

lemma to_handlers_state:
  assumes "server_ok s" "idle k i s"
  shows "server_ok (to_handlers i fl s)" "idle k i (to_handlers i fl s)" "events (to_handlers i fl s) = events s"
    "d_headers (descr_map (to_handlers i fl s) i) = d_headers (descr_map s i)"
    "has (d_flags (descr_map (to_handlers i fl s) i)) DF_HEAD \<longleftrightarrow> req_method fl = ''HEAD'' \<or> has (d_flags (descr_map s i)) DF_HEAD"
proof -
  show "server_ok (to_handlers i fl s)"
    using assms(1) by (auto simp: to_handlers_def Let_def has_split intro!: mark_close_ok server_ok_upd simp: add_flags_def)
  show "idle k i (to_handlers i fl s)" using assms(2) by (simp add: to_handlers_def Let_def mark_close_def idle_def add_flags_def)
  show "events (to_handlers i fl s) = events s" "d_headers (descr_map (to_handlers i fl s) i) = d_headers (descr_map s i)"
    by (simp_all add: to_handlers_def Let_def mark_close_def add_flags_def)
  have "has DF_HEAD DF_HEAD" "\<not> has DF_TO_CLOSE DF_HEAD" by (simp_all add: has_def df_defs)
  then show "has (d_flags (descr_map (to_handlers i fl s) i)) DF_HEAD \<longleftrightarrow> req_method fl = ''HEAD'' \<or> has (d_flags (descr_map s i)) DF_HEAD"
    by (simp add: to_handlers_def Let_def mark_close_def add_flags_def)
qed

lemma request_reaches_dispatch:
  assumes "2 \<le> length argv" "request_target (argv ! 1) = Target uri param"
    "headers_get (w_q w) env (cstr_at (input s) rest) = Some (env1, bs)" "\<not> has fl (AXIL_POST OR AXIL_PUT OR AXIL_DELETE)"
    "w_check w = None" "w_statics w = None" "w_ws w = (\<lambda>key. None)" "\<not> w_ssl_only w"
    "env_prep (w_q w) (w_euid_nonzero w) (w_chroot w) (map_option pw_dir (d_pw (descr_map s i))) env1 uri param (req_method fl) = Some env2"
  shows "request_handle w k i argv rest len fl env s
    = request_dispatch w k i (req_method fl) uri (has fl AXIL_HEAD) (cstr_at (input s) (rest + bs + 1)) env2 (to_handlers i fl s)"
proof -
  define s0 where "s0 = (if req_method fl = ''HEAD'' then upd_descr i (add_flags DF_HEAD) s else s)"
  have f0: "input s0 = input s" "d_pw (descr_map s0 i) = d_pw (descr_map s i)" by (simp_all add: s0_def add_flags_def)
  have "request_serve w k i argv (req_method fl) uri param (has fl AXIL_HEAD) b env1 s0
      = request_dispatch w k i (req_method fl) uri (has fl AXIL_HEAD) b env2 (to_handlers i fl s)" for b
    using assms(5-9) by (simp add: request_serve_def f0 Let_def request_static_def request_handle_static_def
      request_handle_redirect_def static_allowed_def autoindex_allowed_def to_handlers_def s0_def [symmetric])
  moreover have "request_handle_trailing_slash (static_allowed (w_fs w) (w_fnmatch w) None) k i h u t = Done (False, t)" for h u t
    by (simp add: request_handle_trailing_slash_def static_allowed_def)
  ultimately show ?thesis
    using assms(1-6) unfolding request_handle_def Let_def s0_def [symmetric]
    by (simp add: f0 platform_auth_try_def del: One_nat_def)
qed


definition empty_site :: "((string \<times> string) list, unit) site" where
  "empty_site = demo_site\<lparr>w_handlers := []\<rparr>"

lemma demo_headers_404: "length (respond_head 404 (axil_default_response_headers [])) < 4096"
proof -
  have "axil_status_text 404 = ''Not Found''" by code_simp
  moreover have "show_int 404 = ''404''" by (simp add: show_int_def show_nat.simps)
  ultimately show ?thesis
    using length_default_headers [of "[]"] by (simp add: length_respond_head)
qed



section \<open>Requests on a pending pair\<close>

lemma stale_pair: "tunnel_pair s j = int i \<Longrightarrow> tunnel_pair s i = - 1 \<Longrightarrow> \<not> server_ok s"
  by (force simp: server_ok_def elim: pairs_okD [where i = j])

text \<open>C37. A body over the limit on a client whose upgrade is pending: \<open>axil_set_flags\<close> overwrites the flag
  that marks the pair, so the 413 response closes the client alone, and the upstream stays open with a
  pair that names the closed descriptor.\<close>

theorem oversized_body_strands_upstream:
  assumes "idle k i s" "tunnel_pair s i = int j" "tunnel_pair s j = int i" "i \<noteq> j"
    "axil_env_get q env 32 ''HTTP_CONTENT_LENGTH'' = (r, Some v)" "v \<noteq> []"
    "(if mb \<noteq> 0 then mb else AXIL_DEFAULT_MAX_BODY_SIZE) < strtoul10 v"
    "length (respond_head 413 (axil_default_response_headers (axil_header_set (d_headers (descr_map s i)) ''Connection'' ''close''))) < 4096"
  shows "\<exists>s'. buffer_post_body q mb k i rest bs len env s = Done (False, s') \<and> live s' = live s - {int i}
    \<and> tunnel_pair s' i = - 1 \<and> tunnel_pair s' j = int i \<and> \<not> server_ok s'"
proof -
  define s1 where "s1 = axil_set_flags i DF_TO_CLOSE (header_set i ''Connection'' ''close'' s)"
  have idle: "idle k i s1" using assms(1) by (simp add: s1_def axil_set_flags_def header_set_def idle_def)
  have f: "d_headers (descr_map s1 i) = axil_header_set (d_headers (descr_map s i)) ''Connection'' ''close''"
    "d_flags (descr_map s1 i) = DF_TO_CLOSE" "tunnel_pair s1 = tunnel_pair s" "live s1 = live s"
    by (simp_all add: s1_def axil_set_flags_def header_set_def)
  obtain es where es: "live_from (live s1) es = live s1"
    "axil_respond k i 413 (Some []) s1 = Done (axil_close k (int i) (mark_close i (emit es (upd_descr i (\<lambda>d. d\<lparr>d_headers := []\<rparr>) s1))))"
    using idle_respond [OF idle, of 413 "Some []"] assms(8) by (auto simp: f)
  let ?s2 = "mark_close i (emit es (upd_descr i (\<lambda>d. d\<lparr>d_headers := []\<rparr>) s1))"
  have nt: "\<not> has (d_flags (descr_map ?s2 i)) TEARDOWN"
    by (simp add: mark_close_def add_flags_def f) (simp add: has_def TEARDOWN_def df_defs)
  have i: "i < FD_SETSIZE" using assms(1) by (simp add: idle_def)
  note c = close_plain_effect [OF i nt, where k = k]
  have e: "tunnel_pair (axil_close k (int i) ?s2) i = - 1" "tunnel_pair (axil_close k (int i) ?s2) j = int i"
    "live (axil_close k (int i) ?s2) = live s - {int i}"
    using c(2,4) assms(2-4) es(1) by (simp_all add: mark_close_def f)
  have "buffer_post_body q mb k i rest bs len env s = Done (False, axil_close k (int i) ?s2)"
    using assms(5-7) es(2) by (simp add: buffer_post_body_def Let_def s1_def)
  moreover have "\<not> server_ok (axil_close k (int i) ?s2)"
    by (rule stale_pair [OF e(2,1)])
  ultimately show ?thesis using e by blast
qed

theorem oversized_body_strands_upstream_witness:
  "\<exists>s'. buffer_post_body alist_map 2 wide_kernel 5 0 1 2 [(''HTTP_CONTENT_LENGTH'', ''3'')] demo_pair = Done (False, s')
     \<and> int 5 \<notin> live s' \<and> tunnel_pair s' 6 = 5 \<and> \<not> server_ok s'"
proof -
  have h: "d_headers (descr_map demo_pair 5) = []"
    by (simp add: demo_pair_def ws_proxy_start_def Let_def length_demo_request snprintf_trunc_def lower_send_def
      demo_client_state axil_upstream_descr_init_def answer_of_def k_answer_def)
      (simp add: demo_kernel_def demo_client_state FD_SETSIZE_def zero_descr_def add_flags_def)
  have i: "idle wide_kernel 5 demo_pair"
    by (simp add: idle_def demo_pair_state wide_kernel_def fresh_queue_def)
  have "axil_status_text 413 = ''Payload Too Large''" by code_simp
  moreover have "show_int 413 = ''413''" by (simp add: show_int_def show_nat.simps)
  ultimately have "length (respond_head 413 (axil_default_response_headers (axil_header_set (d_headers (descr_map demo_pair 5)) ''Connection'' ''close''))) < 4096"
    using length_default_headers [of "axil_header_set [] ''Connection'' ''close''"] length_header_set [of "[]" "''Connection''" "''close''"]
    by (simp add: length_respond_head h)
  from oversized_body_strands_upstream [OF i _ _ _ demo_length(1) _ _ this, of 6 2]
  show ?thesis by (fastforce simp: demo_pair_state demo_length(2))
qed

end
