(* ===== verification/Axil_System.thy ===== *)
theory Axil_System
  imports Axil_Exec Axil_Service
begin

text \<open>
  The whole server: the steps of the descriptor table, the requests of a site, the response
  interface and the programs run for requests, in any order.  The system is a second instance of the
  locale of transition systems, with the same invariant.
\<close>

section \<open>Steps\<close>

text \<open>
  The site is what the server is configured with.  The guards are, for a request, that its
  connection is open and in no pair; for a program, that the kernel gives it fresh pipes, that descriptor 0
  is no connection, and that its callback keeps to its own connection.
\<close>

inductive site_step :: "('m, 'h) site \<Rightarrow> server \<Rightarrow> server \<Rightarrow> bool" for w :: "('m, 'h) site" where
  core: "server_step s s' \<Longrightarrow> site_step w s s'"
| request: "site_ok w i s \<Longrightarrow> i < FD_SETSIZE \<Longrightarrow> tunnel_pair s i = - 1 \<Longrightarrow> d_fd (descr_map s i) = int i
    \<Longrightarrow> int i \<in> live s \<Longrightarrow> k_malloc k \<Longrightarrow> request_handle w k i argv rest len fl env s = Done (env', s') \<Longrightarrow> site_step w s s'"
| header: "site_step w s (header_set i key value s)"
| respond: "axil_respond k i code body s = Done s' \<Longrightarrow> site_step w s s'"
| respond_file: "axil_respond_file mimes fopen k i path allowed s = Done (r, s') \<Longrightarrow> site_step w s s'"
| sendfile: "axil_sendfile mimes file k i path s = Done s' \<Longrightarrow> site_step w s s'"
| login: "axil_auth (w_q w) (w_getpwnam w) i username env s = (r, env', s') \<Longrightarrow> site_step w s s'"
| program: "i < FD_SETSIZE \<Longrightarrow> apart s {0} \<Longrightarrow> {pin, pout, perr} \<inter> live s = {} \<Longrightarrow> distinct [pin, pout, perr]
    \<Longrightarrow> site_step w s (axil_exec (Child p pin pout perr) now i inp s)"
| exec_pass: "exec_ok P i s \<Longrightarrow> d_fd (descr_map s i) = int i \<Longrightarrow> int i \<in> live s \<Longrightarrow> callback_ok P i cb
    \<Longrightarrow> axil_exec_loop cb k i polls outs errs stack s = Done (r, s') \<Longrightarrow> site_step w s s'"

inductive_cases site_stepE: "site_step w s s'"

section \<open>The invariant\<close>

lemma send_sized_ok: "server_ok s \<Longrightarrow> send_sized k i mime n body s = Done s' \<Longrightarrow> server_ok s'"
  unfolding send_sized_def by (erule axil_respond_ok [rotated]) (intro header_set_ok)

lemma fail_with_ok: "server_ok s \<Longrightarrow> fail_with k i status msg s = Done (r, s') \<Longrightarrow> server_ok s'"
  by (auto simp: fail_with_def axil_respond_plain_def bind_run_Done intro: axil_respond_ok header_set_ok)

lemma respond_file_ok:
  assumes "server_ok s" "axil_respond_file mimes fopen k i path allowed s = Done (r, s')"
  shows "server_ok s'"
proof -
  have failed: "fail_with k i st m s = Done (r, s') \<Longrightarrow> server_ok s'" for st m
    using assms(1) by (rule fail_with_ok)
  have empty: "bind_run (send_sized k i mime n body s) (\<lambda>s1. Done (0, s1)) = Done (r, s') \<Longrightarrow> server_ok s'" for mime n body
    using assms(1) by (auto simp: bind_run_Done intro: send_sized_ok)
  have sent: "bind_run (send_sized k i mime n None s) (\<lambda>s1. if has (d_flags (descr_map s1 i)) DF_HEAD then Done (0, s1)
      else bind_run (write_all k i ts s1) (\<lambda>s2. Done (0, s2))) = Done (r, s') \<Longrightarrow> server_ok s'" for mime n ts
    using assms(1) by (auto simp: bind_run_Done simp del: write_all.simps intro: write_all_ok send_sized_ok split: if_splits)
  show ?thesis
    using assms(2) unfolding axil_respond_file_def Let_def
    by (simp only: split: option.split_asm if_split_asm prod.split_asm) (erule failed | erule empty | erule sent)+
qed

lemma sendfile_ok:
  assumes "server_ok s" "axil_sendfile mimes file k i path s = Done s'"
  shows "server_ok s'"
proof -
  have answered: "axil_respond k i st body s = Done s' \<Longrightarrow> server_ok s'" for st body
    using assms(1) by (rule axil_respond_ok)
  have sent: "bind_run (send_sized k i mime n None s) (\<lambda>s1. bind_run (write_all k i ts s1)
      (\<lambda>s2. close_or_flush k i (mark_close i s2))) = Done s' \<Longrightarrow> server_ok s'" for mime n ts
  proof -
    assume "bind_run (send_sized k i mime n None s) (\<lambda>s1. bind_run (write_all k i ts s1)
      (\<lambda>s2. close_or_flush k i (mark_close i s2))) = Done s'"
    then obtain s1 s2 where "send_sized k i mime n None s = Done s1" "write_all k i ts s1 = Done s2"
      "close_or_flush k i (mark_close i s2) = Done s'" by (auto simp: bind_run_Done)
    then show "server_ok s'"
      using send_sized_ok [OF assms(1)] write_all_ok mark_close_ok close_or_flush_ok by metis
  qed
  show ?thesis
    using assms(2) unfolding axil_sendfile_def Let_def
    by (simp only: split: option.split_asm prod.split_asm) (erule answered | erule sent)+
qed

lemma auth_ok: "server_ok s \<Longrightarrow> axil_auth q getpwnam i username env s = (r, env', s') \<Longrightarrow> server_ok s'"
  by (auto simp: axil_auth_def Let_def intro!: server_ok_upd split: option.splits)

lemma program_ok:
  "server_ok s \<Longrightarrow> i < FD_SETSIZE \<Longrightarrow> apart s {0} \<Longrightarrow> {pin, pout, perr} \<inter> live s = {} \<Longrightarrow> distinct [pin, pout, perr] \<Longrightarrow>
     server_ok (axil_exec (Child p pin pout perr) now i inp s)"
  by (rule exec_ok_server, rule axil_exec_ok) (simp_all add: apart_def)

lemma site_step_ok: "server_ok s \<Longrightarrow> site_step w s s' \<Longrightarrow> server_ok s'"
proof (elim site_stepE)
  fix P i cb k polls outs errs stack r
  assume "exec_ok P i s" "d_fd (descr_map s i) = int i" "int i \<in> live s" "callback_ok P i cb"
    "axil_exec_loop cb k i polls outs errs stack s = Done (r, s')"
  then show "server_ok s'" by (rule exec_loop_ok)
qed (auto intro: server_step_ok header_set_ok axil_respond_ok respond_file_ok sendfile_ok auth_ok program_ok request_handle_ok)

interpretation system: transition_system booted "site_step w" server_ok for w :: "('m, 'h) site"
  by unfold_locales (auto intro: booted_ok site_step_ok)


lemma core_steps: "server_step\<^sup>*\<^sup>* s s' \<Longrightarrow> (site_step w)\<^sup>*\<^sup>* s s'"
  by (induction rule: rtranclp_induct) (auto intro: site_step.core rtranclp.rtrancl_into_rtrancl)

text \<open>A client accepted, a program run for it, a request handled, a pass over the program.\<close>

lemma demo_system_run:
  "(site_step demo_site)\<^sup>*\<^sup>* demo_boot (chunk_read 5 ''ab'' demo_child)"
proof -
  have "site_step demo_site demo_client demo_child"
    unfolding demo_child_def
    by (rule site_step.program) (simp_all add: demo_client_state apart_def)
  moreover have "site_step demo_site demo_child (chunk_read 5 ''ab'' demo_child)"
  proof (rule site_step.exec_pass [where k = wide_kernel and P = "{0, 11, 12}"])
    show "axil_exec_loop (relay wide_kernel) wide_kernel 5 [(7, PollReady [11])] [Got ''ab''] [] [] demo_child
        = Done (1, chunk_read 5 ''ab'' demo_child)"
      using relay_pass [OF demo_child_busy, of "''ab''"] by (simp add: demo_child_state)
  qed (simp_all add: demo_child_ok relay_callback_ok demo_child_state demo_client_state zero_descr_def)
  ultimately show ?thesis
    using core_steps [OF demo_steps(1)] by (meson rtranclp.rtrancl_into_rtrancl)
qed


end
