(* ===== verification/Axil_Typed.thy ===== *)
theory Axil_Typed
  imports Axil_System
begin

text \<open>
  The buffers of a descriptor: the queue of unsent bytes lies in its block, the response
  headers and the user name in their arrays of \<open>struct descr\<close> (\<open>src/axil-internal.h\<close> 22 to 42), in every
  state the server reaches.  The locale of transition systems is interpreted with this invariant.
\<close>

section \<open>Buffers that fit\<close>

definition queue_fits :: "wqueue \<Rightarrow> bool" where
  "queue_fits q \<longleftrightarrow> remaining_off q + remaining_len q \<le> length (remaining q) \<and> (remaining_len q = 0 \<longrightarrow> remaining_off q = 0)"

definition descr_fits :: "descr \<Rightarrow> bool" where
  "descr_fits d \<longleftrightarrow> queue_fits (d_queue d) \<and> length (d_headers d) < BUFSIZ \<and> length (d_user d) \<le> BUFSIZ"

definition table_fits :: "server \<Rightarrow> bool" where
  "table_fits s \<longleftrightarrow> (\<forall>i. descr_fits (descr_map s i))"

lemma zero_fits [simp]: "descr_fits (zero_descr fd)"
  by (simp add: descr_fits_def zero_descr_def queue_fits_def empty_queue_def BUFSIZ_def)

lemma fresh_fits [simp]: "queue_fits fresh_queue"
  by (simp add: queue_fits_def fresh_queue_def)

lemma unallocated_fits [simp]: "queue_fits (empty_queue\<lparr>remaining_size := n\<rparr>)"
  by (simp add: queue_fits_def empty_queue_def)

lemma fits_upd: "table_fits s \<Longrightarrow> (\<And>d. descr_fits d \<Longrightarrow> descr_fits (f d)) \<Longrightarrow> table_fits (upd_descr i f s)"
  by (simp add: table_fits_def)

lemma fits_emit [simp]: "table_fits (emit es s) = table_fits s"
  by (simp add: table_fits_def)

lemma fits_fields [simp]:
  "table_fits (s\<lparr>fds_active := a\<rparr>) = table_fits s" "table_fits (s\<lparr>fds_read := a\<rparr>) = table_fits s"
  "table_fits (s\<lparr>fds_write := a\<rparr>) = table_fits s" "table_fits (s\<lparr>io := f\<rparr>) = table_fits s"
  "table_fits (s\<lparr>tunnel_pair := t\<rparr>) = table_fits s" "table_fits (s\<lparr>input := b\<rparr>) = table_fits s"
  "table_fits (s\<lparr>ws_fl := w\<rparr>) = table_fits s"
  by (simp_all add: table_fits_def)

lemma flags_fit [simp]:
  "descr_fits (add_flags f d) = descr_fits d" "descr_fits (clear_flags f d) = descr_fits d"
  "descr_fits (d\<lparr>d_flags := fl\<rparr>) = descr_fits d" "descr_fits (d\<lparr>d_fd := fd\<rparr>) = descr_fits d"
  by (simp_all add: descr_fits_def add_flags_def clear_flags_def)

section \<open>The queue\<close>

lemma double_size_ge:
  assumes "double_size need sz = Some y"
  shows "need \<le> y"
  by (rule double_size.raw_induct [OF _ assms, where P = "\<lambda>n s y. n \<le> y"]) (auto split: if_splits)

text \<open>Growing a block keeps a front of it that is not longer than what is needed.\<close>

lemma grow_loop_keeps:
  assumes "grow_loop alloc need old block sz = Some r" "m \<le> need" "m \<le> length block"
  shows "m \<le> length (fst r)"
proof -
  have "m \<le> need \<longrightarrow> m \<le> length block \<longrightarrow> m \<le> length (fst r)"
  proof (rule grow_loop.raw_induct [OF _ assms(1), where P = "\<lambda>alloc need old block sz r. m \<le> need \<longrightarrow> m \<le> length block \<longrightarrow> m \<le> length (fst r)"])
    fix grow :: "(nat \<Rightarrow> bool) \<Rightarrow> nat \<Rightarrow> nat \<Rightarrow> string \<Rightarrow> nat \<Rightarrow> (string \<times> nat) option"
      and alloc :: "nat \<Rightarrow> bool" and n o_size :: nat and blk :: string and s y
    assume IH: "\<And>alloc n o_size blk s y. grow alloc n o_size blk s = Some y \<Longrightarrow> m \<le> n \<longrightarrow> m \<le> length blk \<longrightarrow> m \<le> length (fst y)"
      and eq: "(if s \<le> n then Option.bind (double_size n s) (\<lambda>sz'. if alloc sz'
          then grow alloc n o_size (take sz' blk @ replicate (sz' - length blk) NUL) sz' else Some (blk, o_size))
        else Some (blk, s)) = Some y"
    show "m \<le> n \<longrightarrow> m \<le> length blk \<longrightarrow> m \<le> length (fst y)"
    proof (intro impI)
      assume m: "m \<le> n" "m \<le> length blk"
      show "m \<le> length (fst y)"
      proof (cases "s \<le> n \<and> (\<exists>sz'. double_size n s = Some sz' \<and> alloc sz')")
        case True
        then obtain sz' where d: "double_size n s = Some sz'" "alloc sz'" by blast
        then have "m \<le> length (take sz' blk @ replicate (sz' - length blk) NUL)"
          using m double_size_ge [OF d(1)] by simp
        with IH m(1) eq True d show ?thesis by auto
      next
        case False
        with eq m show ?thesis by (auto split: if_splits bind_splits)
      qed
    qed
  qed
  with assms(2,3) show ?thesis by blast
qed

lemma may_inc_fits:
  assumes "queue_fits q" "axil_rem_may_inc alloc n q = Done q1"
  shows "queue_fits q1 \<and> remaining_len q1 = remaining_len q"
proof -
  define q0 where "q0 = (if remaining_off q = 0 then q
    else q\<lparr>remaining := pending q @ drop (remaining_len q) (remaining q), remaining_off := 0\<rparr>)"
  have q0: "queue_fits q0" "remaining_len q0 = remaining_len q" "remaining_off q0 = 0"
    using assms(1) by (auto simp: q0_def queue_fits_def pending_def)
  have "q1 = q \<or> q1 = q0 \<or> (\<exists>block sz. grow_loop alloc (remaining_off q0 + remaining_len q0 + n) (remaining_size q0)
      (remaining q0) (remaining_size q0) = Some (block, sz) \<and> q1 = q0\<lparr>remaining := block, remaining_size := sz\<rparr>)"
    using assms(2) unfolding axil_rem_may_inc_def Let_def q0_def [symmetric]
    by (auto split: if_splits option.splits)
  then show ?thesis
  proof (elim disjE exE conjE)
    fix block sz
    assume g: "grow_loop alloc (remaining_off q0 + remaining_len q0 + n) (remaining_size q0) (remaining q0) (remaining_size q0) = Some (block, sz)"
      and q1: "q1 = q0\<lparr>remaining := block, remaining_size := sz\<rparr>"
    have "remaining_len q0 \<le> length block"
      using grow_loop_keeps [OF g, of "remaining_len q0"] q0(1) by (simp add: queue_fits_def)
    then show ?thesis using q0 by (simp add: q1 queue_fits_def)
  qed (use assms(1) q0 in simp_all)
qed

lemma write_remaining_fits:
  assumes "queue_fits q" "axil_write_remaining tc ans q = (ret, q', sent, cl)"
  shows "queue_fits q'"
  using assms by (auto simp: queue_fits_def axil_write_remaining_def wq_advance_def Let_def split: if_splits kwrite.splits)

lemma memcpy_fits:
  "memcpy_at pos dat q = Done q' \<Longrightarrow> pos + length dat \<le> length (remaining q') \<and> remaining_off q' = remaining_off q \<and> remaining_len q' = remaining_len q"
  by (auto simp: memcpy_at_def split: if_splits)

lemma low_write_fits:
  assumes "queue_fits q" "axil_low_write alloc tc ans dat q = Done (ret, q', sent, cl)"
  shows "queue_fits q'"
proof (cases "remaining_len q = 0")
  case True
  have queued: "queue_fits q'" if q: "bind_run (axil_rem_may_inc alloc (length left) q) (\<lambda>q1. bind_run (memcpy_at 0 left q1) (\<lambda>q2.
       Done (r, q2\<lparr>remaining_off := 0, remaining_len := length left\<rparr>, st, False))) = Done (ret, q', sent, cl)" for left r st
    using q by (auto simp: bind_run_Done queue_fits_def dest: memcpy_fits)
  show ?thesis
    using assms True queued [of dat] queued [of "drop n dat" for n]
    by (auto simp: axil_low_write_def Let_def split: kwrite.splits if_splits)
next
  case False
  obtain q1 q2 where q: "axil_rem_may_inc alloc (length dat) q = Done q1"
    "memcpy_at (remaining_off q1 + remaining_len q1) dat q1 = Done q2"
    "snd (axil_write_remaining tc ans (q2\<lparr>remaining_len := remaining_len q2 + length dat\<rparr>)) = (q', sent, cl)"
    using assms(2) False by (auto simp: axil_low_write_def bind_run_Done Let_def case_prod_unfold)
  then obtain r where r: "axil_write_remaining tc ans (q2\<lparr>remaining_len := remaining_len q2 + length dat\<rparr>) = (r, q', sent, cl)"
    by (metis prod.collapse)
  have "queue_fits (q2\<lparr>remaining_len := remaining_len q2 + length dat\<rparr>)"
    using may_inc_fits [OF assms(1) q(1)] memcpy_fits [OF q(2)] False by (simp add: queue_fits_def)
  then show ?thesis using r by (rule write_remaining_fits)
qed

section \<open>The operations\<close>

lemma reset_fits: "table_fits s \<Longrightarrow> table_fits (axil_raw_descr_reset fd s)"
  by (simp add: axil_raw_descr_reset_def Let_def fd_clr_all_def) (simp add: table_fits_def)

lemma tunnel_close_fits: "table_fits s \<Longrightarrow> table_fits (axil_tunnel_close_raw fd s)"
  by (simp add: axil_tunnel_close_raw_def Let_def reset_fits)

lemma close_fits: "table_fits s \<Longrightarrow> table_fits (axil_close k fd s)"
  by (simp add: axil_close_def Let_def tunnel_close_fits fd_clr_all_def) (simp add: table_fits_def)

lemma queue_set_fits: "table_fits s \<Longrightarrow> queue_fits q \<Longrightarrow> table_fits (upd_descr i (\<lambda>d. d\<lparr>d_queue := q\<rparr>) s)"
  by (rule fits_upd) (simp_all add: descr_fits_def)

lemma queue_result_fits: "table_fits s \<Longrightarrow> queue_fits (fst (snd res)) \<Longrightarrow> table_fits (snd (queue_result k i res s))"
  by (cases res) (simp add: queue_result_def Let_def close_fits queue_set_fits)

lemma fits_queue: "table_fits s \<Longrightarrow> queue_fits (d_queue (descr_map s i))"
  by (simp add: table_fits_def descr_fits_def)

lemma flush_fits:
  assumes "table_fits s" "server_flush k i s = Done (r, s')"
  shows "table_fits s'"
proof -
  have "queue_fits (fst (snd (axil_write_remaining tc ans (d_queue (descr_map s i)))))" for tc ans
    using write_remaining_fits [OF fits_queue [OF assms(1)]] by (metis prod.exhaust_sel)
  then have "table_fits (snd (queue_result k i (axil_write_remaining tc ans (d_queue (descr_map s i))) s))" for tc ans
    by (rule queue_result_fits [OF assms(1)])
  with assms show ?thesis by (auto simp: server_flush_def Let_def split: if_splits) (metis snd_conv)
qed

lemma write_fits:
  assumes "table_fits s" "server_write k i txt s = Done (r, s')"
  shows "table_fits s'"
proof (cases "io s i")
  case RawIo
  then obtain res where res: "raw_write k i txt s = Done res" "queue_result k i res s = (r, s')"
    using assms(2) by (auto simp: server_write_def bind_run_Done)
  obtain ret q st cl where q: "res = (ret, q, st, cl)" by (cases res) auto
  have "queue_fits q"
    using low_write_fits [OF fits_queue [OF assms(1)]] res(1) unfolding q raw_write_def Let_def by blast
  then show ?thesis using queue_result_fits [OF assms(1), of res k i] res(2) q by simp
qed (use assms in \<open>auto simp: server_write_def split: prod.splits\<close>)

lemma ssl_accept_fits: "table_fits s \<Longrightarrow> table_fits (snd (ssl_accept k i s))"
  by (auto simp: ssl_accept_def Let_def intro!: close_fits fits_upd split: ssl_result.split)

lemma set_slot_fits: "table_fits s \<Longrightarrow> descr_fits d \<Longrightarrow> table_fits (s\<lparr>descr_map := (descr_map s)(i := d)\<rparr>)"
  by (simp add: table_fits_def)

lemma new_descr_fits [simp]:
  "descr_fits d \<Longrightarrow> queue_fits q \<Longrightarrow> descr_fits (d\<lparr>d_queue := q, d_env := e, d_ssl := b, d_flags := f\<rparr>)"
  "descr_fits d \<Longrightarrow> queue_fits q \<Longrightarrow> descr_fits (d\<lparr>d_queue := q, d_env := e, d_ssl := b\<rparr>)"
  "descr_fits d \<Longrightarrow> queue_fits q \<Longrightarrow> descr_fits (d\<lparr>d_queue := q, d_env := e\<rparr>)"
  "descr_fits d \<Longrightarrow> queue_fits q \<Longrightarrow> descr_fits (d\<lparr>d_queue := q\<rparr>)"
  by (simp_all add: descr_fits_def)

lemma accepted_fits:
  assumes "table_fits s"
  shows "table_fits (snd (if ssl then ssl_accept k i s else (0, s)))"
  using assms by (simp add: ssl_accept_fits)

lemma slot_fits [simp]: "descr_fits d \<Longrightarrow> table_fits s \<Longrightarrow> descr_fits (((descr_map s)(i := d)) j)"
  by (simp add: table_fits_def)

lemma zero_slot_fits:
  "table_fits s \<Longrightarrow> table_fits (s\<lparr>fds_active := a, io := f, descr_map := (descr_map s)(i := zero_descr fd)\<rparr>)"
  by (simp add: table_fits_def)

lemma descr_new_fits:
  assumes "table_fits s"
  shows "table_fits (descr_new k ssl s)"
proof -
  define i where "i = nat (k_accept k ssl)"
  define s1 where "s1 = (emit [EvOpenFd (k_accept k ssl)] s)\<lparr>fds_active := insert i (fds_active s), io := (io s)(i := NoIo),
    descr_map := (descr_map s)(i := zero_descr (k_accept k ssl))\<rparr>"
  define s2 where "s2 = upd_descr i (\<lambda>d. d\<lparr>d_queue := fresh_queue, d_env := True, d_ssl := ssl,
    d_flags := (if ssl then d_flags d else DF_ACCEPTED)\<rparr>) (s1\<lparr>io := (io s1)(i := RawIo)\<rparr>)"
  have s1: "table_fits s1" using assms by (simp add: s1_def table_fits_def)
  then have s2: "table_fits s2" unfolding s2_def by (intro fits_upd) auto
  then have "table_fits (snd (if ssl then ssl_accept k i s2 else (0, s2)))" by (rule accepted_fits)
  moreover have "table_fits (upd_descr i (\<lambda>d. d\<lparr>d_queue := empty_queue\<lparr>remaining_size := BUFSIZ * 1024\<rparr>\<rparr>)
      (s1\<lparr>fds_active := fds_active s1 - {i}\<rparr>))"
    using s1 by (intro fits_upd) auto
  ultimately show ?thesis
    using assms unfolding descr_new_def Let_def i_def [symmetric] s1_def [symmetric] s2_def [symmetric]
    by (auto split: prod.split)
qed

lemma upstream_init_fits:
  assumes "table_fits s"
  shows "table_fits (axil_upstream_descr_init k i s)"
proof -
  have "table_fits (s\<lparr>io := f, descr_map := (descr_map s)(i := (zero_descr (int i))\<lparr>d_flags := DF_ACCEPTED\<rparr>)\<rparr>)" for f
    using assms by (simp add: table_fits_def)
  then show ?thesis
    unfolding axil_upstream_descr_init_def Let_def
    by (auto simp del: fits_fields simp: fits_emit intro!: fits_upd) (simp add: table_fits_def)
qed

lemma add_flags_fits: "table_fits s \<Longrightarrow> table_fits (upd_descr i (add_flags f) s)"
  by (erule fits_upd) simp

lemma proxy_fits: "table_fits s \<Longrightarrow> table_fits (ws_proxy_start k fd a0 a1 key u s)"
  by (auto simp: ws_proxy_start_def Let_def intro!: add_flags_fits tunnel_close_fits upstream_init_fits split: option.split prod.split)

lemma upgrade_fits: "table_fits s \<Longrightarrow> table_fits (snd (axil_ws_upgrade sha1 k i key s))"
  by (auto simp: axil_ws_upgrade_def Let_def intro!: add_flags_fits split: option.split prod.split)

lemma tunnel_fits: "table_fits s \<Longrightarrow> table_fits (axil_ws_tunnel a b s)"
  by (auto simp: axil_ws_tunnel_def Let_def intro!: fits_upd)

text \<open>A relay closes the pair or goes on after a write to the peer.\<close>

lemma relay_fits:
  assumes "table_fits s" "(if io s i = NoIo then NullCall else case relay_read k i P s of
      None \<Rightarrow> Done (axil_tunnel_close_raw (int i) s)
    | Some (buf, peer) \<Rightarrow> bind_run (server_write k peer buf s) (\<lambda>(_, s1). Done (f buf peer s1))) = Done s'"
    "\<And>buf peer t. table_fits t \<Longrightarrow> table_fits (f buf peer t)"
  shows "table_fits s'"
proof (cases "relay_read k i P s")
  case None
  with assms(1,2) show ?thesis by (auto simp: tunnel_close_fits split: if_splits)
next
  case (Some bp)
  obtain buf peer where bp: "bp = (buf, peer)" by (cases bp)
  obtain r s1 where "server_write k peer buf s = Done (r, s1)" "s' = f buf peer s1"
    using assms(2) Some bp by (cases "server_write k peer buf s") (auto split: if_splits)
  then show ?thesis using write_fits [OF assms(1)] assms(3) by auto
qed

lemma waiting_fits: "table_fits s \<Longrightarrow> ws_waiting_read k i s = Done s' \<Longrightarrow> table_fits s'"
  unfolding ws_waiting_read_def by (erule relay_fits, assumption) (simp add: tunnel_close_fits tunnel_fits)

lemma tunnel_read_fits: "table_fits s \<Longrightarrow> tunnel_read k i s = Done s' \<Longrightarrow> table_fits s'"
  unfolding tunnel_read_def by (erule relay_fits, assumption)

lemma descr_read_fits:
  assumes "table_fits s" "\<And>acts t. table_fits t \<Longrightarrow> table_fits (cb i acts t)" "descr_read k cb i s = Done (r, s')"
  shows "table_fits s'"
proof (cases "d_fd (descr_map s i) \<noteq> int i \<or> \<not> has (d_flags (descr_map s i)) DF_ACCEPTED \<or> io s i = NoIo")
  case True
  with assms(1,3) show ?thesis by (auto simp: descr_read_def Let_def split: if_splits)
next
  case False
  obtain ret err inp sz c where rd: "axil_read recv_from (k_alloc k) (length (input s)) (k_recv k i) = (ret, err, inp, sz, c)"
    by (metis prod_cases5)
  let ?p = "cmd_parse (h_cmds k) (h_command k) (h_vim k) (h_flush k) (d_flags (descr_map s i)) (store_input inp sz (input s)) (length inp)"
  show ?thesis
  proof (cases "ret = - 1 \<or> ret = 0 \<or> h_parse k i inp < 0")
    case True
    with False rd assms(1,3) show ?thesis by (auto simp: descr_read_def Let_def split: if_splits)
  next
    case go: False
    with False rd assms(3) obtain r' buf acts where
      "?p = Done (r', buf, acts)"
      "s' = (if acts = [CmdClose] then axil_close k (int i) (s\<lparr>input := buf\<rparr>) else cb i acts (s\<lparr>input := buf\<rparr>))"
      by (cases ?p) (auto simp: descr_read_def Let_def split: if_splits)
    then show ?thesis using assms(1,2) by (auto intro!: close_fits)
  qed
qed

lemma proc_read_fits:
  assumes "table_fits s" "\<And>acts t. table_fits t \<Longrightarrow> table_fits (cb i acts t)" "proc_read_fd k cb i s = Done s'"
  shows "table_fits s'"
proof -
  have "table_fits t" if "descr_read k cb i s = Done (r, t)" for r t
    using assms(1,2) that by (rule descr_read_fits)
  then show ?thesis
    using assms(1,3) unfolding proc_read_fd_def Let_def
    by (auto simp: bind_run_Done close_fits descr_new_fits split: if_splits dest: waiting_fits tunnel_read_fits)
qed

lemma proc_write_fits: "table_fits s \<Longrightarrow> proc_write_fd k i s = Done s' \<Longrightarrow> table_fits s'"
  unfolding proc_write_fd_def Let_def
  by (auto simp: bind_run_Done split: if_splits dest!: flush_fits [rotated] intro: ssl_accept_fits)

section \<open>Responses and logins\<close>

lemma header_set_fits: "table_fits s \<Longrightarrow> table_fits (header_set i key v s)"
  unfolding header_set_def
  by (erule fits_upd) (auto simp: descr_fits_def axil_header_set_def snprintf_trunc_def)

lemma write_all_fits: "table_fits s \<Longrightarrow> write_all k i ts s = Done s' \<Longrightarrow> table_fits s'"
  by (induction ts arbitrary: s) (auto simp: bind_run_Done axil_write_def split: if_splits dest: write_fits)

lemma close_or_flush_fits: "table_fits s \<Longrightarrow> close_or_flush k i s = Done s' \<Longrightarrow> table_fits s'"
  by (auto simp: close_or_flush_def bind_run_Done close_fits split: if_splits dest: flush_fits)

lemma respond_fits:
  assumes "table_fits s" "axil_respond k i code body s = Done s'"
  shows "table_fits s'"
proof -
  have s0: "table_fits (upd_descr i (\<lambda>d. d\<lparr>d_headers := []\<rparr>) s)"
    using assms(1) by (rule fits_upd) (simp add: descr_fits_def BUFSIZ_def)
  obtain ws s1 where "write_all k i ws (upd_descr i (\<lambda>d. d\<lparr>d_headers := []\<rparr>) s) = Done s1"
    "close_or_flush k i (mark_close i s1) = Done s'"
    using assms(2) by (auto simp: axil_respond_def Let_def bind_run_Done split: option.splits)
  moreover from this(1) have "table_fits s1" by (rule write_all_fits [OF s0])
  ultimately show ?thesis unfolding mark_close_def using close_or_flush_fits [OF add_flags_fits] by blast
qed

lemma login_fits: "table_fits s \<Longrightarrow> axil_auth q getpwnam i username env s = (r, env', s') \<Longrightarrow> table_fits s'"
  by (auto simp: axil_auth_def Let_def descr_fits_def add_flags_def intro!: fits_upd split: option.splits)

lemma mark_close_fits [simp]: "table_fits s \<Longrightarrow> table_fits (mark_close i s)"
  unfolding mark_close_def by (rule add_flags_fits)

lemma close_when_sent_fits [simp]: "table_fits s \<Longrightarrow> table_fits (close_when_sent k i s)"
  by (simp add: close_when_sent_def close_fits)

lemma writef_fits: "table_fits s \<Longrightarrow> axil_writef k i t s = Done s' \<Longrightarrow> table_fits s'"
  unfolding axil_writef_def by (rule write_all_fits)

lemma not_modified_fits: "table_fits s \<Longrightarrow> static_not_modified k i date e l c s = Done s' \<Longrightarrow> table_fits s'"
  by (auto simp: static_not_modified_def bind_run_Done dest!: writef_fits [rotated])

lemma static_write_fits: "table_fits s \<Longrightarrow> static_write k i date st ct c n e l cc s = Done s' \<Longrightarrow> table_fits s'"
  by (auto simp: static_write_def bind_run_Done simp del: write_all.simps dest!: write_all_fits [rotated] split: option.splits)

lemma redirect_fits: "table_fits s \<Longrightarrow> request_handle_redirect so ss k i host uri s = Done (d, s') \<Longrightarrow> table_fits s'"
  by (auto simp: request_handle_redirect_def bind_run_Done dest!: writef_fits [rotated] split: if_splits)

lemma trailing_slash_fits: "table_fits s \<Longrightarrow> request_handle_trailing_slash al k i host uri s = Done (d, s') \<Longrightarrow> table_fits s'"
  by (auto simp: request_handle_trailing_slash_def bind_run_Done dest!: writef_fits [rotated] split: if_splits option.splits)

lemma autoindex_fits: "table_fits s \<Longrightarrow> request_handle_autoindex rd k i date uri p s = Done s' \<Longrightarrow> table_fits s'"
  by (auto simp: request_handle_autoindex_def bind_run_Done simp del: write_all.simps
    dest!: writef_fits [rotated] write_all_fits [rotated] static_write_fits [rotated] split: if_splits option.splits)

lemma send_sized_fits: "table_fits s \<Longrightarrow> send_sized k i mime n body s = Done s' \<Longrightarrow> table_fits s'"
  unfolding send_sized_def by (erule respond_fits [rotated]) (intro header_set_fits)

lemma fail_with_fits: "table_fits s \<Longrightarrow> fail_with k i status msg s = Done (r, s') \<Longrightarrow> table_fits s'"
  by (auto simp: fail_with_def axil_respond_plain_def bind_run_Done intro: respond_fits header_set_fits)

lemma respond_file_fits:
  assumes "table_fits s" "axil_respond_file mimes fopen k i path allowed s = Done (r, s')"
  shows "table_fits s'"
proof -
  have failed: "fail_with k i st m s = Done (r, s') \<Longrightarrow> table_fits s'" for st m
    using assms(1) by (rule fail_with_fits)
  have empty: "bind_run (send_sized k i mime n body s) (\<lambda>s1. Done (0, s1)) = Done (r, s') \<Longrightarrow> table_fits s'" for mime n body
    using assms(1) by (auto simp: bind_run_Done intro: send_sized_fits)
  have sent: "bind_run (send_sized k i mime n None s) (\<lambda>s1. if has (d_flags (descr_map s1 i)) DF_HEAD then Done (0, s1)
      else bind_run (write_all k i ts s1) (\<lambda>s2. Done (0, s2))) = Done (r, s') \<Longrightarrow> table_fits s'" for mime n ts
    using assms(1) by (auto simp: bind_run_Done simp del: write_all.simps intro: write_all_fits send_sized_fits split: if_splits)
  show ?thesis
    using assms(2) unfolding axil_respond_file_def Let_def
    by (simp only: split: option.split_asm if_split_asm prod.split_asm) (erule failed | erule empty | erule sent)+
qed

lemma sendfile_fits:
  assumes "table_fits s" "axil_sendfile mimes file k i path s = Done s'"
  shows "table_fits s'"
proof -
  have answered: "axil_respond k i st body s = Done s' \<Longrightarrow> table_fits s'" for st body
    using assms(1) by (rule respond_fits)
  have sent: "bind_run (send_sized k i mime n None s) (\<lambda>s1. bind_run (write_all k i ts s1)
      (\<lambda>s2. close_or_flush k i (mark_close i s2))) = Done s' \<Longrightarrow> table_fits s'" for mime n ts
  proof -
    assume "bind_run (send_sized k i mime n None s) (\<lambda>s1. bind_run (write_all k i ts s1)
      (\<lambda>s2. close_or_flush k i (mark_close i s2))) = Done s'"
    then obtain s1 s2 where "send_sized k i mime n None s = Done s1" "write_all k i ts s1 = Done s2"
      "close_or_flush k i (mark_close i s2) = Done s'" by (auto simp: bind_run_Done)
    then show "table_fits s'"
      using send_sized_fits [OF assms(1)] write_all_fits mark_close_fits close_or_flush_fits by metis
  qed
  show ?thesis
    using assms(2) unfolding axil_sendfile_def Let_def
    by (simp only: split: option.split_asm prod.split_asm) (erule answered | erule sent)+
qed

section \<open>Requests\<close>

text \<open>What the handlers of a site are asked: they leave buffers that fit.\<close>

definition site_fits :: "('m, 'h) site \<Rightarrow> bool" where
  "site_fits w \<longleftrightarrow> (\<forall>h i b e t. table_fits t \<longrightarrow> table_fits (snd (w_call w h i b e t)))"

lemma fallbacks_fits:
  "site_fits w \<Longrightarrow> table_fits s \<Longrightarrow> try_fallbacks (w_call w) hs i body env s = (d, s') \<Longrightarrow> table_fits s'"
proof (induction hs arbitrary: s)
  case (Cons h hs)
  obtain d1 s1 where c: "w_call w h i body env s = (d1, s1)" by fastforce
  then have "table_fits s1" using Cons.prems(1,2) by (metis site_fits_def snd_conv)
  then show ?case using Cons c by (auto split: if_splits)
qed simp

lemma dispatch_fits:
  assumes "site_fits w" "table_fits s" "request_dispatch w k i m uri ih body env s = Done (env', s')"
  shows "table_fits s'"
proof -
  obtain h env1 where f: "find_handler w m uri ih env = (h, env1)" by fastforce
  obtain d s1 where t: "try_fallbacks (w_call w) (w_fallbacks w) i body env1 s = (d, s1)" by fastforce
  have "table_fits s1" by (rule fallbacks_fits [OF assms(1,2) t])
  then show ?thesis
    using assms f t by (auto simp: request_dispatch_def bind_run_Done site_fits_def intro: respond_fits split: option.splits bool.splits)
qed

lemma request_static_fits:
  assumes "site_fits w" "table_fits s" "request_static w k i m uri ih body env s = Done (env', s')"
  shows "table_fits s'"
  using assms(3) unfolding request_static_def Let_def
  by (auto simp: bind_run_Done split: static_outcome.splits option.splits if_splits
    intro: not_modified_fits [OF assms(2)] static_write_fits [OF assms(2)] autoindex_fits [OF assms(2)] redirect_fits [OF assms(2)]
      dispatch_fits [OF assms(1) redirect_fits [OF assms(2)]])

lemma serve_fits:
  assumes "site_fits w" "table_fits s" "request_serve w k i argv m uri param ih body env s = Done (env', s')"
  shows "table_fits s'"
proof -
  have "table_fits (if has (d_flags (descr_map s i)) DF_WEBSOCKET then s else mark_close i s)"
    using assms(2) by simp
  from request_static_fits [OF assms(1) this] show ?thesis
    using assms(2,3) by (auto simp: request_serve_def Let_def intro!: proxy_fits split: option.splits)
qed

lemma auth_try_fits:
  assumes "table_fits s" "platform_auth_try q gp check i env s = (env', s')"
  shows "table_fits s'"
proof -
  have "table_fits (snd (snd (axil_auth q gp i u env s)))" for u
    using login_fits [OF assms(1)] by (metis prod.collapse)
  then show ?thesis using assms by (auto simp: platform_auth_try_def split: option.splits) (metis snd_conv)
qed

lemma set_flags_fits: "table_fits s \<Longrightarrow> table_fits (axil_set_flags i fl s)"
  unfolding axil_set_flags_def by (erule fits_upd) simp

lemma post_body_fits:
  assumes "table_fits s" "buffer_post_body q mb k i rest bs len env s = Done (go, s')"
  shows "table_fits s'"
proof -
  have "table_fits (axil_set_flags i DF_TO_CLOSE (header_set i ''Connection'' ''close'' s))"
    by (intro set_flags_fits header_set_fits assms(1))
  from respond_fits [OF this] show ?thesis
    using assms by (auto simp: buffer_post_body_def Let_def bind_run_Done close_fits split: prod.splits option.splits if_splits)
qed

lemma request_fits:
  assumes "site_fits w" "table_fits s" "request_handle w k i argv rest len fl env s = Done (env', s')"
  shows "table_fits s'"
proof -
  define s0 where "s0 = (if req_method fl = ''HEAD'' then upd_descr i (add_flags DF_HEAD) s else s)"
  have s0: "table_fits s0" using assms(2) by (simp add: s0_def add_flags_fits)
  note def = request_handle_def [of w k i argv rest len fl env s, unfolded Let_def, folded s0_def]
  show ?thesis
  proof (cases "length argv < 2 \<or> \<not> (\<exists>uri param. request_target (argv ! 1) = Target uri param)")
    case True
    have "table_fits (axil_close k (int i) s1)" if "axil_respond k i 414 (Some ''URI Too Long'') s0 = Done s1" for s1
      using respond_fits [OF s0 that] by (simp add: close_fits)
    with True assms(3) s0 show ?thesis
      by (cases "request_target (argv ! 1)") (auto simp: def bind_run_Done close_fits split: if_splits)
  next
    case False
    then obtain uri param where target: "\<not> length argv < 2" "request_target (argv ! 1) = Target uri param" by blast
    then obtain env1 bs where h: "headers_get (w_q w) env (cstr_at (input s0) rest) = Some (env1, bs)"
      using assms(3) by (auto simp: def split: option.splits)
    obtain go s1 where b: "(if has fl (AXIL_POST OR AXIL_PUT OR AXIL_DELETE)
        then buffer_post_body (w_q w) (w_max_body w) k i rest bs len env1 s0 else Done (True, s0)) = Done (go, s1)"
      "go \<or> s' = s1"
      using assms(3) target h by (auto simp: def bind_run_Done split: if_splits)
    have s1: "table_fits s1" using b(1) s0 post_body_fits [OF s0] by (auto split: if_splits)
    obtain env2 s2 where a: "platform_auth_try (w_q w) (w_getpwnam w) (w_check w) i env1 s1 = (env2, s2)" by fastforce
    have s2: "table_fits s2" by (rule auth_try_fits [OF s1 a])
    show ?thesis
    proof (cases go)
      case False
      then show ?thesis using b(2) s1 by simp
    next
      case True
      then obtain fin s3 where t: "request_handle_trailing_slash (static_allowed (w_fs w) (w_fnmatch w) (w_statics w)) k i
          (env_host (w_q w) env2) uri s2 = Done (fin, s3)"
        "if fin then s' = s3 else request_serve w k i argv (req_method fl) uri param (has fl AXIL_HEAD)
            (cstr_at (input s3) (rest + bs + 1)) env2 s3 = Done (env', s')"
        using assms(3) target h b(1) a by (auto simp: def bind_run_Done split: if_splits)
      have "table_fits s3" by (rule trailing_slash_fits [OF s2 t(1)])
      then show ?thesis using t(2) serve_fits [OF assms(1)] by (auto split: if_splits)
    qed
  qed
qed

section \<open>Programs\<close>

definition callback_fits :: "exec_callback \<Rightarrow> nat \<Rightarrow> bool" where
  "callback_fits cb i \<longleftrightarrow> (\<forall>b ofd s s'. table_fits s \<longrightarrow> cb i b ofd s = Done s' \<longrightarrow> table_fits s')"

lemma child_fields_fit [simp]:
  "descr_fits (d\<lparr>d_epid := e\<rparr>) = descr_fits d" "descr_fits (d\<lparr>d_mask := m\<rparr>) = descr_fits d"
  "descr_fits (d\<lparr>d_sor := t\<rparr>) = descr_fits d" "descr_fits (d\<lparr>d_total := n\<rparr>) = descr_fits d"
  "descr_fits (d\<lparr>d_pipe_in := fd\<rparr>) = descr_fits d" "descr_fits (d\<lparr>d_pipe_out := fd\<rparr>) = descr_fits d"
  "descr_fits (d\<lparr>d_pipe_err := fd\<rparr>) = descr_fits d"
  by (simp_all add: descr_fits_def)

lemma wactive_fits [simp]: "table_fits (s\<lparr>fds_wactive := a\<rparr>) = table_fits s" "table_fits (s\<lparr>fds_active := a, fds_read := b\<rparr>) = table_fits s"
  by (simp_all add: table_fits_def)

lemma exec_fits: "table_fits s \<Longrightarrow> table_fits (axil_exec sp now i inp s)"
  by (auto simp: axil_exec_def popen2_def Let_def intro!: fits_upd split: spawn.split option.split)

lemma cb_proc_fits:
  "callback_fits cb i \<Longrightarrow> table_fits s \<Longrightarrow> cb_proc cb i as ofd s = Done (n, err, rest, s') \<Longrightarrow> table_fits s'"
  by (auto simp: cb_proc_def callback_fits_def bind_run_Done split: prod.splits kread.splits if_splits)

lemma exec_read_fits:
  assumes "callback_fits cb i" "table_fits s" "exec_read cb i is_out outs errs s = Done (nx, outs', errs', s')"
  shows "table_fits s'"
proof -
  obtain n err rest s1 where c: "cb_proc cb i (if is_out then outs else errs) is_out s = Done (n, err, rest, s1)"
    using assms(3) by (auto simp: exec_read_def bind_run_Done)
  have "table_fits s1" by (rule cb_proc_fits [OF assms(1,2) c])
  then show ?thesis using assms(3) c by (auto simp: exec_read_def Let_def intro!: fits_upd split: if_splits)
qed

lemma exec_step_fits:
  assumes "callback_fits cb i" "table_fits s" "exec_step cb k i now ans outs errs s = Done (nx, outs', errs', s')"
  shows "table_fits s'"
  using assms(2,3) exec_read_fits [OF assms(1,2)] writef_fits [OF assms(2)]
  by (auto simp: exec_step_def Let_def bind_run_Done split: if_splits poll_ans.splits)

lemma exec_poll_fits:
  assumes "callback_fits cb i"
  shows "table_fits s \<Longrightarrow> exec_poll cb k i polls outs errs s = Done (nx, errs', s') \<Longrightarrow> table_fits s'"
proof (induction polls arbitrary: outs errs s)
  case (Cons p ps)
  obtain now ans where p: "p = (now, ans)" by fastforce
  obtain nx1 o1 e1 s1 where st: "exec_step cb k i now ans outs errs s = Done (nx1, o1, e1, s1)"
    using Cons.prems(2) unfolding p by (auto simp: bind_run_Done)
  have "table_fits s1" by (rule exec_step_fits [OF assms Cons.prems(1) st])
  with Cons.IH [of s1] Cons.prems(2) st show ?case unfolding p by (auto split: if_splits)
qed (auto split: if_splits)

lemma exec_finish_fits:
  assumes "callback_fits cb i" "table_fits s" "exec_finish cb k i errs stack s = Done (r, s')"
  shows "table_fits s'"
proof -
  obtain s1 where "table_fits s1" "s' = reaped k i s1"
    using assms by (auto simp: exec_finish_reaps bind_run_Done dest: writef_fits cb_proc_fits split: if_splits option.splits)
  then show ?thesis by (auto simp: reaped_def Let_def intro!: close_when_sent_fits mark_close_fits fits_upd)
qed

lemma exec_loop_fits:
  assumes "callback_fits cb i" "table_fits s" "axil_exec_loop cb k i polls outs errs stack s = Done (r, s')"
  shows "table_fits s'"
proof -
  have "table_fits (upd_descr i (clear_flags DF_TO_CLOSE) s)" using assms(2) by (rule fits_upd) simp
  moreover obtain nx errs' s1 where p: "exec_poll cb k i polls outs errs (upd_descr i (clear_flags DF_TO_CLOSE) s) = Done (nx, errs', s1)"
    "(if nx = Wait then Done (1, s1) else exec_finish cb k i errs' stack s1) = Done (r, s')"
    using assms(3) by (auto simp: axil_exec_loop_def bind_run_Done)
  ultimately have "table_fits s1" using exec_poll_fits [OF assms(1)] by blast
  with p(2) exec_finish_fits [OF assms(1)] show ?thesis by (cases "nx = Wait") auto
qed

section \<open>Every state reached\<close>

text \<open>The only guards beyond those of the main loop's steps: the handlers of the site and the callbacks of
  programs leave buffers that fit.\<close>

inductive buffer_step :: "('m, 'h) site \<Rightarrow> server \<Rightarrow> server \<Rightarrow> bool" for w :: "('m, 'h) site" where
  core: "server_step s s' \<Longrightarrow> buffer_step w s s'"
| request: "request_handle w k i argv rest len fl env s = Done (env', s') \<Longrightarrow> buffer_step w s s'"
| header: "buffer_step w s (header_set i key v s)"
| respond: "axil_respond k i code body s = Done s' \<Longrightarrow> buffer_step w s s'"
| respond_file: "axil_respond_file mimes fopen k i path allowed s = Done (r, s') \<Longrightarrow> buffer_step w s s'"
| sendfile: "axil_sendfile mimes file k i path s = Done s' \<Longrightarrow> buffer_step w s s'"
| login: "axil_auth (w_q w) (w_getpwnam w) i username env s = (r, env', s') \<Longrightarrow> buffer_step w s s'"
| program: "buffer_step w s (axil_exec sp now i inp s)"
| exec_pass: "callback_fits cb i \<Longrightarrow> axil_exec_loop cb k i polls outs errs stack s = Done (r, s') \<Longrightarrow> buffer_step w s s'"

inductive_cases buffer_stepE: "buffer_step w s s'"

lemma server_step_fits: "server_step s s' \<Longrightarrow> table_fits s \<Longrightarrow> table_fits s'"
proof (induction rule: server_step.induct)
  case (reading i s k s')
  then show ?case by (auto elim: proc_read_fits [rotated -1])
next
  case (set_flags s i fl)
  then show ?case by (auto simp: axil_set_flags_def intro: fits_upd)
next
  case (watch i s)
  then show ?case by (auto simp: axil_fd_watch_def intro: fits_upd)
qed (auto simp: axil_fd_unwatch_def axil_clear_active_def close_fits proxy_fits upgrade_fits
  intro: proc_write_fits write_fits flush_fits)

lemma buffer_step_fits: "site_fits w \<Longrightarrow> table_fits s \<Longrightarrow> buffer_step w s s' \<Longrightarrow> table_fits s'"
  by (elim buffer_stepE) (auto intro: server_step_fits request_fits header_set_fits respond_fits respond_file_fits
    sendfile_fits login_fits exec_fits exec_loop_fits)

lemma booted_fits: "booted s \<Longrightarrow> table_fits s"
proof -
  have "table_fits (axil_bind ssl sock s)" if "table_fits s" for ssl sock s
    using that by (auto simp: axil_bind_def Let_def table_fits_def)
  moreover have "table_fits (axil_pre_init\<lparr>input := b\<rparr>)" for b
    by (simp add: axil_pre_init_def table_fits_def)
  ultimately show "booted s \<Longrightarrow> table_fits s" by (auto simp: booted_def axil_init_def Let_def)
qed

interpretation buffers: transition_system "\<lambda>s. site_fits w \<and> booted s" "buffer_step w" "\<lambda>s. site_fits w \<and> table_fits s"
  for w :: "('m, 'h) site"
  by unfold_locales (auto intro: booted_fits buffer_step_fits)


lemma core_buffer_steps: "server_step\<^sup>*\<^sup>* s s' \<Longrightarrow> (buffer_step w)\<^sup>*\<^sup>* s s'"
  by (induction rule: rtranclp_induct) (auto intro: buffer_step.core rtranclp.rtrancl_into_rtrancl)


end
