(* ===== verification/Axil_Date.thy ===== *)
theory Axil_Date
  imports Axil_Request
begin

text \<open>
  The dates of responses: \<open>http_date\<close> (\<open>src/libaxil.c\<close> 1599 to 1625) with the static variables it keeps,
  over \<open>gmtime_r\<close> and \<open>strftime\<close> of the C library in the proleptic Gregorian calendar and the C locale.

  A date written is read back to its time by \<open>http_date_parse\<close>, the date kept is never a wrong one, and a
  client that sends back the modification date it was given is answered 304.
\<close>

section \<open>Dates as text\<close>

function year_split :: "nat \<Rightarrow> int \<Rightarrow> int \<times> nat" where
  "year_split n y =
     (let len = (if leap y then 366 else 365) in if n < len then (y, n) else year_split (n - len) (y + 1))"
  by pat_completeness auto
termination by (relation "measure fst") (auto split: if_splits)

declare year_split.simps [simp del]

fun month_split :: "int list \<Rightarrow> nat \<Rightarrow> nat \<Rightarrow> nat \<times> nat" where
  "month_split [] m n = (m, n)"
| "month_split (l # ls) m n = (if n < nat l then (m, n) else month_split ls (Suc m) (n - nat l))"

text \<open>The broken-down time with the day of the week; \<open>None\<close> when the year does not fit \<open>tm_year\<close>.\<close>

definition gmtime :: "int \<Rightarrow> (tm \<times> nat) option" where
  "gmtime t =
     (let days = t div 86400; secs = t mod 86400;
          (y, n) = year_split (nat (days mod 146097)) (1970 + 400 * (days div 146097));
          (m, d) = month_split (month_lengths y) 0 n in
      if - (2 ^ 31) \<le> y - 1900 \<and> y - 1900 < 2 ^ 31
      then Some (\<lparr>tm_year = y - 1900, tm_mon = int m, tm_mday = int d + 1, tm_hour = secs div 3600,
                  tm_min = secs mod 3600 div 60, tm_sec = secs mod 60\<rparr>, nat ((days + 4) mod 7))
      else None)"

definition day_names :: "string list" where
  "day_names = [''Sun'', ''Mon'', ''Tue'', ''Wed'', ''Thu'', ''Fri'', ''Sat'']"

definition pad2 :: "int \<Rightarrow> string" where
  "pad2 n = (if n < 10 then CHR ''0'' # show_nat (nat n) else show_nat (nat n))"

definition strftime_http :: "tm \<Rightarrow> nat \<Rightarrow> string" where
  "strftime_http t wday =
     day_names ! wday @ '', '' @ pad2 (tm_mday t) @ '' '' @ month_names ! nat (tm_mon t) @ '' ''
     @ show_int (tm_year t + 1900) @ '' '' @ pad2 (tm_hour t) @ '':'' @ pad2 (tm_min t) @ '':''
     @ pad2 (tm_sec t) @ '' GMT''"

record date_cache =
  cached_time :: int
  cached_date :: string

text \<open>The text in \<open>out\<close>, \<open>None\<close> when \<open>strftime\<close> leaves it undefined because it has no room.\<close>

definition http_date :: "int \<Rightarrow> nat \<Rightarrow> date_cache \<Rightarrow> string option \<times> date_cache" where
  "http_date t outlen c =
     (if t \<noteq> 0 \<and> t = cached_time c \<and> cached_date c \<noteq> [] then (Some (take (outlen - 1) (cached_date c)), c)
      else case gmtime t of
          None \<Rightarrow> (Some [], c)
        | Some (tm, wday) \<Rightarrow>
            let out = strftime_http tm wday in
            if outlen \<le> length out then (None, c)
            else (Some out, if 64 \<le> outlen then \<lparr>cached_time = t, cached_date = take 63 out\<rparr> else c))"

definition no_cache :: date_cache where
  "no_cache = \<lparr>cached_time = 0, cached_date = []\<rparr>"

section \<open>The calendar\<close>

lemma year_split_count:
  "year_split n y = (y', r) \<Longrightarrow>
     year_count (y' - 1) + int r = year_count (y - 1) + int n \<and> r < (if leap y' then 366 else 365) \<and> y \<le> y'"
proof (induction n y rule: year_split.induct)
  case (1 n y)
  define len :: nat where "len = (if leap y then 366 else 365)"
  show ?case
  proof (cases "n < len")
    case True
    with 1(2) show ?thesis by (subst (asm) year_split.simps) (auto simp: len_def split: if_splits)
  next
    case False
    then have "year_split (n - len) (y + 1) = (y', r)"
      using 1(2) by (subst (asm) year_split.simps) (simp add: len_def Let_def)
    with 1(1) False have IH: "year_count (y' - 1) + int r = year_count y + int (n - len)"
      "r < (if leap y' then 366 else 365)" "y + 1 \<le> y'"
      by (auto simp: len_def Let_def split: if_splits)
    moreover have "year_count y = year_count (y - 1) + int len" using year_count_step [of y] by (simp add: len_def)
    ultimately show ?thesis using False by simp
  qed
qed

lemma month_split_offset:
  "month_split ls m n = (m', d) \<Longrightarrow> list_all (\<lambda>l. 0 < l) ls \<Longrightarrow> int n < sum_list ls \<Longrightarrow>
     \<exists>k. m' = m + k \<and> k < length ls \<and> int n = sum_list (take k ls) + int d \<and> int d < ls ! k"
proof (induction ls m n rule: month_split.induct)
  case (2 l ls m n)
  show ?case
  proof (cases "n < nat l")
    case True
    with 2 show ?thesis by (intro exI [of _ 0]) auto
  next
    case False
    then obtain k where "m' = Suc m + k" "k < length ls" "int (n - nat l) = sum_list (take k ls) + int d" "int d < ls ! k"
      using 2 by (auto simp: nat_le_iff)
    then show ?thesis using False "2.prems"(2) by (intro exI [of _ "Suc k"]) auto
  qed
qed simp

lemma months_pos: "list_all (\<lambda>l. 0 < l) (month_lengths y)" "length (month_lengths y) = 12"
  "sum_list (month_lengths y) = (if leap y then 366 else 365)"
  by (simp_all add: month_lengths_def)

lemma month_length_le: "k < 12 \<Longrightarrow> month_lengths y ! k \<le> 31"
proof -
  assume "k < 12"
  then have "month_lengths y ! k \<in> set (month_lengths y)" by (metis months_pos(2) nth_mem)
  then show ?thesis by (auto simp: month_lengths_def split: if_splits)
qed

text \<open>The fields of a broken-down time are those of a date, and count back to the time.\<close>

definition tm_ok :: "tm \<Rightarrow> bool" where
  "tm_ok t \<longleftrightarrow> 0 \<le> tm_mon t \<and> tm_mon t < 12 \<and> 1 \<le> tm_mday t \<and> tm_mday t \<le> 31 \<and> 0 \<le> tm_hour t \<and> tm_hour t < 24
     \<and> 0 \<le> tm_min t \<and> tm_min t < 60 \<and> 0 \<le> tm_sec t \<and> tm_sec t < 60"

lemma day_of_year:
  assumes "k < 12" "1 \<le> mday" "mday \<le> 31"
  shows "year_count (y - (if k < 2 then 1 else 0))
      + ((153 * (int k + 1 + (if int k + 1 > 2 then - 3 else 9)) + 2) div 5 + mday - 1)
    = year_count (y - 1) + sum_list (take k (month_lengths y)) + mday + 305"
  using month_offset [OF assms(1), of y] year_count_step [of y] by (cases "k < 2") (simp_all add: algebra_simps)

lemma split_seconds:
  "t div 86400 * 86400 + (r div 3600 * 3600 + r mod 3600 div 60 * 60 + r mod 60) = (t :: int)" if "r = t mod 86400" for t
proof -
  have "r mod 3600 mod 60 = r mod 60" by (simp add: mod_mod_cancel)
  then show ?thesis
    using div_mult_mod_eq [of t 86400] div_mult_mod_eq [of r 3600] div_mult_mod_eq [of "r mod 3600" 60] that by linarith
qed

lemma gmtime_counts:
  assumes "gmtime t = Some (b, w)" "1 \<le> tm_year b + 1900"
  shows "tm_ok b \<and> w < 7 \<and> tm_to_time_t_utc b = t"
proof -
  define days secs where "days = t div 86400" and "secs = t mod 86400"
  obtain y n where ys: "year_split (nat (days mod 146097)) (1970 + 400 * (days div 146097)) = (y, n)" by fastforce
  obtain m d where ms: "month_split (month_lengths y) 0 n = (m, d)" by fastforce
  have b: "b = \<lparr>tm_year = y - 1900, tm_mon = int m, tm_mday = int d + 1, tm_hour = secs div 3600,
      tm_min = secs mod 3600 div 60, tm_sec = secs mod 60\<rparr>" "w = nat ((days + 4) mod 7)"
    using assms(1) ys ms by (auto simp: gmtime_def Let_def days_def [symmetric] secs_def [symmetric] split: if_splits)
  have c: "year_count (y - 1) + int n = year_count (1969 + 400 * (days div 146097)) + days mod 146097"
    "n < (if leap y then 366 else 365)"
    using year_split_count [OF ys] by simp_all
  have "year_count (1969 + 400 * (days div 146097)) = 719162 + 146097 * (days div 146097)"
    using div_quad [of "1969 + 400 * (days div 146097)" "days div 146097 + 4" 369] by (simp add: year_count_def)
  then have yc: "year_count (y - 1) + int n = 719162 + days"
    using c(1) mult_div_mod_eq [of 146097 days] by linarith
  have "int n < sum_list (month_lengths y)" using c(2) by (simp add: months_pos(3) split: if_splits)
  then obtain k where "m = 0 + k" "k < length (month_lengths y)" "int n = sum_list (take k (month_lengths y)) + int d" "int d < month_lengths y ! k"
    using month_split_offset [OF ms months_pos(1)] by blast
  then have k: "m < 12" "int n = sum_list (take m (month_lengths y)) + int d" "int d < month_lengths y ! m"
    by (simp_all add: months_pos(2))
  have d: "int d + 1 \<le> 31" using k(3) month_length_le [OF k(1), of y] by simp
  have s: "0 \<le> secs" "secs < 86400" by (simp_all add: secs_def)
  have ok: "tm_ok b" using k(1) d s by (auto simp: b tm_ok_def)
  let ?y = "y - (if m < 2 then 1 else 0)"
  let ?doy = "(153 * (int m + 1 + (if int m + 1 > 2 then - 3 else 9)) + 2) div 5 + (int d + 1) - 1"
  have "0 \<le> ?doy" "?doy < 1000" using k(1) d by (auto simp: div_le_dividend)
  then have "tm_to_time_t_utc b = (year_count ?y + ?doy - 719468) * 86400 + tm_hour b * 3600 + tm_min b * 60 + tm_sec b"
    using assms(2) by (intro time_of_count) (auto simp: b)
  moreover have "year_count ?y + ?doy = 719468 + days"
    using day_of_year [OF k(1), of "int d + 1" y] d yc k(2) by simp
  ultimately have "tm_to_time_t_utc b = days * 86400 + (secs div 3600 * 3600 + secs mod 3600 div 60 * 60 + secs mod 60)"
    by (simp add: b)
  then have "tm_to_time_t_utc b = t" using split_seconds [OF secs_def] by (simp add: days_def)
  then show ?thesis using ok b(2) by simp
qed

section \<open>Reading a date back\<close>

lemma dec_value_snoc: "dec_value a (ds @ [c]) = 10 * dec_value a ds + (ccode c - 48)"
  by (induction a ds rule: dec_value.induct) simp_all

lemma dec_value_show [simp]: "dec_value 0 (show_nat n) = n"
proof (induction n rule: show_nat.induct)
  case (1 n)
  then show ?case by (subst show_nat.simps) (simp add: dec_value_snoc)
qed

lemma scan_digits:
  assumes "list_all isdigit ds" "ds \<noteq> []" "\<not> isdigit c"
  shows "scan_int (ds @ c # r) = Some (int (dec_value 0 ds), c # r)" "dropWhile isspace (ds @ c # r) = ds @ c # r"
proof -
  obtain x xs where ds: "ds = x # xs" using assms(2) by (cases ds) auto
  have x: "\<not> isspace x" "x \<noteq> CHR ''-''" "x \<noteq> CHR ''+''" "isdigit x"
    using assms(1) by (auto simp: ds cclass)
  then show "dropWhile isspace (ds @ c # r) = ds @ c # r" by (simp add: ds)
  have "takeWhile isdigit (ds @ c # r) = ds" "dropWhile isdigit (ds @ c # r) = c # r"
    using assms by (simp_all add: list_all_iff takeWhile_append dropWhile_append)
  then show "scan_int (ds @ c # r) = Some (int (dec_value 0 ds), c # r)"
    using x by (simp add: scan_int_def ds)
qed

lemma digits_show: "list_all isdigit (show_nat n)"
  using show_nat_digits by (auto simp: list_all_iff)

lemma scan_pad2 [simp]:
  assumes "0 \<le> n" "\<not> isdigit c"
  shows "scan_int (pad2 n @ c # r) = Some (n, c # r)" "dropWhile isspace (pad2 n @ c # r) = pad2 n @ c # r"
proof -
  have "list_all isdigit (pad2 n)" "pad2 n \<noteq> []" "dec_value 0 (pad2 n) = nat n"
    using digits_show by (simp_all add: pad2_def) (simp_all add: cclass)
  then show "scan_int (pad2 n @ c # r) = Some (n, c # r)" "dropWhile isspace (pad2 n @ c # r) = pad2 n @ c # r"
    using scan_digits [of "pad2 n" c r] assms by simp_all
qed

lemma scan_year [simp]:
  assumes "0 \<le> n" "\<not> isdigit c"
  shows "scan_int (show_int n @ c # r) = Some (n, c # r)" "dropWhile isspace (show_int n @ c # r) = show_int n @ c # r"
  using scan_digits [of "show_int n" c r] digits_show assms by (simp_all add: show_int_def)

lemma scan_name:
  assumes "length w = 3" "list_all is_letter w"
  shows "scan_letters3 (w @ r) = Some (w, r)" "dropWhile isspace (w @ r) = w @ r"
proof -
  obtain a b c where w: "w = [a, b, c]" using assms(1) by (auto simp: numeral_3_eq_3 length_Suc_conv)
  have l: "is_letter a" "is_letter b" "is_letter c" using assms(2) by (simp_all add: w)
  then show "scan_letters3 (w @ r) = Some (w, r)" by (simp add: scan_letters3_def w)
  have "\<not> isspace a" using l(1) by (auto simp: is_letter_def cclass)
  then show "dropWhile isspace (w @ r) = w @ r" by (simp add: w)
qed

lemma names_letters:
  "n < 7 \<Longrightarrow> length (day_names ! n) = 3 \<and> list_all is_letter (day_names ! n)"
  "m < 12 \<Longrightarrow> length (month_names ! m) = 3 \<and> list_all is_letter (month_names ! m)"
proof -
  have "list_all (\<lambda>w. length w = 3 \<and> list_all is_letter w) day_names" "list_all (\<lambda>w. length w = 3 \<and> list_all is_letter w) month_names"
    by (simp_all add: day_names_def month_names_def is_letter_def cclass)
  then show "n < 7 \<Longrightarrow> length (day_names ! n) = 3 \<and> list_all is_letter (day_names ! n)"
    "m < 12 \<Longrightarrow> length (month_names ! m) = 3 \<and> list_all is_letter (month_names ! m)"
    by (auto simp: list_all_length day_names_def month_names_def)
qed

lemma month_number_name: "m < 12 \<Longrightarrow> month_number (month_names ! m) = int m"
proof -
  assume "m < 12"
  then have "m \<in> {0, 1, 2, 3, 4, 5, 6, 7, 8, 9, 10, 11}" by (simp only: insert_iff empty_iff) presburger
  moreover have "\<forall>m \<in> {0, 1, 2, 3, 4, 5, 6, 7, 8, 9, 10, 11}. month_number (month_names ! m) = int m"
    by code_simp
  ultimately show ?thesis by blast
qed

lemma parse_strftime:
  assumes "tm_ok b" "w < 7" "0 \<le> tm_year b + 1900"
  shows "http_date_parse (Some (strftime_http b w)) = Some (tm_to_time_t_utc b)"
proof -
  have m: "nat (tm_mon b) < 12" using assms(1) by (auto simp: tm_ok_def)
  note d = names_letters(1) [OF assms(2)] and mn = names_letters(2) [OF m]
  have sp: "isspace (CHR '' '')" "\<not> isdigit (CHR '' '')" "\<not> isdigit (CHR '':'')" by (simp_all add: cclass)
  have f: "0 \<le> tm_mday b" "0 \<le> tm_hour b" "0 \<le> tm_min b" "0 \<le> tm_sec b" "0 \<le> tm_mon b"
    using assms(1) by (simp_all add: tm_ok_def)
  show ?thesis
    using f assms(3) month_number_name [OF m] d mn
    by (cases b) (simp add: http_date_parse_def strftime_http_def scan_name scan_lit_def sp)
qed

section \<open>Dates sent\<close>

lemma year_count_mono: "a \<le> b \<Longrightarrow> year_count a \<le> year_count b"
proof (induction b rule: int_ge_induct)
  case (step i)
  then show ?case using year_count_step [of "i + 1"] by (simp split: if_splits)
qed simp

lemma gmtime_year:
  assumes "- 62135596800 \<le> t" "t < 253402300800"
  obtains b w where "gmtime t = Some (b, w)" "1 \<le> tm_year b + 1900" "tm_year b + 1900 \<le> 9999"
proof -
  define days where "days = t div 86400"
  have days: "- 719162 \<le> days" "days < 2932897" using assms by (simp_all add: days_def)
  obtain y n where ys: "year_split (nat (days mod 146097)) (1970 + 400 * (days div 146097)) = (y, n)" by fastforce
  have c: "year_count (y - 1) + int n = year_count (1969 + 400 * (days div 146097)) + days mod 146097"
    "n < (if leap y then 366 else 365)"
    using year_split_count [OF ys] by simp_all
  have "year_count (1969 + 400 * (days div 146097)) = 719162 + 146097 * (days div 146097)"
    using div_quad [of "1969 + 400 * (days div 146097)" "days div 146097 + 4" 369] by (simp add: year_count_def)
  then have yc: "year_count (y - 1) + int n = 719162 + days"
    using c(1) mult_div_mod_eq [of 146097 days] by linarith
  have "1 \<le> y"
  proof (rule ccontr)
    assume "\<not> 1 \<le> y"
    then have "year_count y \<le> year_count 0" by (intro year_count_mono) simp
    moreover have "year_count 0 = 0" by (simp add: year_count_def)
    moreover have "year_count (y - 1) + int n < year_count y" using c(2) year_count_step [of y] by (cases "leap y") simp_all
    ultimately have "year_count (y - 1) + int n < 0" by linarith
    then show False using yc days(1) by simp
  qed
  moreover have "y \<le> 9999"
  proof (rule ccontr)
    assume "\<not> y \<le> 9999"
    then have "year_count 9999 \<le> year_count (y - 1)" by (intro year_count_mono) simp
    then show False using yc days(2) by (simp add: year_count_def)
  qed
  moreover obtain m d where ms: "month_split (month_lengths y) 0 n = (m, d)" by fastforce
  define b where "b = \<lparr>tm_year = y - 1900, tm_mon = int m, tm_mday = int d + 1, tm_hour = t mod 86400 div 3600,
    tm_min = t mod 86400 mod 3600 div 60, tm_sec = t mod 86400 mod 60\<rparr>"
  have "- (2 ^ 31) \<le> y - 1900 \<and> y - 1900 < 2 ^ 31" using calculation by simp
  then have "gmtime t = Some (b, nat ((days + 4) mod 7))"
    unfolding gmtime_def Let_def days_def [symmetric] ys prod.case ms b_def by (simp only: if_True simp_thms)
  moreover have "tm_year b = y - 1900" by (simp add: b_def)
  ultimately have "gmtime t = Some (b, nat ((days + 4) mod 7)) \<and> 1 \<le> tm_year b + 1900 \<and> tm_year b + 1900 \<le> 9999" by linarith
  then show thesis using that by blast
qed

lemma length_pad2: "0 \<le> n \<Longrightarrow> n < 100 \<Longrightarrow> length (pad2 n) \<le> 2"
  using length_show_nat [of "nat n" 1] length_show_nat [of "nat n" 0] by (simp add: pad2_def numeral_2_eq_2)

lemma length_strftime:
  assumes "tm_ok b" "w < 7" "1 \<le> tm_year b + 1900" "tm_year b + 1900 \<le> 9999"
  shows "length (strftime_http b w) \<le> 29"
proof -
  have "length (show_int (tm_year b + 1900)) \<le> 4"
    using length_show_nat [of "nat (tm_year b + 1900)" 3] assms(3,4) by (simp add: show_int_def)
  moreover have "length (pad2 (tm_mday b)) \<le> 2" "length (pad2 (tm_hour b)) \<le> 2" "length (pad2 (tm_min b)) \<le> 2" "length (pad2 (tm_sec b)) \<le> 2"
    using assms(1) by (auto simp: tm_ok_def intro!: length_pad2)
  moreover have "nat (tm_mon b) < 12" using assms(1) by (auto simp: tm_ok_def)
  ultimately show ?thesis
    using names_letters(1) [OF assms(2)] names_letters(2) [of "nat (tm_mon b)"] by (simp add: strftime_http_def)
qed

text \<open>The date of a time, as one call from the initial state writes it in the buffers of 64 bytes.\<close>

definition date_text :: "int \<Rightarrow> string" where
  "date_text t = (case fst (http_date t 64 no_cache) of Some d \<Rightarrow> d | None \<Rightarrow> [])"

lemma date_text_parse:
  assumes "- 62135596800 \<le> t" "t < 253402300800"
  shows "http_date_parse (Some (date_text t)) = Some t" "length (date_text t) \<le> 29"
    and "fst (http_date t 64 no_cache) = Some (date_text t)"
proof -
  obtain b w where g: "gmtime t = Some (b, w)" "1 \<le> tm_year b + 1900" "tm_year b + 1900 \<le> 9999"
    using gmtime_year [OF assms] .
  note c = gmtime_counts [OF g(1,2)]
  have l: "length (strftime_http b w) \<le> 29" using c g by (intro length_strftime) auto
  then have d: "fst (http_date t 64 no_cache) = Some (strftime_http b w)"
    by (simp add: http_date_def no_cache_def g(1) Let_def)
  then have "date_text t = strftime_http b w" by (simp add: date_text_def)
  then show "http_date_parse (Some (date_text t)) = Some t" "length (date_text t) \<le> 29"
    "fst (http_date t 64 no_cache) = Some (date_text t)"
    using parse_strftime [of b w] c g(2) l d by simp_all
qed

text \<open>The calls a server makes, each with the state the one before left.\<close>

fun http_dates :: "int list \<Rightarrow> date_cache \<Rightarrow> string option list" where
  "http_dates [] c = []"
| "http_dates (t # ts) c = (case http_date t 64 c of (d, c') \<Rightarrow> d # http_dates ts c')"

definition cache_ok :: "date_cache \<Rightarrow> bool" where
  "cache_ok c \<longleftrightarrow> cached_date c = [] \<or> fst (http_date (cached_time c) 64 no_cache) = Some (cached_date c) \<and> length (cached_date c) < 64"

lemma http_date_fresh:
  assumes "\<not> (t \<noteq> 0 \<and> t = cached_time c \<and> cached_date c \<noteq> [])"
  shows "fst (http_date t 64 c) = (case gmtime t of None \<Rightarrow> Some []
    | Some (b, w) \<Rightarrow> if 64 \<le> length (strftime_http b w) then None else Some (strftime_http b w))"
  unfolding http_date_def using assms by (simp only: if_False) (simp add: Let_def split: option.split)

lemma http_date_cached:
  assumes "cache_ok c"
  shows "fst (http_date t 64 c) = fst (http_date t 64 no_cache)" "cache_ok (snd (http_date t 64 c))"
proof -
  show "fst (http_date t 64 c) = fst (http_date t 64 no_cache)"
  proof (cases "t \<noteq> 0 \<and> t = cached_time c \<and> cached_date c \<noteq> []")
    case True
    with assms show ?thesis by (simp add: cache_ok_def http_date_def [of "cached_time c" 64 c])
  next
    case False
    then show ?thesis using http_date_fresh [of t c] http_date_fresh [of t no_cache] by (simp add: no_cache_def)
  qed
  show "cache_ok (snd (http_date t 64 c))"
    using assms by (auto simp: http_date_def cache_ok_def no_cache_def Let_def split: option.splits)
qed

text \<open>Whatever dates the server has written before, the date it writes for a time is the one a server that
  keeps none would write: the text kept between calls is never given for another time.\<close>

theorem dates_not_stale: "http_dates ts no_cache = map (\<lambda>t. fst (http_date t 64 no_cache)) ts"
proof -
  have "cache_ok c \<Longrightarrow> http_dates ts c = map (\<lambda>t. fst (http_date t 64 no_cache)) ts" for c
  proof (induction ts arbitrary: c)
    case (Cons t ts)
    with http_date_cached [OF Cons.prems, of t] show ?case by (cases "http_date t 64 c") simp
  qed simp
  then show ?thesis by (simp add: cache_ok_def no_cache_def)
qed

text \<open>C23. A date written for any time from the year 1 to the year 9999 is read back by
  \<open>http_date_parse\<close> to exactly that time, and it fits the buffer of 64 bytes.\<close>

theorem http_date_roundtrip:
  assumes "- 62135596800 \<le> t" "t < 253402300800"
  shows "\<exists>d. fst (http_date t 64 no_cache) = Some d \<and> length d \<le> 29 \<and> http_date_parse (Some d) = Some t"
  using date_text_parse [OF assms] by blast

theorem http_date_roundtrip_witness:
  "\<exists>d. fst (http_date 951782400 64 no_cache) = Some d \<and> http_date_parse (Some d) = Some 951782400"
  using http_date_roundtrip [of 951782400] by auto

text \<open>C22. Revalidation: a client that got a static file and asks again with the modification date it was sent, and
  without entity tags, is answered 304, for every file with a modification time from the year 1 to 9999.\<close>

theorem revalidation_not_modified:
  assumes "static_allowed f fnmatch statics uri = Some (filename, st)" "st_isreg st"
    "uri = (if uri0 \<noteq> [] \<and> last uri0 = CHR ''/'' then snprintf_trunc BUFSIZ (uri0 @ ''index.html'') else uri0)"
    "axil_header_get q env ''If-None-Match'' 64 = None"
    "request_handle_static q f fnmatch statics cache mime date_text env0 uri0 = SendFile filename ct st etag last_mod cc"
    "axil_header_get q env ''If-Modified-Since'' 64 = Some last_mod"
    "- 62135596800 \<le> st_mtime st" "st_mtime st < 253402300800"
  shows "request_handle_static q f fnmatch statics cache mime date_text env uri0 = NotModified etag last_mod cc"
proof -
  have r: "last_mod = date_text (st_mtime st)" "etag = static_etag st 64" "cc = static_cache_control fnmatch cache uri 256"
    using assms(5) unfolding request_handle_static_def Let_def assms(3) [symmetric] assms(1)
    by (auto split: if_splits option.splits)
  show ?thesis
    using assms(2,4,6) date_text_parse(1) [OF assms(7,8)]
    unfolding request_handle_static_def Let_def assms(3) [symmetric] assms(1) by (simp add: r)
qed

lemma demo_date: "date_text 2 = ''Thu, 01 Jan 1970 00:00:02 GMT''"
  by code_simp

theorem revalidation_not_modified_witness:
  "case request_handle_static alist_map demo_fs (\<lambda>g p. True) (Some ''htdocs *'') None (\<lambda>e. None) date_text
      [(''HTTP_IF_MODIFIED_SINCE'', ''Thu, 01 Jan 1970 00:00:02 GMT'')] ''/a.txt'' of
     NotModified etag l c \<Rightarrow> l = ''Thu, 01 Jan 1970 00:00:02 GMT'' | SendFile fn ct st etag l c \<Rightarrow> False | NotStatic \<Rightarrow> False"
proof -
  let ?env = "[(''HTTP_IF_MODIFIED_SINCE'', ''Thu, 01 Jan 1970 00:00:02 GMT'')]"
  have h: "axil_header_get alist_map ?env ''If-None-Match'' 64 = None"
    "axil_header_get alist_map ?env ''If-Modified-Since'' 64 = Some ''Thu, 01 Jan 1970 00:00:02 GMT''"
    "axil_header_get alist_map [] ''If-None-Match'' 64 = None" "axil_header_get alist_map [] ''If-Modified-Since'' 64 = None"
    by code_simp+
  obtain ct etag cc where first: "request_handle_static alist_map demo_fs (\<lambda>g p. True) (Some ''htdocs *'') None (\<lambda>e. None) date_text [] ''/a.txt''
    = SendFile ''/srv/htdocs/a.txt'' ct \<lparr>st_ino = 1, st_mtime = 2, st_mtime_nsec = 0, st_size = 3, st_isreg = True, st_isdir = False\<rparr>
        etag ''Thu, 01 Jan 1970 00:00:02 GMT'' cc"
    by (auto simp: request_handle_static_def Let_def demo_allowed h demo_date)
  show ?thesis
    using revalidation_not_modified [OF demo_allowed _ _ h(1) first h(2)] by simp
qed

end
