(* ===== verification/Axil_Serve.thy ===== *)
theory Axil_Serve
  imports Axil_Service
begin

text \<open>
  The commands of the library and what goes to every connection: the five methods registered in
  \<open>axil_pre_init\<close> (\<open>src/libaxil.c\<close> 2706 to 2710) with their callbacks \<open>do_GET\<close> to \<open>do_DELETE\<close> (2610 to 2638),
  the loop \<open>DESCR_ITER\<close> (88 to 93) under \<open>axil_wall\<close> (756 to 759) and \<open>cleanup\<close> (370 to 377).

  Here the components meet: the bytes of a request read from a socket are stored, split, gated, dispatched
  to the callback of their method and handled.
\<close>

section \<open>The methods as commands\<close>

definition http_methods :: "(string \<times> flagw) list" where
  "http_methods = [(''GET'', 0), (''HEAD'', AXIL_HEAD), (''POST'', AXIL_POST), (''PUT'', AXIL_PUT), (''DELETE'', AXIL_DELETE)]"

definition http_commands :: "string \<Rightarrow> 32 word option" where
  "http_commands name = map_option (\<lambda>fl. CF_NOAUTH OR CF_NOTRIM) (map_of http_methods name)"

text \<open>A callback handles the request, then drops the table of the last parsed query.\<close>

definition do_method ::
  "('m, 'h) site \<Rightarrow> kernel \<Rightarrow> nat \<Rightarrow> string list \<Rightarrow> nat \<Rightarrow> nat \<Rightarrow> flagw \<Rightarrow> 'm \<Rightarrow> 'm \<Rightarrow> server \<Rightarrow> ('m \<times> 'm \<times> server) run" where
  "do_method w k i argv rest len fl env query_db s =
     bind_run (request_handle w k i argv rest len fl env s) (\<lambda>(env', s'). Done (env', q_drop (w_q w) query_db, s'))"

text \<open>The callbacks of a server with no other commands and no hooks, as \<open>descr_read\<close> takes them; \<open>len\<close> is
  \<open>input_len\<close>, \<open>env\<close> the environment of the connection.\<close>

definition http_callback :: "('m, 'h) site \<Rightarrow> kernel \<Rightarrow> nat \<Rightarrow> 'm \<Rightarrow> 'm \<Rightarrow> callbacks" where
  "http_callback w k len env query_db i acts s =
     (case acts of
        [CmdCall name args (Some rest)] \<Rightarrow>
          (case map_of http_methods name of
             Some fl \<Rightarrow> (case do_method w k i args rest len fl env query_db s of Done (_, _, s') \<Rightarrow> s' | _ \<Rightarrow> s)
           | None \<Rightarrow> s)
      | _ \<Rightarrow> s)"

section \<open>Every connection\<close>

definition descr_iter :: "(nat \<Rightarrow> server \<Rightarrow> server run) \<Rightarrow> server \<Rightarrow> server run" where
  "descr_iter f = run_pass (\<lambda>i s.
     if i \<notin> fds_read s \<or> \<not> has (d_flags (descr_map s i)) DF_CONNECTED then Done s else f i s) [1..<FD_SETSIZE]"

definition axil_wall :: "kernel \<Rightarrow> string \<Rightarrow> server \<Rightarrow> server run" where
  "axil_wall k msg = descr_iter (\<lambda>i s. bind_run (axil_write k (int i) msg s) (\<lambda>(_, s'). Done s'))"

definition cleanup :: "bool \<Rightarrow> kernel \<Rightarrow> server \<Rightarrow> server run" where
  "cleanup do_cleanup k s = (if \<not> do_cleanup then Done s else descr_iter (\<lambda>i t. Done (axil_close k (int i) t)) s)"

section \<open>From the socket to the request\<close>

text \<open>A client from which the loop reads a command.\<close>

definition readable :: "nat \<Rightarrow> server \<Rightarrow> bool" where
  "readable i s \<longleftrightarrow> i \<in> fds_read s \<and> int i \<noteq> srv_fd s \<and> int i \<noteq> srv_ssl_fd s \<and> d_fd (descr_map s i) = int i
     \<and> \<not> has (d_flags (descr_map s i)) (DF_EXTERN OR DF_WS_WAITING OR DF_TUNNEL)
     \<and> has (d_flags (descr_map s i)) DF_ACCEPTED \<and> d_epid (descr_map s i) = 0 \<and> io s i \<noteq> NoIo"

lemma proc_read_readable:
  assumes "readable i s"
  shows "proc_read_fd k cb i s = bind_run (descr_read k cb i s) (\<lambda>(r, s1). Done (if r < 0 then axil_close k (int i) s1 else s1))"
  using assms by (auto simp: readable_def proc_read_fd_def Let_def has_split)

lemma read_once:
  assumes "txt \<noteq> []" "length txt < BUFSIZ" "length txt < n"
  shows "axil_read recv_from alloc n (Got txt # as) = (int (length txt), None, txt, n, as)"
  using assms by (simp add: axil_read_def axil_read_loop.simps recv_from_def)

lemma store_once: "length txt < length block \<Longrightarrow> store_input txt (length block) block = txt @ drop (length txt) block"
  by (simp add: store_input_def)

lemma method_commands:
  assumes "map_of http_methods m = Some fl"
  shows "http_commands m = Some (CF_NOAUTH OR CF_NOTRIM)" "m \<noteq> []" "list_all word_char m" "list_all isalnum m" "NUL \<notin> set m"
proof -
  show "http_commands m = Some (CF_NOAUTH OR CF_NOTRIM)" using assms by (simp add: http_commands_def)
  have "m \<in> fst ` set http_methods" using assms by (metis domI dom_map_of_conv_image_fst)
  then have "m \<in> {''GET'', ''HEAD'', ''POST'', ''PUT'', ''DELETE''}" by (simp add: http_methods_def)
  then show "m \<noteq> []" "list_all word_char m" "list_all isalnum m" "NUL \<notin> set m"
    by (auto simp: word_char_def cclass)
qed

text \<open>The words of a request line as the callback gets them: the last one runs on to the first NUL.\<close>

lemma cmd_parse_method:
  assumes "map_of http_methods m = Some fl" "list_all word_char target" "list_all word_char version"
    "inp = join (CHR '' '') [m, target, version] @ CR # LF # body @ z # stale"
    "len = length (join (CHR '' '') [m, target, version]) + 2 + length body"
    "buf = join NUL [m, target, version] @ CR # LF # body @ NUL # stale"
    "rest = length (join NUL [m, target, version]) + 2"
  shows "cmd_parse http_commands False vim False fg inp len
    = Done (int len, buf, [CmdCall m [m, target, version @ CR # LF # cstr body] (Some rest)])"
proof -
  note m = method_commands [OF assms(1)]
  let ?ws = "[m, target, version]"
  have new: "cmd_new inp len = Done (buf, 0 # starts 0 ?ws, rest)"
    unfolding assms(6,7)
    by (rule cmd_new_line) (use m assms(2-5) in \<open>auto simp: CMD_ARGM_def hd_in_set list_all_iff\<close>)
  have n: "NUL \<notin> set target" "NUL \<notin> set version" by (rule word_char_no_nul [OF assms(2)], rule word_char_no_nul [OF assms(3)])
  have c: "cstr_at buf 0 = m" "cstr_at buf (length m + 1) = target"
    using m(5) n by (simp_all add: cstr_at_def assms(6) cstr_append) (simp_all add: cstr_def)
  have ct: "cstr (body @ NUL # stale) = cstr body" by (induction body) (simp_all add: cstr_def)
  have l: "cstr_at buf (length m + length target + 2) = version @ CR # LF # cstr body"
    using n(2) ct by (simp add: cstr_at_def assms(6) cstr_append) (simp add: cstr_def)
  have a: "alnum_end buf 0 = length m"
  proof -
    have "takeWhile isalnum (m @ NUL # x) = m" for x
      using m(4) by (simp add: list_all_iff takeWhile_append) (simp add: cclass)
    then show ?thesis by (simp add: alnum_end_def assms(6))
  qed
  have same: "buf[length m := NUL] = buf" by (simp add: assms(6) list_update_append)
  have gate: "(CF_NOAUTH OR CF_NOTRIM) AND CF_NOAUTH \<noteq> 0" "(CF_NOAUTH OR CF_NOTRIM) AND CF_NOTRIM \<noteq> 0"
    by (simp_all add: CF_NOAUTH_def CF_NOTRIM_def)
  have "\<not> prefix ''PRI'' m \<or> m \<noteq> ''PRI''" using assms(1) by (auto simp: http_methods_def)
  then have "m \<noteq> ''PRI''" using assms(1) by (auto simp: http_methods_def)
  then have "cmd_proc http_commands False vim False fg buf (0 # starts 0 ?ws) rest
      = (buf, [CmdCall m [m, target, version @ CR # LF # cstr body] (Some rest)])"
    using m(1) gate c l a same by (simp add: cmd_proc_def Let_def)
  then show ?thesis using new by (simp add: cmd_parse_def)
qed

lemma read_handles_request:
  assumes "readable i s" "map_of http_methods m = Some fl" "list_all word_char target" "list_all word_char version"
    "txt = join (CHR '' '') [m, target, version] @ CR # LF # body" "length txt < BUFSIZ" "length txt < length (input s)"
    "k_recv k i = Got txt # more_reads" "0 \<le> h_parse k i txt" "h_cmds k = http_commands" "\<not> h_command k" "\<not> h_flush k"
    "buf = join NUL [m, target, version] @ CR # LF # body @ NUL # drop (Suc (length txt)) (input s)"
    "request_handle w k i [m, target, version @ CR # LF # cstr body] (length txt - length body) (length txt) fl env
       (s\<lparr>input := buf\<rparr>) = Done (env', s')"
  shows "proc_read_fd k (http_callback w k (length txt) env query_db) i s = Done s'"
proof -
  let ?n = "length (join (CHR '' '') [m, target, version])"
  have ne: "txt \<noteq> []" by (simp add: assms(5))
  have rest: "length txt - length body = length (join NUL [m, target, version]) + 2" by (simp add: assms(5))
  have inp: "txt @ drop (length txt) (input s) = join (CHR '' '') [m, target, version] @ CR # LF # body
      @ (input s ! length txt) # drop (Suc (length txt)) (input s)"
    using assms(7) by (simp add: assms(5) Cons_nth_drop_Suc)
  have p: "cmd_parse http_commands False (h_vim k) False (d_flags (descr_map s i)) (txt @ drop (length txt) (input s)) (length txt)
      = Done (int (length txt), buf, [CmdCall m [m, target, version @ CR # LF # cstr body] (Some (length txt - length body))])"
    by (rule cmd_parse_method [OF assms(2,3,4) inp _ assms(13) rest]) (simp add: assms(5))
  have cb: "http_callback w k (length txt) env query_db i [CmdCall m [m, target, version @ CR # LF # cstr body] (Some (length txt - length body))]
      (s\<lparr>input := buf\<rparr>) = s'"
    using assms(2,14) by (simp add: http_callback_def do_method_def)
  have "descr_read k (http_callback w k (length txt) env query_db) i s = Done (int (length txt), s')"
    using assms(1,8-12) read_once [OF ne assms(6,7)] store_once [OF assms(7)] p cb ne
    by (simp add: descr_read_def Let_def readable_def)
  then show ?thesis by (simp add: proc_read_readable [OF assms(1)])
qed

text \<open>C4. The components together: a request of one of the five methods that arrives in one read of fewer than
  \<open>BUFSIZ\<close> bytes, from a connected or a new client, is handled as \<open>request_handle\<close> handles its words, its header
  text and its length, with the bytes in the input block.  No authentication is asked.\<close>

theorem read_dispatches_request:
  assumes "readable i s" "map_of http_methods m = Some fl" "list_all word_char target" "list_all word_char version"
    "txt = join (CHR '' '') [m, target, version] @ CR # LF # body" "length txt < BUFSIZ" "length txt < length (input s)"
    "k_recv k i = Got txt # more_reads" "0 \<le> h_parse k i txt" "h_cmds k = http_commands" "\<not> h_command k" "\<not> h_flush k"
    "buf = join NUL [m, target, version] @ CR # LF # body @ NUL # drop (Suc (length txt)) (input s)"
    "request_handle w k i [m, target, version @ CR # LF # cstr body] (length txt - length body) (length txt) fl env
       (s\<lparr>input := buf\<rparr>) = Done (env', s')"
  shows "proc_read_fd k (http_callback w k (length txt) env query_db) i s = Done s'"
  by (rule read_handles_request [OF assms])

text \<open>The client of the witnesses sends a request for the root.\<close>

definition get_root :: string where
  "get_root = ''GET / HTTP/1.1'' @ CR # LF # CRLF"

definition get_kernel :: kernel where
  "get_kernel = demo_kernel\<lparr>k_recv := (\<lambda>i. [Got get_root]), h_cmds := http_commands\<rparr>"

definition get_client :: server where
  "get_client = demo_client\<lparr>fds_read := {5}\<rparr>"

lemma demo_listens: "srv_fd demo_client = 3" "srv_ssl_fd demo_client = - 1" "length (input demo_client) = FIRST_INPUT_SIZE"
  by (simp_all add: demo_client_def demo_boot_def descr_new_def demo_kernel_def Let_def axil_init_def axil_bind_def
    axil_pre_init_def FD_SETSIZE_def)

lemma get_client_state:
  "descr_map get_client = descr_map demo_client" "io get_client = io demo_client" "srv_fd get_client = srv_fd demo_client"
  "srv_ssl_fd get_client = srv_ssl_fd demo_client" "input get_client = input demo_client" "fds_read get_client = {5}"
  by (simp_all add: get_client_def)

definition get_state :: server where
  "get_state = get_client\<lparr>input := join NUL [''GET'', ''/'', ''HTTP/1.1''] @ CR # LF # CRLF @ NUL # drop (Suc (length get_root)) (input get_client)\<rparr>"

lemma get_run:
  "\<exists>e. request_handle demo_site get_kernel 5 [''GET'', ''/'', ''HTTP/1.1'' @ CR # LF # cstr CRLF] 16 18 0 [] get_state
     = Done (e, mark_close 5 (mark_close 5 get_state))"
proof -
  have c: "cstr_at (input get_state) 16 = CRLF" by (simp add: get_state_def cstr_at_def cstr_def)
  have h: "headers_get alist_map [] CRLF = Some ([], 1)"
    using demo_headers by (simp add: cstr_at_def cstr_def)
  have d: "descr_map get_state = descr_map demo_client" by (simp add: get_state_def get_client_state)
  show ?thesis
    using demo_prep
    by (clarsimp simp: request_handle_def Let_def demo_target demo_site_def h c d
       req_method_def platform_auth_try_def request_handle_trailing_slash_def request_serve_def demo_client_state
       request_static_def request_handle_static_def static_allowed_def autoindex_allowed_def request_handle_redirect_def
       request_dispatch_def find_handler_def method_key_def snprintf_trunc_def zero_descr_def has_def DF_ACCEPTED_def DF_WEBSOCKET_def)
qed

theorem read_dispatches_request_witness:
  "proc_read_fd get_kernel (http_callback demo_site get_kernel 18 [] []) 5 get_client = Done (mark_close 5 (mark_close 5 get_state))"
proof -
  have r: "readable 5 get_client"
    by (simp add: readable_def get_client_state demo_client_state demo_listens zero_descr_def) (simp add: has_def df_defs)
  have m: "map_of http_methods ''GET'' = Some 0" by (simp add: http_methods_def)
  have t: "get_root = join (CHR '' '') [''GET'', ''/'', ''HTTP/1.1''] @ CR # LF # CRLF" "length get_root = 18"
    by (simp_all add: get_root_def)
  have i: "length (input get_client) = FIRST_INPUT_SIZE" by (simp add: get_client_state demo_listens)
  obtain e where e: "request_handle demo_site get_kernel 5 [''GET'', ''/'', ''HTTP/1.1'' @ CR # LF # cstr CRLF] 16 18 0 [] get_state
     = Done (e, mark_close 5 (mark_close 5 get_state))" using get_run by blast
  have w: "list_all word_char ''/''" "list_all word_char ''HTTP/1.1''" by (simp_all add: word_char_def cclass)
  have l: "length get_root < BUFSIZ" "length get_root < length (input get_client)"
    unfolding i by (simp_all add: t(2) BUFSIZ_def FIRST_INPUT_SIZE_def)
  have k: "k_recv get_kernel 5 = Got get_root # []" "0 \<le> h_parse get_kernel 5 get_root" "h_cmds get_kernel = http_commands"
    "\<not> h_command get_kernel" "\<not> h_flush get_kernel"
    by (simp_all add: get_kernel_def demo_kernel_def)
  have n: "length get_root - length CRLF = 16" by (simp add: t(2))
  have gs: "get_client\<lparr>input := join NUL [''GET'', ''/'', ''HTTP/1.1''] @ CR # LF # CRLF @ NUL # drop (Suc 18) (input get_client)\<rparr> = get_state"
    by (simp only: get_state_def t(2))
  have "proc_read_fd get_kernel (http_callback demo_site get_kernel (length get_root) [] []) 5 get_client
      = Done (mark_close 5 (mark_close 5 get_state))"
    by (rule read_dispatches_request [OF r m w t(1) l k refl, of demo_site "[]" e])
      (unfold n, simp only: t(2) gs e)
  then show ?thesis by (simp only: t(2))
qed

section \<open>Broadcasts\<close>

definition reached :: "server \<Rightarrow> nat \<Rightarrow> bool" where
  "reached s i \<longleftrightarrow> i \<in> fds_read s \<and> has (d_flags (descr_map s i)) DF_CONNECTED"

lemma wall_pass:
  assumes "\<forall>i \<in> set is. reached s i \<longrightarrow> idle k i s" "length msg \<le> 65536"
  shows "run_pass (\<lambda>i s. if i \<notin> fds_read s \<or> \<not> has (d_flags (descr_map s i)) DF_CONNECTED then Done s
      else bind_run (axil_write k (int i) msg s) (\<lambda>(_, s'). Done s')) is s
    = Done (emit (concat (map (\<lambda>i. if reached s i then sent_events i msg else []) is)) s)"
  using assms(1)
proof (induction "is" arbitrary: s)
  case Nil
  then show ?case by (simp add: emit_def)
next
  case (Cons i js)
  show ?case
  proof (cases "reached s i")
    case False
    with Cons show ?thesis by (auto simp: reached_def)
  next
    case True
    have same: "reached (emit (sent_events i msg) s) = reached s" by (simp add: reached_def fun_eq_iff)
    with True Cons.prems Cons.IH [of "emit (sent_events i msg) s"] show ?thesis
      by (simp add: idle_write [OF _ assms(2)] idle_def) (simp add: reached_def)
  qed
qed

lemma sent_on_wall:
  "distinct is \<Longrightarrow> sent_on i (concat (map (\<lambda>j. if P j then sent_events j msg else []) is)) = (if i \<in> set is \<and> P i then msg else [])"
proof (induction "is")
  case (Cons j js)
  have "sent_on i (sent_events j msg) = (if j = i then msg else [])" by (simp add: sent_events_def)
  with Cons show ?case by auto
qed simp

text \<open>A message to everyone goes, once, to the connected clients the last \<open>select\<close> found readable and to no
  other: a client that is connected but has sent nothing since is left out.\<close>

theorem wall_reaches_readable:
  assumes "\<forall>i. reached s i \<longrightarrow> idle k i s" "length msg \<le> 65536"
  shows "\<exists>s'. axil_wall k msg s = Done s' \<and> (\<forall>i. sent_on i (events s') = sent_on i (events s)
    @ (if 1 \<le> i \<and> i < FD_SETSIZE \<and> i \<in> fds_read s \<and> has (d_flags (descr_map s i)) DF_CONNECTED then msg else []))"
proof -
  let ?s' = "emit (concat (map (\<lambda>i. if reached s i then sent_events i msg else []) [1..<FD_SETSIZE])) s"
  have "axil_wall k msg s = Done ?s'"
    unfolding axil_wall_def descr_iter_def by (rule wall_pass) (use assms in auto)
  then show ?thesis
    using sent_on_wall [of "[1..<FD_SETSIZE]" _ "reached s" msg] by (auto simp: reached_def)
qed

lemma cleanup_ok: "server_ok s \<Longrightarrow> cleanup c k s = Done s' \<Longrightarrow> server_ok s'"
proof -
  have "run_pass (\<lambda>i s. if i \<notin> fds_read s \<or> \<not> has (d_flags (descr_map s i)) DF_CONNECTED then Done s
      else Done (axil_close k (int i) s)) is s = Done s' \<Longrightarrow> server_ok s \<Longrightarrow> server_ok s'" for "is" s
    by (induction "is" arbitrary: s) (auto simp: server_ok_close split: if_splits)
  then show "server_ok s \<Longrightarrow> cleanup c k s = Done s' \<Longrightarrow> server_ok s'"
    by (auto simp: cleanup_def descr_iter_def split: if_splits)
qed

theorem wall_reaches_readable_witness:
  "\<exists>s'. axil_wall wide_kernel ''hi'' (upd_descr 5 (add_flags DF_CONNECTED) get_client) = Done s'
     \<and> sent_on 5 (events s') = sent_on 5 (events (upd_descr 5 (add_flags DF_CONNECTED) get_client)) @ ''hi''"
proof -
  let ?s = "upd_descr 5 (add_flags DF_CONNECTED) get_client"
  have "idle wide_kernel 5 ?s"
    using demo_client_idle by (simp add: idle_def get_client_def live_def)
  then have "\<forall>i. reached ?s i \<longrightarrow> idle wide_kernel i ?s" by (simp add: reached_def get_client_state)
  moreover have "has (d_flags (descr_map ?s 5)) DF_CONNECTED" by (simp add: has_def DF_CONNECTED_def)
  ultimately show ?thesis
    using wall_reaches_readable [of ?s wide_kernel "''hi''"] by (fastforce simp: get_client_state FD_SETSIZE_def)
qed

end
