(* ===== verification/Axil_Win.thy ===== *)
theory Axil_Win
  imports Axil_Respond
begin

text \<open>
  The Windows port, \<open>src/axil-win.c\<close>: \<open>axil_sendfile\<close>, which reads the file where the POSIX port maps it
  (\<open>src/axil-posix.c\<close>).  The other functions of the port have empty bodies.
\<close>

text \<open>\<open>file\<close> gives nothing when the open fails, then what \<open>fstat\<close> gives and the bytes the reads deliver before
  the end of the file or an error.\<close>

definition axil_sendfile_win ::
  "(string \<Rightarrow> string option) \<Rightarrow> (string \<Rightarrow> (stat_t option \<times> string) option) \<Rightarrow> kernel \<Rightarrow> nat
     \<Rightarrow> string \<Rightarrow> server \<Rightarrow> server run" where
  "axil_sendfile_win mimes file k i path s =
     (case file path of
        None \<Rightarrow> axil_respond k i 404 (Some ''404 Not Found'') s
      | Some (None, _) \<Rightarrow> axil_respond k i 500 (Some ''500 Internal Server Error'') s
      | Some (Some st, content) \<Rightarrow>
          let mime = (case Option.bind (after_last (CHR ''.'') path) mimes of
                        Some m \<Rightarrow> m | None \<Rightarrow> ''application/octet-stream'') in
          bind_run (send_sized k i mime (st_size st) None s) (\<lambda>s1.
          bind_run (write_all k i (file_chunks BUFSIZ content) s1) (\<lambda>s2. Done (axil_close k (int i) s2))))"

text \<open>Both ports send an idle client the head of the response with the size of the file and nothing of the file: the
  response without a body has closed the client when the bytes are written.\<close>

theorem sendfile_ports_agree:
  assumes "idle k i s" "\<not> has (d_flags (descr_map s i)) TEARDOWN" "after_last (CHR ''.'') path = Some ext"
    "length (file_head mimes ext (st_size st) (d_headers (descr_map s i))) < 4096"
    "posix_file path = Some (Some st, Some content)" "win_file path = Some (Some st, content)"
  shows "\<exists>s1 s2. axil_sendfile mimes posix_file k i path s = Done s1 \<and> axil_sendfile_win mimes win_file k i path s = Done s2
    \<and> sent_on i (events s1) = sent_on i (events s) @ file_head mimes ext (st_size st) (d_headers (descr_map s i))
    \<and> sent_on i (events s2) = sent_on i (events s1) \<and> int i \<notin> live s1 \<and> int i \<notin> live s2"
proof -
  let ?mime = "case mimes ext of Some m \<Rightarrow> m | None \<Rightarrow> ''application/octet-stream''"
  obtain s3 where s3: "send_sized k i ?mime (st_size st) None s = Done s3" "0 < i" "i < FD_SETSIZE" "io s3 i = RawIo" "int i \<notin> live s3"
    "descr_map s3 i = zero_descr (- 1)"
    "sent_on i (events s3) = sent_on i (events s) @ file_head mimes ext (st_size st) (d_headers (descr_map s i))"
    using send_sized_closes [OF assms(1,2), of ?mime "st_size st"] assms(4) by (auto simp: file_head_def)
  have q: "d_queue (descr_map s3 i) = empty_queue" by (simp add: s3(6) zero_descr_def)
  note w = write_all_closed [OF s3(2,4,5) q]
  have nt: "\<not> has (d_flags (descr_map s3 i)) TEARDOWN" "\<not> has (d_flags (descr_map (mark_close i s3) i)) TEARDOWN"
    by (simp_all add: s3(6) mark_close_def zero_descr_def add_flags_def) (simp_all add: has_def TEARDOWN_def df_defs)
  have "axil_sendfile mimes posix_file k i path s = Done (axil_close k (int i) (mark_close i s3))"
    using assms(3,5) s3(1) w q by (simp add: axil_sendfile_def close_or_flush_def mark_close_def add_flags_def empty_queue_def del: write_all.simps)
  moreover have "axil_sendfile_win mimes win_file k i path s = Done (axil_close k (int i) s3)"
    using assms(3,6) s3(1) w by (simp add: axil_sendfile_win_def del: write_all.simps)
  ultimately show ?thesis
    using close_plain_effect(4) [OF s3(3) nt(1), of k] close_plain_effect(4) [OF s3(3) nt(2), of k] s3(5,7)
    by (simp add: mark_close_def)
qed

end
