(* ===== verification/Axil_Apps.thy ===== *)
theory Axil_Apps
  imports Axil_Serve Axil_Main Axil_Typed
begin

text \<open>
  The two programs the repository keeps beside the library to run it against: \<open>src/test-routes.c\<close>, whose
  handlers answer with what their patterns captured, and \<open>src/test-auth.c\<close>, which logs clients in by a
  cookie.  They use the library as its clients do, so that the theorems here are about a whole program:
  what bytes a request for a path gets back.  The table of handlers is read in the order the hash
  table of qmap has, which the code does not know; the theorems hold for every order.
\<close>

section \<open>The routes program\<close>

datatype route_handler = Song | Songbook_edit | Songbook_catchall | Chords

definition route_respond :: "kernel \<Rightarrow> nat \<Rightarrow> string \<Rightarrow> server \<Rightarrow> (int \<times> server) run" where
  "route_respond k i body s =
     bind_run (axil_respond k i 200 (Some body)
         (header_set i ''Connection'' ''close''
         (header_set i ''Content-Length'' (snprintf_trunc 32 (show_nat (length body)))
         (header_set i ''Content-Type'' ''text/plain'' s))))
       (\<lambda>s1. Done (0, s1))"

text \<open>\<open>char id[ENV_VALUE_LEN] = {0}\<close>, then \<open>axil_env_get\<close>, which leaves it alone when there is no value.\<close>

definition pattern_id :: "'m string_map \<Rightarrow> 'm \<Rightarrow> string" where
  "pattern_id q env = (case axil_env_get q env ENV_VALUE_LEN ''PATTERN_PARAM_ID'' of (_, Some v) \<Rightarrow> v | (_, None) \<Rightarrow> [])"

definition route_song :: "'m string_map \<Rightarrow> kernel \<Rightarrow> nat \<Rightarrow> string \<Rightarrow> 'm \<Rightarrow> server \<Rightarrow> (int \<times> server) run" where
  "route_song q k i body env s = route_respond k i (pattern_id q env) s"

definition route_songbook_edit :: "'m string_map \<Rightarrow> kernel \<Rightarrow> nat \<Rightarrow> string \<Rightarrow> 'm \<Rightarrow> server \<Rightarrow> (int \<times> server) run" where
  "route_songbook_edit q k i body env s =
     route_respond k i (snprintf_trunc (ENV_VALUE_LEN + 16) (''edit:'' @ pattern_id q env)) s"

definition route_songbook_catchall :: "kernel \<Rightarrow> nat \<Rightarrow> string \<Rightarrow> server \<Rightarrow> (int \<times> server) run" where
  "route_songbook_catchall k i body s = route_respond k i ''catchall'' s"

definition route_chords :: "'m string_map \<Rightarrow> kernel \<Rightarrow> nat \<Rightarrow> string \<Rightarrow> 'm \<Rightarrow> server \<Rightarrow> (int \<times> server) run" where
  "route_chords q k i body env s =
     route_respond k i (snprintf_trunc (ENV_VALUE_LEN + 16) (''chords:'' @ pattern_id q env)) s"

text \<open>The handlers as \<open>site\<close> has them: whether the result is not zero, and the server; one that does not
  come back leaves the server as it was.\<close>

definition routes_call ::
  "'m string_map \<Rightarrow> kernel \<Rightarrow> route_handler \<Rightarrow> nat \<Rightarrow> string \<Rightarrow> 'm \<Rightarrow> server \<Rightarrow> bool \<times> server" where
  "routes_call q k h i body env s =
     (case (case h of
              Song \<Rightarrow> route_song q k i body env s
            | Songbook_edit \<Rightarrow> route_songbook_edit q k i body env s
            | Songbook_catchall \<Rightarrow> route_songbook_catchall k i body s
            | Chords \<Rightarrow> route_chords q k i body env s) of
        Done (r, s1) \<Rightarrow> (r \<noteq> 0, s1)
      | _ \<Rightarrow> (False, s))"

text \<open>What \<open>main\<close> registers.\<close>

definition routes :: "(string \<times> route_handler option) list" where
  "routes =
     [(''GET:/song/:id'', Some Song), (''GET:/sb/*'', Some Songbook_catchall),
      (''GET:/sb/:id/edit'', Some Songbook_edit), (''/chords/:id'', Some Chords)]"

section \<open>Starting the programs\<close>

text \<open>The options of \<open>src/test-routes.c\<close> and \<open>src/test-auth.c\<close>; \<open>None\<close> is the usage text.\<close>

fun routes_options :: "(char \<times> string) list \<Rightarrow> config \<Rightarrow> config option" where
  "routes_options [] cf = Some cf"
| "routes_options ((c, arg) # opts) cf =
     (if c = CHR ''p'' then routes_options opts (cf\<lparr>cf_port := atoi arg\<rparr>) else None)"

fun auth_options :: "(char \<times> string) list \<Rightarrow> config \<Rightarrow> config option" where
  "auth_options [] cf = Some cf"
| "auth_options ((c, arg) # opts) cf =
     (if c = CHR ''p'' then auth_options opts (cf\<lparr>cf_port := atoi arg\<rparr>)
      else if c = CHR ''C'' then auth_options opts (cf\<lparr>cf_chroot := Some arg\<rparr>) else None)"

text \<open>The configuration, the handlers and the default handler when \<open>axil_main\<close> is called.\<close>

definition routes_main :: "(char \<times> string) list \<Rightarrow> (config \<times> (string \<times> route_handler option) list) option" where
  "routes_main opts = map_option (\<lambda>cf. (cf, routes)) (routes_options opts (initial_config\<lparr>cf_flags := 0\<rparr>))"

definition auth_main :: "(char \<times> string) list \<Rightarrow> config option" where
  "auth_main opts = auth_options opts (initial_config\<lparr>cf_flags := 0\<rparr>)"

text \<open>Both register four methods again, which changes nothing.\<close>

definition app_commands :: "string \<Rightarrow> 32 word option" where
  "app_commands =
     http_commands(''GET'' \<mapsto> CF_NOAUTH OR CF_NOTRIM, ''POST'' \<mapsto> CF_NOAUTH OR CF_NOTRIM,
       ''PUT'' \<mapsto> CF_NOAUTH OR CF_NOTRIM, ''DELETE'' \<mapsto> CF_NOAUTH OR CF_NOTRIM)"

lemma app_commands_same: "app_commands = http_commands"
  by (rule ext) (simp add: app_commands_def http_commands_def http_methods_def)

section \<open>Specification\<close>

text \<open>Which handler a path of these components is for, by the table alone, and what it captures: \<open>get\<close> is
  whether the method is GET or HEAD.\<close>

definition route_choice :: "bool \<Rightarrow> string list \<Rightarrow> (route_handler \<times> string option) option" where
  "route_choice get cs =
     (let short = (1 < length cs \<and> length (cs ! 1) < PATTERN_BUF) in
      if get \<and> length cs = 2 \<and> cs ! 0 = ''song'' \<and> short then Some (Song, Some (cs ! 1))
      else if get \<and> length cs = 3 \<and> cs ! 0 = ''sb'' \<and> cs ! 2 = ''edit'' \<and> short then Some (Songbook_edit, Some (cs ! 1))
      else if get \<and> 2 \<le> length cs \<and> cs ! 0 = ''sb'' then Some (Songbook_catchall, None)
      else if length cs = 2 \<and> cs ! 0 = ''chords'' \<and> short then Some (Chords, Some (cs ! 1))
      else None)"

fun route_answer :: "route_handler \<Rightarrow> string \<Rightarrow> string" where
  "route_answer Song v = v"
| "route_answer Songbook_edit v = ''edit:'' @ v"
| "route_answer Songbook_catchall v = ''catchall''"
| "route_answer Chords v = ''chords:'' @ v"

section \<open>The patterns of the routes program\<close>

lemma comps_routes:
  "comps ''GET:/song/:id'' = [''GET:'', ''song'', '':id'']" "comps ''GET:/sb/*'' = [''GET:'', ''sb'', ''*'']"
  "comps ''GET:/sb/:id/edit'' = [''GET:'', ''sb'', '':id'', ''edit'']" "comps ''chords/:id'' = [''chords'', '':id'']"
  by code_simp+

lemma no_star_slashes:
  "\<not> sublist ''*//'' ''GET:/song/:id''" "\<not> sublist ''*//'' ''GET:/sb/*''" "\<not> sublist ''*//'' ''GET:/sb/:id/edit''"
  "\<not> sublist ''*//'' ''/chords/:id''"
  by (simp_all add: sublist_Cons_right)

lemma match_routes:
  "pattern_match ''GET:/song/:id'' path = match_spec ''GET:/song/:id'' path no_match"
  "pattern_match ''GET:/sb/*'' path = match_spec ''GET:/sb/*'' path no_match"
  "pattern_match ''GET:/sb/:id/edit'' path = match_spec ''GET:/sb/:id/edit'' path no_match"
  "pattern_match ''/chords/:id'' path = match_spec ''/chords/:id'' path no_match"
  unfolding pattern_match_def by (rule pattern_match_loop_spec, rule no_star_slashes)+

lemma comps_method:
  assumes "m \<noteq> []" "list_all seg_char m" "rooted uri"
  shows "comps (m @ CHR '':'' # uri) = (m @ '':'') # comps uri"
  using comps_segment [of "m @ '':''" uri] assms by (auto simp: rooted_def seg_char_def)


abbreviation capture_id :: "nat \<Rightarrow> string \<Rightarrow> pattern_match_t" where
  "capture_id n v \<equiv> \<lparr>matched = True, literal_chars = n, param_count = 1, wildcard_count = 0,
     params = [\<lparr>env_key = ''PATTERN_PARAM_ID'', param_value = v\<rparr>]\<rparr>"

lemma param_key_id: "param_key '':id'' = ''PATTERN_PARAM_ID''"
  by code_simp

text \<open>What each pattern makes of a path with its method and of the bare path.\<close>

lemma route_spec_Nil1: "route_spec [] us m = (if us = [] then Some (m\<lparr>matched := True\<rparr>) else None)"
  by (cases us) simp_all

lemma route_spec_Nil2: "route_spec ps [] m = (if ps = [] then Some (m\<lparr>matched := True\<rparr>) else None)"
  by (cases ps) simp_all

lemma route_spec_last:
  "p \<noteq> ''*'' \<Longrightarrow> hd p \<noteq> CHR '':'' \<Longrightarrow>
     route_spec [p] us m = (if us = [p] then Some (m\<lparr>literal_chars := literal_chars m + length p, matched := True\<rparr>) else None)"
  by (cases us) (auto simp: route_spec_Nil1)

lemmas route_spec_cases = route_spec_Nil1 route_spec_Nil2 route_spec_last

lemma method_spec:
  assumes "rooted uri" "meth \<noteq> []" "list_all seg_char meth" "key = meth @ CHR '':'' # uri"
  shows "match_either ''GET:/song/:id'' key uri =
      (if meth = ''GET'' \<and> length (comps uri) = 2 \<and> comps uri ! 0 = ''song'' \<and> length (comps uri ! 1) < PATTERN_BUF
       then Some (capture_id 8 (comps uri ! 1)) else None)" (is ?song)
    and "match_either ''GET:/sb/:id/edit'' key uri =
      (if meth = ''GET'' \<and> length (comps uri) = 3 \<and> comps uri ! 0 = ''sb'' \<and> comps uri ! 2 = ''edit'' \<and> length (comps uri ! 1) < PATTERN_BUF
       then Some (capture_id 10 (comps uri ! 1)) else None)" (is ?edit)
    and "match_either ''GET:/sb/*'' key uri =
      (if meth = ''GET'' \<and> 2 \<le> length (comps uri) \<and> comps uri ! 0 = ''sb''
       then Some \<lparr>matched = True, literal_chars = 6, param_count = 0, wildcard_count = 1, params = []\<rparr> else None)" (is ?all)
    and "match_either ''/chords/:id'' key uri =
      (if length (comps uri) = 2 \<and> comps uri ! 0 = ''chords'' \<and> length (comps uri ! 1) < PATTERN_BUF
       then Some (capture_id 6 (comps uri ! 1)) else None)" (is ?chords)
proof -
  have key: "comps key = (meth @ '':'') # comps uri" "\<not> rooted key"
    using comps_method [OF assms(2,3,1)] assms(2-4) by (auto simp: rooted_def seg_char_def neq_Nil_conv)
  have r: "\<not> rooted ''GET:/song/:id''" "\<not> rooted ''GET:/sb/:id/edit''" "\<not> rooted ''GET:/sb/*''" "rooted ''/chords/:id''"
    by (simp_all add: rooted_def)
  note s = match_either_def match_routes match_spec_def comps_routes key r assms(1) PATTERN_PARAMS_MAX_def
    no_match_def capture_def param_key_id route_spec_cases
  have g: "''GET:'' = meth @ '':'' \<longleftrightarrow> meth = ''GET''" by (auto simp: append_eq_Cons_conv)
  show ?song by (cases "comps uri" rule: remdups_adj.cases) (auto simp: s g)
  show ?edit by (cases "comps uri" rule: remdups_adj.cases) (auto simp: s g length_Suc_conv)
  show ?all by (cases "comps uri" rule: remdups_adj.cases) (auto simp: s g)
  show ?chords by (cases "comps uri" rule: remdups_adj.cases) (auto simp: s g)
qed


abbreviation commit :: "('e \<Rightarrow> string \<Rightarrow> string \<Rightarrow> 'e) \<Rightarrow> 'e \<Rightarrow> (route_handler \<times> string option) option \<Rightarrow> route_handler option \<times> 'e" where
  "commit put env c \<equiv> (case c of None \<Rightarrow> (None, env) | Some (h, None) \<Rightarrow> (Some h, env)
     | Some (h, Some v) \<Rightarrow> (Some h, put env ''PATTERN_PARAM_ID'' v))"

lemma routes_match_pattern:
  assumes "set es = set routes" "rooted uri" "meth \<noteq> []" "list_all seg_char meth" "key = meth @ CHR '':'' # uri"
  shows "axil_match_pattern es put key uri env = commit put env (route_choice (meth = ''GET'') (comps uri))"
proof -
  note s = method_spec [OF assms(2-5)]
  note u = match_pattern_unique [where entries = es and pm = key and du = uri and env_put = put and env = env]
  have all: "(\<forall>(p, h) \<in> set es. P p h) \<longleftrightarrow> P ''GET:/song/:id'' (Some Song) \<and> P ''GET:/sb/*'' (Some Songbook_catchall)
      \<and> P ''GET:/sb/:id/edit'' (Some Songbook_edit) \<and> P ''/chords/:id'' (Some Chords)" for P
    by (simp add: assms(1) routes_def)
  have mem: "(''GET:/song/:id'', Some Song) \<in> set es" "(''GET:/sb/*'', Some Songbook_catchall) \<in> set es"
    "(''GET:/sb/:id/edit'', Some Songbook_edit) \<in> set es" "(''/chords/:id'', Some Chords) \<in> set es"
    by (simp_all add: assms(1) routes_def)
  consider v where "route_choice (meth = ''GET'') (comps uri) = Some (Song, Some v)"
    | v where "route_choice (meth = ''GET'') (comps uri) = Some (Songbook_edit, Some v)"
    | "route_choice (meth = ''GET'') (comps uri) = Some (Songbook_catchall, None)"
    | v where "route_choice (meth = ''GET'') (comps uri) = Some (Chords, Some v)"
    | "route_choice (meth = ''GET'') (comps uri) = None"
    by (fastforce simp: route_choice_def Let_def split: if_splits)
  then show ?thesis
  proof cases
    case (1 v)
    then have "axil_match_pattern es put key uri env = (Some Song, pattern_commit_params put (capture_id 8 v) env)"
      by (intro u [of "''GET:/song/:id''"])
        (auto simp: mem all s route_choice_def Let_def more_specific_def split: if_splits)
    with 1 show ?thesis by (simp add: pattern_commit_params_def)
  next
    case (2 v)
    then have "axil_match_pattern es put key uri env = (Some Songbook_edit, pattern_commit_params put (capture_id 10 v) env)"
      by (intro u [of "''GET:/sb/:id/edit''"])
        (auto simp: mem all s route_choice_def Let_def more_specific_def split: if_splits)
    with 2 show ?thesis by (simp add: pattern_commit_params_def)
  next
    case 3
    then have "axil_match_pattern es put key uri env = (Some Songbook_catchall, pattern_commit_params put
        \<lparr>matched = True, literal_chars = 6, param_count = 0, wildcard_count = 1, params = []\<rparr> env)"
      by (intro u [of "''GET:/sb/*''"])
        (auto simp: mem all s route_choice_def Let_def more_specific_def split: if_splits)
    with 3 show ?thesis by (simp add: pattern_commit_params_def)
  next
    case (4 v)
    then have "axil_match_pattern es put key uri env = (Some Chords, pattern_commit_params put (capture_id 6 v) env)"
      by (intro u [of "''/chords/:id''"])
        (auto simp: mem all s route_choice_def Let_def more_specific_def split: if_splits)
    with 4 show ?thesis by (simp add: pattern_commit_params_def)
  next
    case 5
    then have "axil_match_pattern es put key uri env = (None, env)"
      by (intro match_pattern_none) (auto simp: all s route_choice_def Let_def split: if_splits)
    with 5 show ?thesis by simp
  qed
qed


lemma routes_keys:
  assumes "set es = set routes" "CHR '':'' \<notin> set uri" "CHR ''*'' \<notin> set uri" "list_all seg_char meth" "CHR '':'' \<notin> set meth" "meth \<noteq> []"
  shows "map_of es uri = None" "map_of es (meth @ CHR '':'' # uri) = None"
proof -
  have "fst ` set es = {''GET:/song/:id'', ''GET:/sb/*'', ''GET:/sb/:id/edit'', ''/chords/:id''}"
    by (simp add: assms(1) routes_def)
  moreover have "uri \<notin> {''GET:/song/:id'', ''GET:/sb/*'', ''GET:/sb/:id/edit'', ''/chords/:id''}"
    using assms(2) by auto
  moreover have "meth @ CHR '':'' # uri \<notin> {''GET:/song/:id'', ''GET:/sb/*'', ''GET:/sb/:id/edit'', ''/chords/:id''}"
    using assms(2-6) by (auto simp: append_eq_Cons_conv seg_char_def)
  ultimately show "map_of es uri = None" "map_of es (meth @ CHR '':'' # uri) = None" by (auto simp: map_of_eq_None_iff)
qed

lemma methods_plain:
  assumes "map_of http_methods meth = Some fl"
  shows "list_all seg_char meth" "CHR '':'' \<notin> set meth" "meth \<noteq> []" "length meth \<le> 6" "req_method fl = meth"
    "has fl AXIL_HEAD \<longleftrightarrow> meth = ''HEAD''"
proof -
  have m: "(meth, fl) \<in> set http_methods" using assms by (rule map_of_SomeD)
  then show "list_all seg_char meth" "CHR '':'' \<notin> set meth" "meth \<noteq> []" "length meth \<le> 6"
    by (auto simp: http_methods_def seg_char_def)
  show "req_method fl = meth" "has fl AXIL_HEAD \<longleftrightarrow> meth = ''HEAD''"
    using m by (auto simp: http_methods_def req_method_def has_def AXIL_POST_def AXIL_PUT_def AXIL_DELETE_def AXIL_HEAD_def)
qed

text \<open>Which handler the library calls: for HEAD the one of GET, unless one is there for every method.\<close>

lemma find_routes:
  assumes "set (w_handlers w) = set routes" "rooted uri" "CHR '':'' \<notin> set uri" "CHR ''*'' \<notin> set uri" "length uri < BUFSIZ"
    "map_of http_methods meth = Some fl"
  shows "find_handler w (req_method fl) uri (has fl AXIL_HEAD) env
    = commit (\<lambda>e key v. snd (axil_env_put (w_q w) e key (Some v))) env (route_choice (meth \<in> {''GET'', ''HEAD''}) (comps uri))"
proof -
  note m = methods_plain [OF assms(6)]
  have g: "list_all seg_char ''GET''" "CHR '':'' \<notin> set ''GET''" "''GET'' \<noteq> []" by (simp_all add: seg_char_def)
  have key: "method_key x uri = x @ CHR '':'' # uri" if "length x \<le> 6" for x
    using that assms(5) by (simp add: method_key_def snprintf_trunc_def BUFSIZ_def)
  have keys: "method_key meth uri = meth @ CHR '':'' # uri" "method_key ''GET'' uri = ''GET'' @ CHR '':'' # uri"
    using key m(4) by simp_all
  note none = routes_keys [OF assms(1,3,4) m(1-3)] routes_keys [OF assms(1,3,4) g]
  note best = routes_match_pattern [OF assms(1,2) m(3,1) keys(1)] routes_match_pattern [OF assms(1,2) g(3,1) keys(2)]
  let ?put = "\<lambda>e key v. snd (axil_env_put (w_q w) e key (Some v))"
  have e: "find_handler w (req_method fl) uri (has fl AXIL_HEAD) env =
      (case commit ?put env (route_choice (meth = ''GET'') (comps uri)) of
         (Some h, env1) \<Rightarrow> (Some h, env1)
       | (None, env1) \<Rightarrow> if meth = ''HEAD'' then commit ?put env1 (route_choice True (comps uri)) else (None, env1))"
    using none(1) none(2) [folded keys(1)] none(4) [folded keys(2)]
    unfolding find_handler_def m(5,6) Let_def best by (simp cong: option.case_cong if_cong)
  have mono: "route_choice False cs = Some c \<Longrightarrow> route_choice True cs = Some c" for cs c
    by (auto simp: route_choice_def Let_def split: if_splits)
  show ?thesis
    unfolding e by (cases "meth = ''HEAD''"; cases "route_choice (meth = ''GET'') (comps uri)")
      (auto dest: mono split: option.split)
qed


section \<open>Answers\<close>

text \<open>The headers \<open>route_respond\<close> sets for a body of \<open>n\<close> bytes.\<close>

definition route_headers :: "nat \<Rightarrow> string" where
  "route_headers n =
     axil_header_set (axil_header_set (axil_header_set [] ''Content-Type'' ''text/plain'') ''Content-Length'' (snprintf_trunc 32 (show_nat n)))
       ''Connection'' ''close''"

lemma status_200: "show_int 200 = ''200''" "axil_status_text 200 = ''OK''"
  by (simp add: show_int_def show_nat.simps) code_simp

lemma route_headers_fit: "length (respond_head 200 (axil_default_response_headers (route_headers n))) < 4096"
proof -
  have "length (route_headers n) \<le> 200"
    using length_header_set [of "axil_header_set (axil_header_set [] ''Content-Type'' ''text/plain'') ''Content-Length'' (snprintf_trunc 32 (show_nat n))"
        "''Connection''" "''close''"]
      length_header_set [of "axil_header_set [] ''Content-Type'' ''text/plain''" "''Content-Length''" "snprintf_trunc 32 (show_nat n)"]
      length_header_set [of "[]" "''Content-Type''" "''text/plain''"] length_snprintf_trunc [of 32 "show_nat n"]
    by (simp add: route_headers_def)
  with length_default_headers [of "route_headers n"] show ?thesis by (simp add: length_respond_head status_200)
qed

lemma route_respond_sends:
  assumes "server_ok s" "idle k i s" "d_headers (descr_map s i) = []" "length body \<le> 61440"
  shows "\<exists>s'. route_respond k i body s = Done (0, s') \<and> int i \<notin> live s'
    \<and> sent_on i (events s') = sent_on i (events s) @ respond_head 200 (axil_default_response_headers (route_headers (length body)))
        @ (if has (d_flags (descr_map s i)) DF_HEAD then [] else body)"
proof -
  define s1 where "s1 = header_set i ''Connection'' ''close'' (header_set i ''Content-Length'' (snprintf_trunc 32 (show_nat (length body)))
    (header_set i ''Content-Type'' ''text/plain'' s))"
  have h: "d_headers (descr_map s1 i) = route_headers (length body)" "events s1 = events s"
    "d_flags (descr_map s1 i) = d_flags (descr_map s i)"
    by (simp_all add: s1_def header_set_def route_headers_def assms(3))
  have "server_ok s1" unfolding s1_def by (intro header_set_ok assms(1))
  moreover have "idle k i s1" using assms(2) by (simp add: s1_def header_set_def idle_def)
  ultimately obtain s' where "axil_respond k i 200 (Some body) s1 = Done s'" "int i \<notin> live s'"
    "sent_on i (events s') = sent_on i (events s1) @ response_text s1 i 200 (Some body)"
    using respond_completes [of s1 k i 200 "Some body"] route_headers_fit [of "length body"] assms(4) h by auto
  then show ?thesis by (intro exI [of _ s']) (simp add: route_respond_def s1_def [symmetric] response_text_def h)
qed

lemma pattern_id_get:
  "qmap_ok q \<Longrightarrow> length v < PATTERN_BUF \<Longrightarrow> pattern_id q (snd (axil_env_put q env ''PATTERN_PARAM_ID'' (Some v))) = v"
  by (simp add: pattern_id_def axil_env_get_def axil_env_put_def snprintf_trunc_def PATTERN_BUF_def c_consts)

lemma routes_call_sends:
  assumes "server_ok s" "idle k i s" "d_headers (descr_map s i) = []"
    "h = Songbook_catchall \<or> pattern_id q env = v" "length v < PATTERN_BUF"
  shows "\<exists>s'. routes_call q k h i body env s = (False, s') \<and> int i \<notin> live s'
    \<and> sent_on i (events s') = sent_on i (events s)
        @ respond_head 200 (axil_default_response_headers (route_headers (length (route_answer h v))))
        @ (if has (d_flags (descr_map s i)) DF_HEAD then [] else route_answer h v)"
proof -
  have len: "length (route_answer h v) \<le> 61440" using assms(5) by (cases h) (simp_all add: PATTERN_BUF_def)
  have "snprintf_trunc (ENV_VALUE_LEN + 16) (''edit:'' @ v) = ''edit:'' @ v" "snprintf_trunc (ENV_VALUE_LEN + 16) (''chords:'' @ v) = ''chords:'' @ v"
    using assms(5) by (simp_all add: snprintf_trunc_def PATTERN_BUF_def c_consts)
  then have c: "routes_call q k h i body env s = (case route_respond k i (route_answer h v) s of Done (r, s1) \<Rightarrow> (r \<noteq> 0, s1) | _ \<Rightarrow> (False, s))"
    using assms(4) by (cases h) (auto simp: routes_call_def route_song_def route_songbook_edit_def route_songbook_catchall_def route_chords_def)
  show ?thesis using route_respond_sends [OF assms(1-3) len] by (auto simp: c)
qed

section \<open>Properties\<close>

text \<open>The site of the routes program: its handlers, in the order the table happens to have, its files and
  upstreams none.\<close>

definition routes_site :: "kernel \<Rightarrow> ('m, route_handler) site \<Rightarrow> bool" where
  "routes_site k w \<longleftrightarrow> qmap_ok (w_q w) \<and> set (w_handlers w) = set routes \<and> w_call w = routes_call (w_q w) k
     \<and> w_check w = None \<and> w_statics w = None \<and> w_ws w = (\<lambda>key. None) \<and> \<not> w_ssl_only w"

lemma request_target_bounds: "request_target t = Target uri param \<Longrightarrow> length uri < BUFSIZ"
proof -
  assume "request_target t = Target uri param"
  then have "length uri \<le> length (axil_url_decode t BUFSIZ)"
    by (auto simp: request_target_def Let_def split: if_splits option.splits)
  also have "\<dots> < BUFSIZ" by (simp add: axil_url_decode_eq min_less_iff_disj) (simp add: BUFSIZ_def)
  finally show ?thesis .
qed

lemma route_choice_bound: "route_choice g cs = Some (h, v) \<Longrightarrow> (case v of Some x \<Rightarrow> length x < PATTERN_BUF | None \<Rightarrow> h = Songbook_catchall)"
  by (auto simp: route_choice_def Let_def split: if_splits)

text \<open>What a request for a path gets.\<close>

lemma routes_request_answers:
  assumes "server_ok s" "idle k i s" "routes_site k w" "map_of http_methods meth = Some fl" "meth \<in> {''GET'', ''HEAD''}"
    "2 \<le> length argv" "request_target (argv ! 1) = Target uri param" "rooted uri" "CHR '':'' \<notin> set uri" "CHR ''*'' \<notin> set uri"
    "headers_get (w_q w) env (cstr_at (input s) rest) = Some (env1, bs)"
    "env_prep (w_q w) (w_euid_nonzero w) (w_chroot w) (map_option pw_dir (d_pw (descr_map s i))) env1 uri param meth = Some env2"
    "d_headers (descr_map s i) = []" "route_choice True (comps uri) = Some (h, v)"
    "answer = route_answer h (case v of Some x \<Rightarrow> x | None \<Rightarrow> [])"
  shows "\<exists>env' s'. request_handle w k i argv rest len fl env s = Done (env', s') \<and> int i \<notin> live s'
    \<and> sent_on i (events s') = sent_on i (events s) @ respond_head 200 (axil_default_response_headers (route_headers (length answer)))
        @ (if meth = ''HEAD'' \<or> has (d_flags (descr_map s i)) DF_HEAD then [] else answer)"
proof -
  note w = assms(3) [unfolded routes_site_def]
  note m = methods_plain [OF assms(4)] and st = to_handlers_state [OF assms(1,2), of fl]
  let ?s1 = "to_handlers i fl s" and ?put = "\<lambda>e key v. snd (axil_env_put (w_q w) e key (Some v))"
  have nopost: "\<not> has fl (AXIL_POST OR AXIL_PUT OR AXIL_DELETE)"
    using assms(4,5) by (auto simp: http_methods_def has_def AXIL_POST_def AXIL_PUT_def AXIL_DELETE_def AXIL_HEAD_def)
  obtain env3 where f: "find_handler w (req_method fl) uri (has fl AXIL_HEAD) env2 = (Some h, env3)"
    "h = Songbook_catchall \<or> pattern_id (w_q w) env3 = (case v of Some x \<Rightarrow> x | None \<Rightarrow> [])"
    using find_routes [OF _ assms(8-10) request_target_bounds [OF assms(7)] assms(4), of w env2] w assms(5,14)
      route_choice_bound [OF assms(14)] pattern_id_get [of "w_q w"]
    by (cases v) auto
  obtain s' where c: "routes_call (w_q w) k h i (cstr_at (input s) (rest + bs + 1)) env3 ?s1 = (False, s')" "int i \<notin> live s'"
    "sent_on i (events s') = sent_on i (events ?s1) @ respond_head 200 (axil_default_response_headers (route_headers (length answer)))
        @ (if has (d_flags (descr_map ?s1 i)) DF_HEAD then [] else answer)"
    using routes_call_sends [OF st(1,2) _ f(2), of "cstr_at (input s) (rest + bs + 1)"] route_choice_bound [OF assms(14)] st(4) assms(13,15)
    by (cases v) (auto simp: PATTERN_BUF_def)
  have "request_handle w k i argv rest len fl env s = Done (env3, s')"
    using request_reaches_dispatch [OF assms(6,7,11) nopost _ _ _ _ assms(12) [folded m(5)]] w f(1) c(1) by (simp add: m(5) request_dispatch_def)
  with c st m(5) show ?thesis by auto
qed


text \<open>C5. A whole program, from the bytes it reads to the bytes it sends: a GET that arrives in one read is answered
  with what the table of patterns says for the components of its path, whatever order the hash table keeps the
  patterns in, and a HEAD with the same head and no body; then the connection is closed.\<close>

theorem routes_program_answers:
  assumes "server_ok s" "idle k i s" "readable i s" "d_headers (descr_map s i) = []" "routes_site k w"
    "map_of http_methods meth = Some fl" "meth \<in> {''GET'', ''HEAD''}" "list_all word_char target" "list_all word_char version"
    "txt = join (CHR '' '') [meth, target, version] @ CR # LF # hdrs" "length txt < BUFSIZ" "length txt < length (input s)"
    "k_recv k i = Got txt # more_reads" "0 \<le> h_parse k i txt" "h_cmds k = app_commands" "\<not> h_command k" "\<not> h_flush k"
    "request_target target = Target uri param" "rooted uri" "CHR '':'' \<notin> set uri" "CHR ''*'' \<notin> set uri"
    "headers_get (w_q w) env (cstr hdrs) = Some (env1, bs)"
    "env_prep (w_q w) (w_euid_nonzero w) (w_chroot w) (map_option pw_dir (d_pw (descr_map s i))) env1 uri param meth = Some env2"
    "route_choice True (comps uri) = Some (h, v)" "answer = route_answer h (case v of Some x \<Rightarrow> x | None \<Rightarrow> [])"
  shows "\<exists>s'. proc_read_fd k (http_callback w k (length txt) env query_db) i s = Done s' \<and> int i \<notin> live s'
    \<and> sent_on i (events s') = sent_on i (events s) @ respond_head 200 (axil_default_response_headers (route_headers (length answer)))
        @ (if meth = ''HEAD'' \<or> has (d_flags (descr_map s i)) DF_HEAD then [] else answer)"
proof -
  define buf where "buf = join NUL [meth, target, version] @ CR # LF # hdrs @ NUL # drop (Suc (length txt)) (input s)"
  let ?s = "s\<lparr>input := buf\<rparr>" and ?rest = "length txt - length hdrs" and ?words = "[meth, target, version @ CR # LF # cstr hdrs]"
  have s: "server_ok ?s" "idle k i ?s" using assms(1,2) by (simp_all add: idle_def)
  have "?rest = length (join NUL [meth, target, version] @ [CR, LF])" by (simp add: assms(10))
  then have "drop ?rest buf = hdrs @ NUL # drop (Suc (length txt)) (input s)"
    by (simp only: buf_def) (simp del: join.simps)
  moreover have "cstr (hdrs @ NUL # stale) = cstr hdrs" for stale by (induction hdrs) (simp_all add: cstr_def)
  ultimately have "cstr_at (input ?s) ?rest = cstr hdrs" by (simp add: cstr_at_def)
  with assms(22) have h: "headers_get (w_q w) env (cstr_at (input ?s) ?rest) = Some (env1, bs)" by simp
  have t: "request_target (?words ! 1) = Target uri param" "2 \<le> length ?words" using assms(18) by simp_all
  obtain env' s' where r: "request_handle w k i ?words ?rest (length txt) fl env ?s = Done (env', s')" "int i \<notin> live s'"
    "sent_on i (events s') = sent_on i (events ?s) @ respond_head 200 (axil_default_response_headers (route_headers (length answer)))
        @ (if meth = ''HEAD'' \<or> has (d_flags (descr_map ?s i)) DF_HEAD then [] else answer)"
    using routes_request_answers [OF s assms(5,6,7) t(2,1) assms(19-21) h _ _ assms(24,25), of env2 "length txt"] assms(4,23) by auto
  have c: "h_cmds k = http_commands" using assms(15) by (simp add: app_commands_same)
  have "proc_read_fd k (http_callback w k (length txt) env query_db) i s = Done s'"
    by (rule read_handles_request [OF assms(3,6,8-14) c assms(16,17) buf_def r(1)])
  with r show ?thesis by auto
qed

text \<open>The program with its table read in another order than the one it was written in.\<close>

definition edit_request :: string where
  "edit_request = ''GET /sb/7/edit HTTP/1.1'' @ CR # LF # CRLF"

definition edit_kernel :: kernel where
  "edit_kernel = wide_kernel\<lparr>k_recv := (\<lambda>i. [Got edit_request]), h_cmds := app_commands\<rparr>"

definition routes_demo :: "((string \<times> string) list, route_handler) site" where
  "routes_demo = \<lparr>w_q = alist_map, w_euid_nonzero = True, w_chroot = Some ''/srv'',
     w_fs = \<lparr>realpath = (\<lambda>p. None), fstat = (\<lambda>p. None)\<rparr>, w_fnmatch = (\<lambda>p s. False), w_statics = None,
     w_autoindex = None, w_cache = None, w_mime = (\<lambda>e. None), w_http_date = (\<lambda>t. []), w_now = 0,
     w_content = (\<lambda>p. None), w_readdir = (\<lambda>p. None), w_ssl = False, w_ssl_only = False, w_max_body = 0,
     w_check = None, w_getpwnam = (\<lambda>u. None), w_ws = (\<lambda>key. None), w_handlers = rev routes,
     w_call = routes_call alist_map edit_kernel, w_default = None, w_fallbacks = []\<rparr>"

lemma edit_target: "request_target ''/sb/7/edit'' = Target ''/sb/7/edit'' []"
proof -
  have "request_path_is_safe ''/sb/7/edit''"
    by (simp add: request_path_is_safe_def target_path_def BUFSIZ_def path_fixpoint.simps
        path_hex_def cclass path_bad_byte_def)
  moreover have "axil_url_decode ''/sb/7/edit'' BUFSIZ = ''/sb/7/edit''"
    by (simp add: axil_url_decode_eq BUFSIZ_def hex_digit_value_def)
  ultimately show ?thesis by (simp add: request_target_def BUFSIZ_def)
qed

theorem routes_program_answers_witness:
  "\<exists>s'. proc_read_fd edit_kernel (http_callback routes_demo edit_kernel (length edit_request) [] []) 5 get_client = Done s' \<and> int 5 \<notin> live s'
     \<and> sent_on 5 (events s') = sent_on 5 (events get_client)
         @ respond_head 200 (axil_default_response_headers (route_headers 6)) @ ''edit:7''"
proof -
  have s: "server_ok get_client" "idle edit_kernel 5 get_client"
    using demo_client_ok demo_client_idle by (simp_all add: get_client_def idle_def live_def edit_kernel_def)
  have r: "readable 5 get_client"
    by (simp add: readable_def get_client_state demo_client_state demo_listens zero_descr_def) (simp add: has_def df_defs)
  have w: "routes_site edit_kernel routes_demo" by (auto simp: routes_site_def routes_demo_def alist_map_ok)
  have g: "map_of http_methods ''GET'' = Some 0" by (simp add: http_methods_def)
  have wc: "list_all word_char ''/sb/7/edit''" "list_all word_char ''HTTP/1.1''" by (simp_all add: word_char_def cclass)
  have t: "edit_request = join (CHR '' '') [''GET'', ''/sb/7/edit'', ''HTTP/1.1''] @ CR # LF # CRLF" "length edit_request = 27"
    by (simp_all add: edit_request_def)
  have l: "length edit_request < BUFSIZ" "length edit_request < length (input get_client)"
    unfolding get_client_state demo_listens by (simp_all add: t(2) BUFSIZ_def FIRST_INPUT_SIZE_def)
  have k: "k_recv edit_kernel 5 = Got edit_request # []" "0 \<le> h_parse edit_kernel 5 edit_request" "h_cmds edit_kernel = app_commands"
    "\<not> h_command edit_kernel" "\<not> h_flush edit_kernel"
    by (simp_all add: edit_kernel_def wide_kernel_def demo_kernel_def)
  have h: "headers_get (w_q routes_demo) [] (cstr CRLF) = Some ([], 1)"
    using demo_headers by (simp add: routes_demo_def cstr_at_def cstr_def)
  obtain e where e: "env_prep (w_q routes_demo) (w_euid_nonzero routes_demo) (w_chroot routes_demo)
      (map_option pw_dir (d_pw (descr_map get_client 5))) [] ''/sb/7/edit'' [] ''GET'' = Some e"
    by (auto simp: routes_demo_def env_prep_def axil_env_get_def alist_map_def env_sane_def BUFSIZ_def env_sane_char_def Let_def cclass)
  have c: "route_choice True (comps ''/sb/7/edit'') = Some (Songbook_edit, Some ''7'')"
    by code_simp
  have a: "length ''edit:7'' = 6" by simp
  have d: "d_headers (descr_map get_client 5) = []" "\<not> has (d_flags (descr_map get_client 5)) DF_HEAD"
    by (simp_all add: get_client_state demo_client_plain)
  show ?thesis
    using routes_program_answers [OF s r d(1) w g _ wc t(1) l k edit_target _ _ _ h e c, of "''edit:7''" "[]", unfolded a] d(2)
    by (simp add: rooted_def)
qed

text \<open>The handlers keep to the interface: their site satisfies what the invariants of the whole server ask of one.\<close>

lemma routes_call_cases:
  "\<exists>text. routes_call q k h i body env s = (case route_respond k i text s of Done (r, s1) \<Rightarrow> (r \<noteq> 0, s1) | _ \<Rightarrow> (False, s))"
  by (cases h) (simp_all add: routes_call_def route_song_def route_songbook_edit_def route_songbook_catchall_def route_chords_def, blast+)

lemma route_respond_keeps:
  assumes "route_respond k i text s = Done (r, s')"
  shows "server_ok s \<Longrightarrow> server_ok s'" and "table_fits s \<Longrightarrow> table_fits s'"
proof -
  obtain s1 where "axil_respond k i 200 (Some text) (header_set i ''Connection'' ''close''
      (header_set i ''Content-Length'' (snprintf_trunc 32 (show_nat (length text))) (header_set i ''Content-Type'' ''text/plain'' s))) = Done s1"
    "s' = s1"
    using assms by (auto simp: route_respond_def bind_run_Done)
  note r = this
  show "server_ok s \<Longrightarrow> server_ok s'" unfolding r(2) by (rule axil_respond_ok [OF _ r(1)]) (intro header_set_ok)
  show "table_fits s \<Longrightarrow> table_fits s'" unfolding r(2) by (rule respond_fits [OF _ r(1)]) (intro header_set_fits)
qed

theorem routes_keep_contract:
  assumes "routes_site k w"
  shows "site_ok w i s \<and> site_fits w"
proof -
  have "(server_ok t \<longrightarrow> server_ok (snd (routes_call (w_q w) k h j b e t))) \<and> (table_fits t \<longrightarrow> table_fits (snd (routes_call (w_q w) k h j b e t)))"
    for h j b e t
    using routes_call_cases [of "w_q w" k h j b e t] route_respond_keeps
    by (auto split: run.split)
  then show ?thesis using assms by (auto simp: site_ok_def site_fits_def routes_site_def)
qed

theorem routes_keep_contract_witness: "site_ok routes_demo 5 get_client \<and> site_fits routes_demo"
  by (rule routes_keep_contract [of edit_kernel]) (auto simp: routes_site_def routes_demo_def alist_map_ok)

text \<open>A request whose path is the pattern itself is taken for it before any pattern is matched, so its handler
  is called without a capture and sees whatever the environment has under that name.\<close>

theorem pattern_as_path_uncaptured:
  assumes "set (w_handlers w) = set routes"
  shows "find_handler w ''GET'' ''/song/:id'' False env = (Some Song, env)"
    and "find_handler w ''GET'' ''/song/7'' False env
      = (Some Song, snd (axil_env_put (w_q w) env ''PATTERN_PARAM_ID'' (Some ''7'')))"
proof -
  have k: "method_key ''GET'' ''/song/:id'' = ''GET:/song/:id''" by (simp add: method_key_def snprintf_trunc_def)
  have "(''GET:/song/:id'', Some Song) \<in> set (w_handlers w)" by (simp add: assms routes_def)
  then obtain h where h: "map_of (w_handlers w) ''GET:/song/:id'' = Some h" using weak_map_of_SomeI by fastforce
  then have "(''GET:/song/:id'', h) \<in> set routes" using assms map_of_SomeD by metis
  then have "h = Some Song" by (simp add: routes_def)
  with h show "find_handler w ''GET'' ''/song/:id'' False env = (Some Song, env)" by (simp add: find_handler_def k)
  have c: "route_choice True (comps ''/song/7'') = Some (Song, Some ''7'')" by code_simp
  have "map_of http_methods ''GET'' = Some 0" by (simp add: http_methods_def)
  from find_routes [OF assms _ _ _ _ this, of "''/song/7''" env] c
  show "find_handler w ''GET'' ''/song/7'' False env = (Some Song, snd (axil_env_put (w_q w) env ''PATTERN_PARAM_ID'' (Some ''7'')))"
    by (simp add: rooted_def BUFSIZ_def req_method_def)
qed

theorem pattern_as_path_uncaptured_witness:
  "find_handler routes_demo ''GET'' ''/song/:id'' False [] = (Some Song, [])"
  by (rule pattern_as_path_uncaptured(1)) (auto simp: routes_demo_def)

section \<open>The authentication program\<close>

definition auth_text :: "bool \<Rightarrow> string" where
  "auth_text authenticated = (if authenticated then ''auth ok'' @ [LF] else ''auth none'' @ [LF])"

definition auth_handler :: "kernel \<Rightarrow> nat \<Rightarrow> server \<Rightarrow> (int \<times> server) run" where
  "auth_handler k i s =
     (let resp = auth_text (has (d_flags (descr_map s i)) DF_AUTHENTICATED) in
      bind_run (axil_writef k i (''HTTP/1.1 200 OK'' @ CRLF @ ''Content-Type: text/plain'' @ CRLF
          @ ''Content-Length: '' @ show_nat (length resp) @ CRLF @ ''Connection: close'' @ CRLF @ CRLF @ resp) s)
        (\<lambda>s1. Done (0, s1)))"

text \<open>What the program answers: whether the sender is logged in, with the right length.\<close>

theorem auth_handler_reports:
  assumes "idle k i s"
  shows "\<exists>s'. auth_handler k i s = Done (0, s') \<and> sent_on i (events s') = sent_on i (events s)
    @ ''HTTP/1.1 200 OK'' @ CRLF @ ''Content-Type: text/plain'' @ CRLF
    @ (if has (d_flags (descr_map s i)) DF_AUTHENTICATED
       then ''Content-Length: 8'' @ CRLF @ ''Connection: close'' @ CRLF @ CRLF @ ''auth ok'' @ [LF]
       else ''Content-Length: 10'' @ CRLF @ ''Connection: close'' @ CRLF @ CRLF @ ''auth none'' @ [LF])"
proof -
  have n: "show_nat 8 = ''8''" "show_nat 10 = ''10''" by (simp_all add: show_nat.simps)
  have w: "axil_writef k i t s = Done (emit (sent_events i t) s)" if "length t < BUFSIZ" for t
    using idle_write [OF assms, of t] that by (simp add: axil_writef_def snprintf_trunc_def BUFSIZ_def)
  have l: "length (''auth ok'' @ [LF]) = 8" "length (''auth none'' @ [LF]) = 10" by simp_all
  show ?thesis
    by (cases "has (d_flags (descr_map s i)) DF_AUTHENTICATED")
      (simp_all add: auth_handler_def auth_text_def Let_def l n del: length_append list.size append.simps, simp_all add: w BUFSIZ_def emit_def)
qed

text \<open>\<open>axil_auth_check\<close> of this program: what follows the first equals sign of the cookies names a file, and its
  first word is the user. \<open>fscanf("%s")\<close> stores nothing when the file has no word, and any number of bytes
  when it has one.  \<open>fopen\<close> gives what the file holds.\<close>

definition auth_check_file :: "'m string_map \<Rightarrow> (string \<Rightarrow> string option) \<Rightarrow> 'm \<Rightarrow> string option run" where
  "auth_check_file q fopen env =
     (case axil_env_get q env ENV_VALUE_LEN ''HTTP_COOKIE'' of
        (_, None) \<Rightarrow> Done None
      | (_, Some cookie) \<Rightarrow>
          (case strchr cookie (CHR ''='') of
             None \<Rightarrow> Done None
           | Some eq \<Rightarrow>
               let path = snprintf_trunc BUFSIZ (''./sessions/'' @ drop (Suc eq) cookie) in
               (case fopen path of
                  None \<Rightarrow> Done None
                | Some content \<Rightarrow>
                    let word = takeWhile (\<lambda>c. \<not> isspace c) (dropWhile isspace content) in
                    if word = [] then Done (Some path)
                    else if BUFSIZ \<le> length word then Overruns
                    else Done (Some (cstr (word @ [NUL]))))))"

text \<open>A cookie whose value climbs out of the directory of sessions logs its sender in as the first word of the
  file it names; with an empty session file the user is the path of the file.\<close>

theorem session_file_any_path:
  assumes "qmap_ok q" "CHR ''='' \<notin> set name" "length name + length token < 8000" "fopen (''./sessions/'' @ token) = Some content"
    "word = takeWhile (\<lambda>c. \<not> isspace c) (dropWhile isspace content)" "length word < BUFSIZ" "NUL \<notin> set word"
  shows "auth_check_file q fopen (q_put q env ''HTTP_COOKIE'' (name @ CHR ''='' # token))
    = Done (Some (if word = [] then ''./sessions/'' @ token else word))"
proof -
  let ?cookie = "name @ CHR ''='' # token"
  have "axil_env_get q (q_put q env ''HTTP_COOKIE'' ?cookie) ENV_VALUE_LEN ''HTTP_COOKIE'' = (0, Some ?cookie)"
    using assms(1,3) by (simp add: axil_env_get_def snprintf_trunc_def c_consts)
  moreover have "strchr ?cookie (CHR ''='') = Some (length name)" using assms(2) by (simp add: strchr_append)
  moreover have "snprintf_trunc BUFSIZ (''./sessions/'' @ token) = ''./sessions/'' @ token"
    using assms(3) by (simp add: snprintf_trunc_def c_consts)
  moreover have "cstr (word @ [NUL]) = word" using assms(7) by (simp add: cstr_append) (simp add: cstr_def)
  ultimately show ?thesis using assms(4,5,6) by (simp add: auth_check_file_def Let_def)
qed

theorem session_file_any_path_witness:
  "auth_check_file alist_map (\<lambda>p. if p = ''./sessions/../users'' then Some ''root 0'' else None)
     [(''HTTP_COOKIE'', ''s=../users'')] = Done (Some ''root'')"
  using session_file_any_path [OF alist_map_ok, where env = "[]" and name = "''s''" and token = "''../users''" and word = "''root''"
      and content = "''root 0''" and fopen = "\<lambda>p. if p = ''./sessions/../users'' then Some ''root 0'' else None"]
  by (simp add: alist_map_def cclass BUFSIZ_def)

end
