(* ===== verification/Spec2Isabelle.thy ===== *)
theory Spec2Isabelle
  imports Axil_Encode Axil_Path Axil_Route Axil_Status Axil_Ws Axil_Headers Axil_Queue Axil_Static Axil_Cmd Axil_Descr
    Axil_Server Axil_Respond Axil_Request Axil_Exec Axil_Certs Axil_Main Axil_Service Axil_System Axil_Typed Axil_Date Axil_Serve Axil_Win Axil_Apps
begin

text \<open>
  A verification development for libaxil, the HTTP(S), WebSocket and network daemon library of this
  repository, and for the program \<open>axil\<close> built on it.

  \<^bold>\<open>The program.\<close>  One process serves all connections from one thread.  \<open>axil_main\<close> (\<open>src/libaxil.c\<close>)
  waits with \<open>select\<close>, flushes the queues of unsent bytes, reads from what is ready and hands the
  bytes to a command.  The state is a table of descriptors (\<open>descr_map\<close>, \<open>struct descr\<close> in
  \<open>src/axil-internal.h\<close>) with, beside it, the table of read and write functions (\<open>io\<close>), the pairs of a
  WebSocket proxy (\<open>tunnel_pair\<close>), the sets \<open>select\<close> works on (\<open>fds_active\<close>, \<open>fds_read\<close>, \<open>fds_write\<close>,
  \<open>fds_wactive\<close>) and one input block for all.  The HTTP methods are commands; \<open>request_handle\<close> checks the
  target, parses the headers, buffers a body, authenticates, and then tries a redirect for a missing
  slash, a proxied WebSocket, a static file, a listing, the redirect to TLS, the registered handler, the
  default handler, the fallbacks and 404.  Responses go to the queue of the descriptor.  Programs
  run for a request are relayed by passes of \<open>axil_exec_loop\<close>.  The platform part is
  \<open>src/axil-posix.c\<close>.

  \<^bold>\<open>The model.\<close>  Each C function is one definition of the same name, on records and lists; machine words
  are words (\<open>flagw\<close>, frame headers) and C strings are lists of characters without the NUL.  A
  function that can write or read outside its buffer, call a null pointer or never return has these
  outcomes as values (\<open>run\<close> with \<open>Done\<close>, \<open>Overruns\<close>, \<open>NullCall\<close>, \<open>Hangs\<close>, or an option), so a theorem
  that concludes \<open>Done\<close> says that none of them happens.  What the kernel, the memory allocator, OpenSSL
  and the hooks of an application answer is an argument (the record \<open>kernel\<close>, scripts of read answers, the
  record \<open>site\<close>); what they see is a list of events (\<open>sevent\<close>), from which \<open>live\<close> reads the descriptors
  the kernel has open.  The tables of the qmap library are parameters with the laws \<open>qmap_ok\<close> and
  \<open>cert_map_ok\<close>; \<open>realpath\<close>, \<open>stat\<close>, \<open>fnmatch\<close>, \<open>iconv\<close> and SHA-1 are function arguments.

  \<^bold>\<open>The theories\<close>, in the order of the layers:

  \<^item> \<open>Axil_Prelude\<close>: constants and \<open>ctype\<close> and string functions of C, descriptor flags, and the two locales the
    components share: \<open>bounded_copy\<close> (a copy cut to its buffer, interpreted on \<open>snprintf_trunc\<close>) and
    \<open>transition_system\<close> (initial states, steps and an invariant they keep).
  \<^item> \<open>Axil_Encode\<close> (\<open>src/axil-encode.c\<close>): percent-encoding, JSON escapes, slugs; round trips and bounds.
  \<^item> \<open>Axil_Path\<close>: \<open>request_path_is_safe\<close> and the decoding of the target; no accepted target climbs above the
    root, but for an encoded question mark.
  \<^item> \<open>Axil_Route\<close>: \<open>pattern_match\<close> refines a component-wise specification; the best route wins.
  \<^item> \<open>Axil_Status\<close> (\<open>src/axil-status.c\<close>), \<open>Axil_Ws\<close> (\<open>src/ws.c\<close>): handshake and frames against an RFC 6455
    reader, with the cases in which they fail.
  \<^item> \<open>Axil_Headers\<close>: response header buffer, request header parser, environment, query string.
  \<^item> \<open>Axil_Queue\<close>: the queue of unsent bytes as a first-in first-out refinement, its growth and when the
    growth never ends, the read loop.
  \<^item> \<open>Axil_Static\<close>, \<open>Axil_Date\<close>: mapping files, confinement to the mapped directories, entity tags, dates,
    conditional requests; a date written is read back to its time, and a revalidation is answered 304.
  \<^item> \<open>Axil_Cmd\<close>: splitting a request line, the authentication gate.
  \<^item> \<open>Axil_Descr\<close> (definitions) and \<open>Axil_Server\<close> (proofs): the descriptor table and the passes of the loop. The
    invariant \<open>server_ok\<close> says that pairs are symmetric and marked and that \<open>select\<close> waits only on open
    descriptors; each operation keeps it, and \<open>server_step\<close> is an instance of \<open>transition_system\<close>.
  \<^item> \<open>Axil_Respond\<close>: \<open>axil_respond\<close> and its wrappers, files, static responses, redirects, listings; what an idle
    client is sent.
  \<^item> \<open>Axil_Request\<close>, \<open>Axil_Service\<close>: authentication, bodies, dispatch, \<open>request_handle\<close>; requests keep the invariant, a
    body arrives whole, what nothing serves is answered 404.
  \<^item> \<open>Axil_Exec\<close>: children, their environment and identity, and the relay of their output.
  \<^item> \<open>Axil_Certs\<close>, \<open>Axil_Main\<close> (\<open>src/axil.c\<close>): TLS contexts, certificates, SNI, ALPN, the default context; options,
    the directory served, the order of the start, the session cookie, connection hooks.
  \<^item> \<open>Axil_Serve\<close>: the methods as commands and the whole way from the bytes of a read to \<open>request_handle\<close>; broadcasts.
  \<^item> \<open>Axil_System\<close>: all operations interleaved in any order keep \<open>server_ok\<close>, a second instance of
    \<open>transition_system\<close>. \<open>Axil_Typed\<close>: a third, with the invariant that all buffers fit.
  \<^item> \<open>Axil_Win\<close> (\<open>src/axil-win.c\<close>): \<open>axil_sendfile\<close> of the Windows port and its agreement with the POSIX one.
  \<^item> \<open>Axil_Apps\<close> (\<open>src/test-routes.c\<close>, \<open>src/test-auth.c\<close>): the two programs that run on the library; the first one
    from the bytes it reads to the bytes it sends, against a table of what it should answer; its handlers
    meet what the invariants above ask of a site.

  \<^bold>\<open>Bounds and fuel.\<close>  \<open>BUFSIZ\<close> is 8192 and \<open>FD_SETSIZE\<close> 1024, as with glibc.  Loops are structural or have a
  measure; the two loops of \<open>axil_rem_may_inc\<close> can run forever and are \<open>partial_function\<close>s whose \<open>None\<close> is
  \<open>Hangs\<close>, and \<open>Axil_Queue\<close> says when.  The main loop and the passes over a program take a list
  of the answers they get, one an iteration; a list that ends stands for a \<open>select\<close> that has not
  returned.  Theorems about an idle client ask that its socket takes 65536 bytes at once.

  \<^bold>\<open>Guards.\<close>  The steps of the transition systems carry as premises what the code relies on: the kernel
  gives out descriptors that are not open, allocation of an upstream's buffer succeeds, a client
  upgraded is in no pair yet, forwarding an upstream's answer does not close the client, and
  \<open>axil_set_flags\<close> is not used on an end of a pair.  For the last three, theorems of \<open>Axil_Server\<close> and
  \<open>Axil_Service\<close> show the damage without them.

  \<^bold>\<open>Not modelled.\<close>  The SSL read and write functions, signals, timestamps and logging, which only call other
  libraries; what loaded modules do and the hooks that call them (\<open>xy\<close>; the order of loading is in
  \<open>Axil_Main\<close>); the functions of the Windows port with empty bodies; pseudo-terminals and telnet, for
  which this repository has no implementation; the symbol test \<open>src/test.c\<close>.  What a child does after
  \<open>execve\<close>, the contents of environment variables given to it beyond their length, and the memory of the
  process outside the buffers named are not modelled either.
\<close>

end
